(* ===== verification/Go_Prelude.thy ===== *)
theory Go_Prelude
  imports
    Main
    "HOL-Library.Word"
    "HOL-Library.List_Lexorder"
    "HOL-Library.AList"
begin

text \<open>
  The ground the other theories stand on: the Go values of the store packages (bytes, slices
  that may be nil, panics), the monad in which the stateful code is written, its
  weakest-precondition calculus, and generic lemmas on ordered association lists.
\<close>

named_theorems wp_simps \<open>equations that push a weakest precondition through a program\<close>
named_theorems go_defs \<open>definitions of the monad's primitives, for evaluation\<close>

section \<open>Go values\<close>

text \<open>
  A \<open>[]byte\<close> is a list of 8-bit words, or nil: nil and the empty slice are different values
  (a nil value is a deletion, a nil bound is an open end of a range). Go strings used as map keys
  are byte lists. \<open>bytes.Compare\<close> is the lexicographic order on byte lists.
\<close>

type_synonym byte = "8 word"
type_synonym bytes = "byte list"
type_synonym slice = "bytes option"

text \<open>The bytes of a slice: nil reads as the empty sequence, as \<open>len\<close>, \<open>copy\<close> and
  \<open>string(...)\<close> do.\<close>

definition bs :: "slice \<Rightarrow> bytes" where
  "bs sl = (case sl of None \<Rightarrow> [] | Some b \<Rightarrow> b)"

lemma bs_simps [simp]: "bs None = []" "bs (Some b) = b"
  by (simp_all add: bs_def)

definition bytes_Compare :: "bytes \<Rightarrow> bytes \<Rightarrow> int" where
  "bytes_Compare a b = (if a < b then -1 else if a = b then 0 else 1)"

lemma bytes_Compare_cases:
  "bytes_Compare a b = -1 \<longleftrightarrow> a < b"
  "bytes_Compare a b = 0 \<longleftrightarrow> a = b"
  "bytes_Compare a b = 1 \<longleftrightarrow> b < a"
  "bytes_Compare a b < 0 \<longleftrightarrow> a < b"
  "0 \<le> bytes_Compare a b \<longleftrightarrow> b \<le> a"
  by (auto simp: bytes_Compare_def not_less)

text \<open>
  A Go panic is a value. \<open>Panic_str\<close> and \<open>Panic_err\<close> carry the message of
  \<open>panic("...")\<close> and \<open>panic(err)\<close>; \<open>Panic_runtime\<close> is a panic of the Go runtime (nil
  dereference, failed type assertion, index out of range); the three gas errors and the abort are
  the struct values the code panics with.
\<close>

datatype panic =
    Panic_str string
  | Panic_err string
  | Panic_runtime string
  | ErrorOutOfGas string
  | ErrorGasOverflow string
  | ErrorNegativeGasConsumed string
  | Panic_abort int string

section \<open>Stateful programs that may panic or not return\<close>

text \<open>
  A program over a state \<open>'s\<close> yields a result or a panic, each with the state it leaves (a Go
  panic does not undo the writes made before it), or \<open>None\<close> when it does not return.
\<close>

type_synonym ('s, 'a) go = "'s \<Rightarrow> ((panic + 'a) \<times> 's) option"

definition ret :: "'a \<Rightarrow> ('s, 'a) go" where
  "ret x = (\<lambda>s. Some (Inr x, s))"

definition go_panic :: "panic \<Rightarrow> ('s, 'a) go" where
  "go_panic p = (\<lambda>s. Some (Inl p, s))"

definition go_bind :: "('s, 'a) go \<Rightarrow> ('a \<Rightarrow> ('s, 'b) go) \<Rightarrow> ('s, 'b) go" where
  "go_bind m f = (\<lambda>s. case m s of
       None \<Rightarrow> None
     | Some (r, s') \<Rightarrow> (case r of Inl p \<Rightarrow> Some (Inl p, s') | Inr x \<Rightarrow> f x s'))"

definition go_read :: "('s \<Rightarrow> 'a) \<Rightarrow> ('s, 'a) go" where
  "go_read f = (\<lambda>s. Some (Inr (f s), s))"

definition go_modify :: "('s \<Rightarrow> 's) \<Rightarrow> ('s, unit) go" where
  "go_modify f = (\<lambda>s. Some (Inr (), f s))"

text \<open>Run a program of a component on the part of the state that the component owns.\<close>

definition go_zoom :: "('t \<Rightarrow> 's) \<Rightarrow> ('s \<Rightarrow> 't \<Rightarrow> 't) \<Rightarrow> ('s, 'a) go \<Rightarrow> ('t, 'a) go" where
  "go_zoom get put m = (\<lambda>t. case m (get t) of
       None \<Rightarrow> None
     | Some (r, s') \<Rightarrow> Some (r, put s' t))"

text \<open>Run a program on the state and an object local to the caller.\<close>

definition go_local :: "'l \<Rightarrow> ('s \<times> 'l, 'a) go \<Rightarrow> ('s, 'a \<times> 'l) go" where
  "go_local l m = (\<lambda>s. case m (s, l) of
       None \<Rightarrow> None
     | Some (Inl p, (s', _)) \<Rightarrow> Some (Inl p, s')
     | Some (Inr x, (s', l')) \<Rightarrow> Some (Inr (x, l'), s'))"

abbreviation nil_deref :: panic where
  "nil_deref \<equiv> Panic_runtime ''invalid memory address or nil pointer dereference''"

text \<open>A Go \<open>for ... range\<close> loop over the elements of a slice.\<close>

primrec go_for :: "'a list \<Rightarrow> ('a \<Rightarrow> ('s, unit) go) \<Rightarrow> ('s, unit) go" where
  "go_for [] f = ret ()"
| "go_for (x # xs) f = go_bind (f x) (\<lambda>_. go_for xs f)"

lemmas go_prims [go_defs] =
  ret_def go_panic_def go_bind_def go_read_def go_modify_def go_zoom_def go_local_def

lemma go_bind_ret [simp]: "go_bind (ret x) f = f x"
  by (simp add: go_bind_def ret_def)

lemma go_bind_panic [simp]: "go_bind (go_panic p) f = go_panic p"
  by (simp add: go_bind_def go_panic_def)

text \<open>Running a sequence on a state, one step at a time.\<close>

lemma go_bind_apply: "go_bind m f s = (case m s of
     None \<Rightarrow> None
   | Some (r, s') \<Rightarrow> (case r of Inl p \<Rightarrow> Some (Inl p, s') | Inr x \<Rightarrow> f x s'))"
  by (simp add: go_bind_def)

lemma go_bind_read: "go_bind (go_read f) g s = g (f s) s"
  by (simp add: go_bind_def go_read_def)

lemma go_bind_modify: "go_bind (go_modify f) g s = g () (f s)"
  by (simp add: go_bind_def go_modify_def)

lemma go_bind_Inr: "m s = Some (Inr x, s1) \<Longrightarrow> go_bind m f s = f x s1"
  by (simp add: go_bind_def)

lemma go_bind_assoc: "go_bind (go_bind m f) g = go_bind m (\<lambda>x. go_bind (f x) g)"
  by (auto simp: go_bind_def fun_eq_iff split: option.splits sum.splits)

lemma go_for_append: "go_for (xs @ ys) f = go_bind (go_for xs f) (\<lambda>_. go_for ys f)"
  by (induction xs) (simp_all add: go_bind_assoc)

subsection \<open>Loops that may not end\<close>

lemma go_bind_mono [partial_function_mono]:
  assumes B: "\<And>s. mono_option (\<lambda>f. B f s)"
    and C: "\<And>y s. mono_option (\<lambda>f. C y f s)"
  shows "mono_option (\<lambda>f. go_bind (B f) (\<lambda>y. C y f) s)"
proof (rule monotoneI)
  fix f g :: "'b \<Rightarrow> 'c option"
  assume fg: "option.le_fun f g"
  have 1: "\<And>s. option_ord (B f s) (B g s)"
    using B fg by (auto dest: monotoneD)
  have 2: "\<And>y s. option_ord (C y f s) (C y g s)"
    using C fg by (auto dest: monotoneD)
  show "option_ord (go_bind (B f) (\<lambda>y. C y f) s) (go_bind (B g) (\<lambda>y. C y g) s)"
  proof (cases "B f s")
    case None
    then show ?thesis by (simp add: go_bind_def flat_ord_def)
  next
    case (Some rs)
    then have "B g s = Some rs"
      using 1 [of s] by (simp add: flat_ord_def)
    with Some 2 show ?thesis
      by (cases rs; cases "fst rs") (auto simp: go_bind_def flat_ord_def)
  qed
qed

lemma go_if_mono [partial_function_mono]:
  assumes "mono_option (\<lambda>f. B f s)" "mono_option (\<lambda>f. C f s)"
  shows "mono_option (\<lambda>f. (if b then B f else C f) s)"
  using assms by (cases b) simp_all

lemma go_let_mono [partial_function_mono]:
  assumes "\<And>x. mono_option (\<lambda>f. B f x s)"
  shows "mono_option (\<lambda>f. (let x = v in B f x) s)"
  using assms by (simp add: Let_def)

section \<open>Weakest preconditions\<close>

text \<open>
  \<open>wp m Q s\<close>: run from \<open>s\<close>, \<open>m\<close> returns without a panic and its result and final state
  satisfy \<open>Q\<close> (total correctness). \<open>panics m Q s\<close>: it panics, and the panic and the state it
  leaves satisfy \<open>Q\<close>.
\<close>

definition wp :: "('s, 'a) go \<Rightarrow> ('a \<Rightarrow> 's \<Rightarrow> bool) \<Rightarrow> 's \<Rightarrow> bool" where
  "wp m Q s \<longleftrightarrow> (\<exists>x s'. m s = Some (Inr x, s') \<and> Q x s')"

definition panics :: "('s, 'a) go \<Rightarrow> (panic \<Rightarrow> 's \<Rightarrow> bool) \<Rightarrow> 's \<Rightarrow> bool" where
  "panics m Q s \<longleftrightarrow> (\<exists>p s'. m s = Some (Inl p, s') \<and> Q p s')"

lemma wp_ret [wp_simps]: "wp (ret x) Q s \<longleftrightarrow> Q x s"
  by (simp add: wp_def ret_def)

lemma wp_panic [wp_simps]: "\<not> wp (go_panic p) Q s"
  by (simp add: wp_def go_panic_def)

lemma wp_read [wp_simps]: "wp (go_read f) Q s \<longleftrightarrow> Q (f s) s"
  by (simp add: wp_def go_read_def)

lemma wp_modify [wp_simps]: "wp (go_modify f) Q s \<longleftrightarrow> Q () (f s)"
  by (simp add: wp_def go_modify_def)

lemma wp_bind [wp_simps]: "wp (go_bind m f) Q s \<longleftrightarrow> wp m (\<lambda>x s'. wp (f x) Q s') s"
  by (auto simp: wp_def go_bind_def split: option.splits sum.splits)

lemma wp_zoom [wp_simps]:
  "wp (go_zoom get put m) Q t \<longleftrightarrow> wp m (\<lambda>x s'. Q x (put s' t)) (get t)"
  by (auto simp: wp_def go_zoom_def split: option.splits)

lemma wp_local [wp_simps]:
  "wp (go_local l m) Q s \<longleftrightarrow> wp m (\<lambda>x sl. Q (x, snd sl) (fst sl)) (s, l)"
  by (auto simp: wp_def go_local_def split: option.splits sum.splits)

lemma wp_if [wp_simps]:
  "wp (if b then m else n) Q s \<longleftrightarrow> (if b then wp m Q s else wp n Q s)"
  by simp

lemma wp_mono: "wp m P s \<Longrightarrow> (\<And>x s'. P x s' \<Longrightarrow> Q x s') \<Longrightarrow> wp m Q s"
  by (auto simp: wp_def)

lemma wp_conj: "wp m P s \<Longrightarrow> wp m Q s \<Longrightarrow> wp m (\<lambda>x s'. P x s' \<and> Q x s') s"
  by (auto simp: wp_def)

lemma wp_SomeI: "m s = Some (Inr x, s') \<Longrightarrow> Q x s' \<Longrightarrow> wp m Q s"
  by (simp add: wp_def)

lemma wpE:
  assumes "wp m Q s"
  obtains x s' where "m s = Some (Inr x, s')" "Q x s'"
  using assms by (auto simp: wp_def)

lemma panics_panic [wp_simps]: "panics (go_panic p) Q s \<longleftrightarrow> Q p s"
  by (simp add: panics_def go_panic_def)

lemma panics_ret [wp_simps]: "\<not> panics (ret x) Q s"
  by (simp add: panics_def ret_def)

lemma panics_read [wp_simps]: "\<not> panics (go_read f) Q s"
  by (simp add: panics_def go_read_def)

lemma panics_modify [wp_simps]: "\<not> panics (go_modify f) Q s"
  by (simp add: panics_def go_modify_def)

lemma panics_bind [wp_simps]:
  "panics (go_bind m f) Q s \<longleftrightarrow> panics m Q s \<or> wp m (\<lambda>x s'. panics (f x) Q s') s"
  by (auto simp: wp_def panics_def go_bind_def split: option.splits sum.splits)

lemma panics_zoom [wp_simps]:
  "panics (go_zoom get put m) Q t \<longleftrightarrow> panics m (\<lambda>p s'. Q p (put s' t)) (get t)"
  by (auto simp: panics_def go_zoom_def split: option.splits)

lemma panics_local [wp_simps]:
  "panics (go_local l m) Q s \<longleftrightarrow> panics m (\<lambda>p sl. Q p (fst sl)) (s, l)"
  by (auto simp: panics_def go_local_def split: option.splits sum.splits)

lemma panics_if [wp_simps]:
  "panics (if b then m else n) Q s \<longleftrightarrow> (if b then panics m Q s else panics n Q s)"
  by simp

lemma panics_not_wp: "panics m P s \<Longrightarrow> \<not> wp m Q s"
  by (auto simp: wp_def panics_def)

text \<open>The loop rule: an invariant over the elements already visited.\<close>

lemma wp_go_for:
  assumes "Inv [] s"
    and "\<And>pre x post t. xs = pre @ x # post \<Longrightarrow> Inv pre t \<Longrightarrow> wp (f x) (\<lambda>_. Inv (pre @ [x])) t"
    and "\<And>t. Inv xs t \<Longrightarrow> Q () t"
  shows "wp (go_for xs f) Q s"
proof -
  have "wp (go_for ys f) (\<lambda>_. Inv xs) t" if "xs = pre @ ys" "Inv pre t" for pre ys t
    using that
  proof (induction ys arbitrary: pre t)
    case Nil
    then show ?case by (simp add: wp_simps)
  next
    case (Cons y ys)
    have "wp (f y) (\<lambda>_. Inv (pre @ [y])) t"
      using assms(2) Cons.prems by blast
    then have "wp (f y) (\<lambda>_ t'. wp (go_for ys f) (\<lambda>_. Inv xs) t') t"
      by (rule wp_mono) (use Cons.IH Cons.prems(1) in auto)
    then show ?case by (simp add: wp_simps)
  qed
  from this [of "[]" xs s] assms(1) have "wp (go_for xs f) (\<lambda>_. Inv xs) s"
    by simp
  then show ?thesis
    by (rule wp_mono) (use assms(3) in auto)
qed

section \<open>Sorted lists\<close>

text \<open>On a sorted list, the elements below a bound are a front segment.\<close>

lemma sorted_takeWhile_filter:
  "sorted_wrt R xs \<Longrightarrow> (\<And>x y. R x y \<Longrightarrow> P y \<Longrightarrow> P x) \<Longrightarrow> takeWhile P xs = filter P xs"
  by (induction xs) (auto intro!: filter_False [symmetric])

lemma sorted_dropWhile_filter:
  "sorted_wrt R xs \<Longrightarrow> (\<And>x y. R x y \<Longrightarrow> P y \<Longrightarrow> P x) \<Longrightarrow> dropWhile P xs = filter (\<lambda>x. \<not> P x) xs"
  by (induction xs) (auto intro!: filter_True [symmetric])

lemma length_takeWhile_less_iff: "length (takeWhile P xs) < length xs \<longleftrightarrow> (\<exists>x \<in> set xs. \<not> P x)"
  by (induction xs) auto

section \<open>Association lists\<close>

lemma set_update_subset: "set (AList.update k v al) \<subseteq> insert (k, v) (set al)"
  by (induction al) auto

lemma map_of_snoc: "k \<notin> fst ` set al \<Longrightarrow> map_of (al @ [(k, v)]) = (map_of al)(k \<mapsto> v)"
  by (induction al) (auto simp: fun_eq_iff)

lemma map_of_filter_key: "map_of (filter (\<lambda>e. Q (fst e)) xs) k = (if Q k then map_of xs k else None)"
  by (induction xs) auto

end
