(* ===== verification/Go_Bytes.thy ===== *)
theory Go_Bytes
  imports Go_Prelude "HOL-Library.Sublist"
begin

text \<open>
  The byte-level helpers of the types package: key and value validation (types/validity.go), the
  end of a prefix range, big-endian integers and the store-name collision check (types/utils.go).
\<close>

section \<open>Lexicographic order and prefixes\<close>

lemma append_less_append [simp]: "(p @ a :: bytes) < p @ b \<longleftrightarrow> a < b"
  by (induction p) auto

lemma append_le_append [simp]: "(p @ a :: bytes) \<le> p @ b \<longleftrightarrow> a \<le> b"
  by (auto simp: le_less)

lemma prefix_imp_le: "prefix p k \<Longrightarrow> p \<le> (k :: bytes)"
  by (metis append_Nil2 append_le_append Nil_le_Cons neq_Nil_conv order_refl prefixE)

lemma prefix_between:
  "prefix (a :: bytes) c \<Longrightarrow> a \<le> b \<Longrightarrow> b \<le> c \<Longrightarrow> prefix a b"
proof (induction a arbitrary: b c)
  case Nil
  then show ?case by simp
next
  case (Cons x a)
  from Cons.prems(1) obtain c' where c: "c = x # c'" "prefix a c'"
    by (cases c) auto
  show ?case
  proof (cases b)
    case Nil
    with Cons.prems show ?thesis by simp
  next
    case (Cons y b')
    with Cons.prems c have "y = x" "a \<le> b'" "b' \<le> c'"
      by auto
    with Cons c Cons.IH show ?thesis by auto
  qed
qed

lemma byte_255: "(255 :: byte) = -1"
  by simp

section \<open>Validation of keys and values\<close>

definition MaxKeyLength :: nat where
  "MaxKeyLength = 2 ^ 17 - 1"

definition MaxValueLength :: nat where
  "MaxValueLength = 2 ^ 31 - 1"

definition AssertValidKey :: "slice \<Rightarrow> ('s, unit) go" where
  "AssertValidKey key =
     (if length (bs key) = 0 then go_panic (Panic_str ''key is nil or empty'')
      else if length (bs key) > MaxKeyLength then go_panic (Panic_str ''key is too large'')
      else ret ())"

definition AssertValidValue :: "slice \<Rightarrow> ('s, unit) go" where
  "AssertValidValue value =
     (if value = None then go_panic (Panic_str ''value is nil'')
      else if length (bs value) > MaxValueLength then go_panic (Panic_str ''value is too large'')
      else ret ())"

text \<open>The keys and values that pass.\<close>

definition valid_key :: "bytes \<Rightarrow> bool" where
  "valid_key k \<longleftrightarrow> 0 < length k \<and> length k \<le> MaxKeyLength"

definition valid_value :: "bytes \<Rightarrow> bool" where
  "valid_value v \<longleftrightarrow> length v \<le> MaxValueLength"

lemma wp_AssertValidKey [wp_simps]:
  "wp (AssertValidKey key) Q s \<longleftrightarrow> valid_key (bs key) \<and> Q () s"
  by (auto simp: AssertValidKey_def valid_key_def wp_simps)

lemma wp_AssertValidValue [wp_simps]:
  "wp (AssertValidValue v) Q s \<longleftrightarrow> v \<noteq> None \<and> valid_value (bs v) \<and> Q () s"
  by (auto simp: AssertValidValue_def valid_value_def wp_simps)

lemma AssertValidKey_ok [simp]: "valid_key (bs key) \<Longrightarrow> AssertValidKey key = ret ()"
  by (auto simp: AssertValidKey_def valid_key_def fun_eq_iff)

lemma AssertValidValue_ok [simp]: "valid_value v \<Longrightarrow> AssertValidValue (Some v) = ret ()"
  by (auto simp: AssertValidValue_def valid_value_def)

section \<open>The end of a prefix range\<close>

text \<open>
  The \<open>for\<close> loop of \<open>PrefixEndBytes\<close> on the copy of the prefix: increment the last byte, or
  drop it when it is 0xFF; nil when nothing is left. The loop never sees an empty slice.
\<close>

function PrefixEndBytes_loop :: "bytes \<Rightarrow> slice" where
  "PrefixEndBytes_loop e =
     (if e = [] then None
      else if last e \<noteq> 255 then Some (butlast e @ [last e + 1])
      else let e' = butlast e in
           if length e' = 0 then None else PrefixEndBytes_loop e')"
  by pat_completeness auto
termination
  by (relation "measure length") auto

declare PrefixEndBytes_loop.simps [simp del]

definition PrefixEndBytes :: "slice \<Rightarrow> slice" where
  "PrefixEndBytes p = (if length (bs p) = 0 then None else PrefixEndBytes_loop (bs p))"

definition InclusiveEndBytes :: "bytes \<Rightarrow> bytes" where
  "InclusiveEndBytes inclusiveBytes = inclusiveBytes @ [0]"

lemma less_succ_byte:
  assumes "(b :: byte) \<noteq> 255"
  shows "x < b + 1 \<longleftrightarrow> x \<le> b"
proof -
  have "1 + b \<noteq> 0"
    using assms by (metis add.commute add_diff_cancel diff_0 byte_255)
  then have "unat (b + 1) = Suc (unat b)"
    by (metis add.commute unatSuc)
  then show ?thesis
    by (simp add: word_less_nat_alt word_le_nat_alt less_Suc_eq_le)
qed

lemma byte_le_255: "(x :: byte) \<le> 255"
  unfolding byte_255 by simp

lemma byte_255_less: "\<not> (255 :: byte) < x"
  using byte_le_255 by (simp add: not_less)

lemma Cons_range: "(x :: 'a :: linorder) # a \<le> y # k \<and> y # k < x # c \<longleftrightarrow> x = y \<and> a \<le> k \<and> k < c"
  by auto

lemma prefix_snoc_range:
  assumes "b \<noteq> 255"
  shows "p @ [b] \<le> k \<and> k < p @ [b + 1] \<longleftrightarrow> prefix (p @ [b :: byte]) k"
proof (induction p arbitrary: k)
  case Nil
  then show ?case
    using assms by (cases k) (auto simp: less_succ_byte dest: leD)
next
  case (Cons x p)
  show ?case
  proof (cases k)
    case (Cons y k')
    then show ?thesis
      using Cons.IH [of k'] by (simp only: append_Cons Cons_range Cons_prefix_Cons)
  qed simp
qed

lemma prefix_snoc_255: "p @ [255] \<le> k \<and> prefix p k \<longleftrightarrow> prefix (p @ [255 :: byte]) k"
proof (induction p arbitrary: k)
  case Nil
  then show ?case
    by (cases k) (simp_all add: byte_255_less)
next
  case (Cons x p)
  then show ?case
    by (cases k) auto
qed

lemma PrefixEndBytes_loop_range:
  "e \<noteq> [] \<Longrightarrow> e \<le> k \<and> (case PrefixEndBytes_loop e of None \<Rightarrow> True | Some u \<Rightarrow> k < u)
     \<longleftrightarrow> prefix e k"
proof (induction e rule: PrefixEndBytes_loop.induct)
  case (1 e)
  obtain p b where e: "e = p @ [b]"
    using "1.prems" by (cases e rule: rev_cases) auto
  consider "b \<noteq> 255" | "b = 255" "p = []" | "b = 255" "p \<noteq> []" by auto
  then show ?case
  proof cases
    case 1
    then show ?thesis
      by (simp add: e PrefixEndBytes_loop.simps [of "p @ [b]"] prefix_snoc_range)
  next
    case 2
    then show ?thesis
      using prefix_snoc_255 [of "[]" k] by (simp add: e PrefixEndBytes_loop.simps [of "[255]"])
  next
    case 3
    then have IH: "p \<le> k \<and> (case PrefixEndBytes_loop p of None \<Rightarrow> True | Some u \<Rightarrow> k < u)
        \<longleftrightarrow> prefix p k"
      using "1.IH" [OF "1.prems" _ refl] by (simp add: e)
    have "p \<le> p @ [b]"
      by (rule prefix_imp_le) simp
    then have "p @ [b] \<le> k \<Longrightarrow> p \<le> k"
      by (rule order_trans)
    moreover have "PrefixEndBytes_loop e = PrefixEndBytes_loop p"
      using 3 by (simp add: e PrefixEndBytes_loop.simps [of "p @ [255]"])
    ultimately show ?thesis
      using IH prefix_snoc_255 [of p k] 3(1) unfolding e by metis
  qed
qed

lemma PrefixEndBytes_range:
  "p \<le> k \<and> (case PrefixEndBytes (Some p) of None \<Rightarrow> True | Some e \<Rightarrow> k < e) \<longleftrightarrow> prefix p k"
  using PrefixEndBytes_loop_range [of p k] by (cases "p = []") (simp_all add: PrefixEndBytes_def)

lemma InclusiveEndBytes_range: "k < InclusiveEndBytes p \<longleftrightarrow> k \<le> p"
proof (induction p arbitrary: k)
  case Nil
  show ?case
    by (cases k) (auto simp: InclusiveEndBytes_def)
next
  case (Cons x p)
  then show ?case
    by (cases k) (simp_all add: InclusiveEndBytes_def)
qed

section \<open>Big-endian integers\<close>

text \<open>
  \<open>encoding/binary\<close>: \<open>BigEndian.PutUintN\<close> writes the low \<open>n\<close> bytes of an integer, the most
  significant first; \<open>BigEndian.UintN\<close> reads \<open>n\<close> bytes and panics when there are fewer.
\<close>

primrec be_put :: "nat \<Rightarrow> nat \<Rightarrow> bytes" where
  "be_put 0 x = []"
| "be_put (Suc n) x = be_put n (x div 256) @ [word_of_nat (x mod 256)]"

definition be_value :: "bytes \<Rightarrow> nat" where
  "be_value b = foldl (\<lambda>a x. 256 * a + unat x) 0 b"

definition be_get :: "nat \<Rightarrow> bytes \<Rightarrow> panic + nat" where
  "be_get n b = (if length b < n then Inl (Panic_runtime ''index out of range'')
                 else Inr (be_value (take n b)))"

lemma length_be_put [simp]: "length (be_put n x) = n"
  by (induction n arbitrary: x) auto

lemma be_value_snoc: "be_value (b @ [x]) = 256 * be_value b + unat x"
  by (simp add: be_value_def)

lemma be_value_Nil [simp]: "be_value [] = 0"
  by (simp add: be_value_def)

lemma unat_byte_of_nat: "unat (word_of_nat (x mod 256) :: byte) = x mod 256"
  by (simp add: unat_of_nat)

lemma be_value_put: "be_value (be_put n x) = x mod 256 ^ n"
proof (induction n arbitrary: x)
  case (Suc n)
  have "x mod (256 * 256 ^ n) = 256 * (x div 256 mod 256 ^ n) + x mod 256"
    by (rule mod_mult2_eq)
  with Suc show ?case
    by (simp add: be_value_snoc unat_byte_of_nat)
qed simp

lemma be_put_value: "be_put (length b) (be_value b) = b"
proof (induction b rule: rev_induct)
  case (snoc x b)
  have "unat x < 256"
    using unsigned_less [of x] by simp
  with snoc show ?case
    by (simp add: be_value_snoc)
qed simp

lemma be_value_less: "be_value b < 256 ^ length b"
proof (induction b rule: rev_induct)
  case (snoc x b)
  have "unat x < 256"
    using unsigned_less [of x] by simp
  with snoc show ?case
    by (simp add: be_value_snoc)
qed simp

lemma be_value_Cons: "be_value (x # b) = unat x * 256 ^ length b + be_value b"
  by (induction b rule: rev_induct) (simp_all add: be_value_snoc be_value_def algebra_simps)

text \<open>Big-endian encodings of one width sort as the integers they encode.\<close>

lemma be_value_mono: "length a = length b \<Longrightarrow> a < b \<longleftrightarrow> be_value a < be_value b"
proof (induction a b rule: list_induct2)
  case (Cons x a y b)
  have less: "u * m + p < v * m + q" if "u < v" "p < m" for u v p q m :: nat
  proof -
    have "u * m + p < Suc u * m" using that by simp
    also have "\<dots> \<le> v * m" using that by (intro mult_le_mono1) simp
    finally show ?thesis by simp
  qed
  show ?case
    using Cons less [of "unat x" "unat y" "be_value a" "256 ^ length a" "be_value b"]
      less [of "unat y" "unat x" "be_value b" "256 ^ length a" "be_value a"]
      be_value_less [of a] be_value_less [of b]
    by (cases "unat x" "unat y" rule: linorder_cases)
      (auto simp: be_value_Cons word_less_nat_alt word_unat_eq_iff)
qed simp

definition Uint64ToBigEndian :: "64 word \<Rightarrow> bytes" where
  "Uint64ToBigEndian i = be_put 8 (unat i)"

definition BigEndianToUint64 :: "slice \<Rightarrow> panic + 64 word" where
  "BigEndianToUint64 bz =
     (if length (bs bz) = 0 then Inr 0
      else case be_get 8 (bs bz) of Inl p \<Rightarrow> Inl p | Inr n \<Rightarrow> Inr (word_of_nat n))"

section \<open>Store names without common prefixes\<close>

text \<open>The loop of \<open>assertNoCommonPrefix\<close> over the sorted names, comparing neighbours.\<close>

fun assertNoCommonPrefix_loop :: "bytes list \<Rightarrow> ('s, unit) go" where
  "assertNoCommonPrefix_loop (a # b # rest) =
     (if prefix a b then go_panic (Panic_str ''Potential key collision between KVStores:'')
      else assertNoCommonPrefix_loop (b # rest))"
| "assertNoCommonPrefix_loop _ = ret ()"

definition assertNoCommonPrefix :: "bytes list \<Rightarrow> ('s, unit) go" where
  "assertNoCommonPrefix keys = assertNoCommonPrefix_loop (sort keys)"

lemma assertNoCommonPrefix_loop_ok:
  "sorted ks \<Longrightarrow>
     wp (assertNoCommonPrefix_loop ks) (\<lambda>_ s'. s' = s) s
       \<longleftrightarrow> sorted_wrt (\<lambda>a b. \<not> prefix a b) ks"
proof (induction ks rule: assertNoCommonPrefix_loop.induct)
  case (1 a b rest)
  have "sorted_wrt (\<lambda>a b. \<not> prefix a b) (a # b # rest) \<longleftrightarrow>
      \<not> prefix a b \<and> sorted_wrt (\<lambda>a b. \<not> prefix a b) (b # rest)"
    using 1(2) prefix_between [of a _ b] by auto
  with 1 show ?case
    by (simp add: wp_simps)
qed (simp_all add: wp_simps)

fun SliceContains :: "'a list \<Rightarrow> 'a \<Rightarrow> bool" where
  "SliceContains [] v = False"
| "SliceContains (s # elements) v = (if v = s then True else SliceContains elements v)"

lemma SliceContains_iff [simp]: "SliceContains xs v \<longleftrightarrow> v \<in> set xs"
  by (induction xs) auto

section \<open>Lengths of integers\<close>

text \<open>\<open>bits.Len\<close> of the standard library.\<close>

fun bits_Len :: "nat \<Rightarrow> nat" where
  "bits_Len n = (if n = 0 then 0 else Suc (bits_Len (n div 2)))"

declare bits_Len.simps [simp del]

lemma bits_Len_bounds: "0 < n \<Longrightarrow> 2 ^ (bits_Len n - 1) \<le> n \<and> n < 2 ^ bits_Len n \<and> 0 < bits_Len n"
proof (induction n rule: bits_Len.induct)
  case (1 n)
  show ?case
  proof (cases "n = 1")
    case True
    then show ?thesis by (simp add: bits_Len.simps)
  next
    case False
    then have half: "0 < n div 2" using 1(2) by simp
    have ih: "2 ^ (bits_Len (n div 2) - 1) \<le> n div 2" "n div 2 < 2 ^ bits_Len (n div 2)" "0 < bits_Len (n div 2)" using 1(1) [OF _ half] 1(2) by auto
    obtain b where b: "bits_Len (n div 2) = Suc b" using ih(3) by (cases "bits_Len (n div 2)") auto
    have "bits_Len n = Suc (Suc b)" using 1(2) b by (simp add: bits_Len.simps [of n])
    then show ?thesis using ih b by (auto simp: less_eq_div_iff_mult_less_eq div_less_iff_less_mult mult.commute)
  qed
qed

end
