(* ===== verification/KV_Interface.thy ===== *)
theory KV_Interface
  imports Go_Bytes
begin

text \<open>
  The interfaces of types/store.go through which the stores are stacked: \<open>Iterator\<close> and
  \<open>KVStore\<close>. An interface is a record of operations, passed to the definitions of every store
  that wraps another; what a wrapper relies on is a locale over the record. The theory also models
  what types/iterator.go and types/utils.go build on the two interfaces.
\<close>

section \<open>Ranges of keys\<close>

text \<open>Membership in the half-open domain of an iterator; a nil bound is open.\<close>

definition in_domain :: "slice \<Rightarrow> slice \<Rightarrow> bytes \<Rightarrow> bool" where
  "in_domain start end k \<longleftrightarrow> bs start \<le> k \<and> (case end of None \<Rightarrow> True | Some e \<Rightarrow> k < e)"

text \<open>The ranges a store iterates over: no bound is an empty key, and the start is not after the
  end.\<close>

definition ok_bound :: "slice \<Rightarrow> bool" where
  "ok_bound b \<longleftrightarrow> b \<noteq> Some []"

definition ok_range :: "slice \<Rightarrow> slice \<Rightarrow> bool" where
  "ok_range start end \<longleftrightarrow> ok_bound start \<and> ok_bound end \<and>
     (case end of None \<Rightarrow> True | Some e \<Rightarrow> bs start \<le> e)"

definition before :: "bool \<Rightarrow> bytes \<Rightarrow> bytes \<Rightarrow> bool" where
  "before ascending a b = (if ascending then a < b else b < a)"

lemma before_bool [simp]: "before True = (<)" "before False = (>)"
  by (auto simp: before_def fun_eq_iff)

lemma before_trans: "before asc a b \<Longrightarrow> before asc b c \<Longrightarrow> before asc a c"
  by (auto simp: before_def split: if_splits)

lemma before_irrefl [simp]: "\<not> before asc a a"
  by (simp add: before_def)

lemma before_linear: "before asc a b \<or> a = b \<or> before asc b a"
  by (auto simp: before_def)

lemma before_asym: "before asc a b \<Longrightarrow> \<not> before asc b a"
  by (auto simp: before_def split: if_splits)

text \<open>\<open>covers m start end asc xs\<close>: the list holds exactly the entries of the map inside the
  domain, each once, in the order of the iteration.\<close>

definition covers ::
  "(bytes \<rightharpoonup> bytes) \<Rightarrow> slice \<Rightarrow> slice \<Rightarrow> bool \<Rightarrow> (bytes \<times> slice) list \<Rightarrow> bool" where
  "covers m start end asc xs \<longleftrightarrow>
     sorted_wrt (before asc) (map fst xs) \<and>
     (\<forall>k. map_of xs k = (if in_domain start end k then map_option Some (m k) else None))"

lemma sorted_before_distinct: "sorted_wrt (before asc) ks \<Longrightarrow> distinct ks"
  by (induction ks) auto

lemma sorted_before_unique:
  "sorted_wrt (before asc) xs \<Longrightarrow> sorted_wrt (before asc) ys \<Longrightarrow> set xs = set ys \<Longrightarrow> xs = ys"
proof (induction xs arbitrary: ys)
  case Nil
  then show ?case by simp
next
  case (Cons x xs)
  then obtain y ys' where ys: "ys = y # ys'" by (cases ys) auto
  have "x = y"
    using Cons.prems unfolding ys
    by simp (metis before_asym insert_iff)
  moreover have "set xs = set ys'"
    using Cons.prems sorted_before_distinct [of asc "x # xs"] sorted_before_distinct [of asc ys]
      \<open>x = y\<close> unfolding ys by auto
  ultimately show ?case
    using Cons ys by auto
qed

lemma alist_eqI:
  assumes "map fst xs = map fst ys" "distinct (map fst xs)" "map_of xs = map_of ys"
  shows "xs = ys"
proof (rule nth_equalityI)
  show len: "length xs = length ys"
    using assms(1) by (metis length_map)
  fix i
  assume i: "i < length xs"
  have f: "fst (xs ! i) = fst (ys ! i)"
    using assms(1) i len by (metis nth_map)
  have "map_of xs (fst (xs ! i)) = Some (snd (xs ! i))"
    using assms(2) i by (simp add: map_of_eq_Some_iff)
  moreover have "map_of ys (fst (ys ! i)) = Some (snd (ys ! i))"
    using assms(1,2) i len by (simp add: map_of_eq_Some_iff)
  ultimately show "xs ! i = ys ! i"
    using f assms(3) by (simp add: prod_eq_iff)
qed

lemma covers_unique:
  assumes "covers m start end asc xs" "covers m start end asc ys"
  shows "xs = ys"
proof (rule alist_eqI)
  have eq: "map_of xs = map_of ys"
    using assms by (auto simp: covers_def fun_eq_iff)
  then have "set (map fst xs) = set (map fst ys)"
    by (metis dom_map_of_conv_image_fst list.set_map)
  then show "map fst xs = map fst ys"
    using assms sorted_before_unique by (auto simp: covers_def)
  show "distinct (map fst xs)"
    using assms(1) sorted_before_distinct by (auto simp: covers_def)
  show "map_of xs = map_of ys" by (rule eq)
qed

lemma covers_keys:
  assumes "covers m start end asc xs"
  shows "set (map fst xs) = {k \<in> dom m. in_domain start end k}"
proof -
  have "set (map fst xs) = dom (map_of xs)"
    by (simp add: dom_map_of_conv_image_fst)
  also have "\<dots> = {k. (if in_domain start end k then map_option Some (m k) else None) \<noteq> None}"
    using assms by (simp add: covers_def dom_def)
  finally show ?thesis by auto
qed

lemma covers_Some: "covers m start end asc xs \<Longrightarrow> (k, v) \<in> set xs \<Longrightarrow> \<exists>b. v = Some b \<and> m k = Some b"
proof -
  assume c: "covers m start end asc xs" and kv: "(k, v) \<in> set xs"
  then have "distinct (map fst xs)"
    by (auto simp: covers_def dest: sorted_before_distinct)
  with kv have "map_of xs k = Some v" by simp
  with c show ?thesis
    by (auto simp: covers_def split: if_splits)
qed

lemma covers_live: "covers m start end asc xs \<Longrightarrow> list_all (\<lambda>e. snd e \<noteq> None) xs"
  using covers_Some unfolding list_all_iff by fastforce

section \<open>The Iterator interface\<close>

text \<open>
  \<open>types.Iterator\<close>: every method runs on the whole state \<open>'x\<close> that the iterator shares with
  the objects it points to. \<open>Error\<close> returns nil or the message of the error.
\<close>

record 'x iter_ops =
  it_Domain :: "('x, slice \<times> slice) go"
  it_Valid :: "('x, bool) go"
  it_Next :: "('x, unit) go"
  it_Key :: "('x, slice) go"
  it_Value :: "('x, slice) go"
  it_Error :: "('x, string option) go"
  it_Close :: "('x, string option) go"

text \<open>An iterator whose state sits inside a larger one.\<close>

definition zoom_iter :: "('t \<Rightarrow> 's) \<Rightarrow> ('s \<Rightarrow> 't \<Rightarrow> 't) \<Rightarrow> 's iter_ops \<Rightarrow> 't iter_ops" where
  "zoom_iter get put ops = \<lparr>
     it_Domain = go_zoom get put (it_Domain ops),
     it_Valid = go_zoom get put (it_Valid ops),
     it_Next = go_zoom get put (it_Next ops),
     it_Key = go_zoom get put (it_Key ops),
     it_Value = go_zoom get put (it_Value ops),
     it_Error = go_zoom get put (it_Error ops),
     it_Close = go_zoom get put (it_Close ops) \<rparr>"

text \<open>
  The contract: \<open>items\<close> is what is left to visit. \<open>Valid\<close> tells whether anything is left,
  \<open>Key\<close> and \<open>Value\<close> read the first of it, \<open>Next\<close> drops it, and no method changes what
  \<open>obs\<close> observes of the rest of the state.
\<close>

locale iterator =
  fixes ops :: "'x iter_ops"
    and I :: "'x \<Rightarrow> bool"
    and items :: "'x \<Rightarrow> (bytes \<times> slice) list"
    and obs :: "'x \<Rightarrow> 'o"
  assumes Valid: "I x \<Longrightarrow>
      wp (it_Valid ops) (\<lambda>b x'. b = (items x \<noteq> []) \<and> I x' \<and> items x' = items x \<and> obs x' = obs x) x"
    and Key: "I x \<Longrightarrow> items x = (k, v) # r \<Longrightarrow>
      wp (it_Key ops) (\<lambda>y x'. y = Some k \<and> I x' \<and> items x' = items x \<and> obs x' = obs x) x"
    and Value: "I x \<Longrightarrow> items x = (k, v) # r \<Longrightarrow>
      wp (it_Value ops) (\<lambda>y x'. y = v \<and> I x' \<and> items x' = items x \<and> obs x' = obs x) x"
    and Next: "I x \<Longrightarrow> items x = (k, v) # r \<Longrightarrow>
      wp (it_Next ops) (\<lambda>_ x'. I x' \<and> items x' = r \<and> obs x' = obs x) x"

text \<open>An iterator inside a larger state keeps the contract, as long as the larger state's invariant
  and observation only depend on what the iterator's methods preserve.\<close>

lemma zoom_iter_simps [simp]:
  "it_Domain (zoom_iter get put ops) = go_zoom get put (it_Domain ops)"
  "it_Valid (zoom_iter get put ops) = go_zoom get put (it_Valid ops)"
  "it_Next (zoom_iter get put ops) = go_zoom get put (it_Next ops)"
  "it_Key (zoom_iter get put ops) = go_zoom get put (it_Key ops)"
  "it_Value (zoom_iter get put ops) = go_zoom get put (it_Value ops)"
  "it_Error (zoom_iter get put ops) = go_zoom get put (it_Error ops)"
  "it_Close (zoom_iter get put ops) = go_zoom get put (it_Close ops)"
  by (simp_all add: zoom_iter_def)

lemma iterator_zoom:
  assumes "iterator ops I items obs"
    and get_put: "\<And>s t. get (put s t) = s"
    and J_I: "\<And>t. J t \<Longrightarrow> I (get t)"
    and J_put: "\<And>s t. J t \<Longrightarrow> I s \<Longrightarrow> obs s = obs (get t) \<Longrightarrow>
      items s = items (get t) \<or> items s = tl (items (get t)) \<Longrightarrow> J (put s t)"
    and obs_put: "\<And>s t. obs s = obs (get t) \<Longrightarrow> obs' (put s t) = obs' t"
  shows "iterator (zoom_iter get put ops) J (items \<circ> get) obs'"
proof -
  note Valid = iterator.Valid [OF assms(1)] and Key = iterator.Key [OF assms(1)]
    and Value = iterator.Value [OF assms(1)] and Next = iterator.Next [OF assms(1)]
  show ?thesis
  proof
    fix x
    assume "J x"
    then show "wp (it_Valid (zoom_iter get put ops))
        (\<lambda>b x'. b = ((items \<circ> get) x \<noteq> []) \<and> J x' \<and> (items \<circ> get) x' = (items \<circ> get) x \<and> obs' x' = obs' x) x"
      unfolding zoom_iter_simps wp_zoom
      by (intro wp_mono [OF Valid] J_I) (auto simp: get_put obs_put J_put)
  next
    fix x k v r
    assume J: "J x" and it: "(items \<circ> get) x = (k, v) # r"
    show "wp (it_Key (zoom_iter get put ops))
        (\<lambda>y x'. y = Some k \<and> J x' \<and> (items \<circ> get) x' = (items \<circ> get) x \<and> obs' x' = obs' x) x"
      unfolding zoom_iter_simps wp_zoom using J it
      by (intro wp_mono [OF Key] J_I) (auto simp: get_put obs_put J_put)
    show "wp (it_Value (zoom_iter get put ops))
        (\<lambda>y x'. y = v \<and> J x' \<and> (items \<circ> get) x' = (items \<circ> get) x \<and> obs' x' = obs' x) x"
      unfolding zoom_iter_simps wp_zoom using J it
      by (intro wp_mono [OF Value] J_I) (auto simp: get_put obs_put J_put)
    show "wp (it_Next (zoom_iter get put ops))
        (\<lambda>_ x'. J x' \<and> (items \<circ> get) x' = r \<and> obs' x' = obs' x) x"
      unfolding zoom_iter_simps wp_zoom using J it
      by (intro wp_mono [OF Next] J_I) (auto simp: get_put obs_put J_put)
  qed
qed

text \<open>The loop \<open>for ; it.Valid(); it.Next() { ks = append(ks, it.Key()) }\<close> that the stores use to
  collect the keys of a range.\<close>

partial_function (option) iter_keys :: "'x iter_ops \<Rightarrow> bytes list \<Rightarrow> ('x, bytes list) go" where
  "iter_keys ops acc x =
     go_bind (it_Valid ops) (\<lambda>ok.
       if ok then
         go_bind (it_Key ops) (\<lambda>k.
         go_bind (it_Next ops) (\<lambda>_. iter_keys ops (acc @ [bs k])))
       else ret acc) x"

lemma iter_keys_unfold:
  "iter_keys ops acc =
     go_bind (it_Valid ops) (\<lambda>ok.
       if ok then
         go_bind (it_Key ops) (\<lambda>k.
         go_bind (it_Next ops) (\<lambda>_. iter_keys ops (acc @ [bs k])))
       else ret acc)"
  by (rule ext) (rule iter_keys.simps)

context iterator
begin

lemma Valid_bind:
  assumes "I x"
    and "\<And>x'. I x' \<Longrightarrow> items x' = items x \<Longrightarrow> obs x' = obs x \<Longrightarrow> wp (f (items x \<noteq> [])) Q x'"
  shows "wp (go_bind (it_Valid ops) f) Q x"
  unfolding wp_bind by (rule wp_mono [OF Valid]) (use assms in auto)

lemma Key_bind:
  assumes "I x" "items x = (k, v) # r"
    and "\<And>x'. I x' \<Longrightarrow> items x' = items x \<Longrightarrow> obs x' = obs x \<Longrightarrow> wp (f (Some k)) Q x'"
  shows "wp (go_bind (it_Key ops) f) Q x"
  unfolding wp_bind by (rule wp_mono [OF Key]) (use assms in auto)

lemma Value_bind:
  assumes "I x" "items x = (k, v) # r"
    and "\<And>x'. I x' \<Longrightarrow> items x' = items x \<Longrightarrow> obs x' = obs x \<Longrightarrow> wp (f v) Q x'"
  shows "wp (go_bind (it_Value ops) f) Q x"
  unfolding wp_bind by (rule wp_mono [OF Value]) (use assms in auto)

lemma Next_bind:
  assumes "I x" "items x = (k, v) # r"
    and "\<And>x'. I x' \<Longrightarrow> items x' = r \<Longrightarrow> obs x' = obs x \<Longrightarrow> wp (f ()) Q x'"
  shows "wp (go_bind (it_Next ops) f) Q x"
  unfolding wp_bind by (rule wp_mono [OF Next]) (use assms in auto)

text \<open>The same laws as runs.\<close>

lemma ValidE:
  assumes "I x"
  obtains x' where "it_Valid ops x = Some (Inr (items x \<noteq> []), x')"
    "I x'" "items x' = items x" "obs x' = obs x"
  using Valid [OF assms] by (auto elim!: wpE)

lemma KeyE:
  assumes "I x" "items x = (k, v) # r"
  obtains x' where "it_Key ops x = Some (Inr (Some k), x')"
    "I x'" "items x' = (k, v) # r" "obs x' = obs x"
  using Key [OF assms] assms(2) by (auto elim!: wpE)

lemma ValueE:
  assumes "I x" "items x = (k, v) # r"
  obtains x' where "it_Value ops x = Some (Inr v, x')"
    "I x'" "items x' = (k, v) # r" "obs x' = obs x"
  using Value [OF assms] assms(2) by (auto elim!: wpE)

lemma NextE:
  assumes "I x" "items x = (k, v) # r"
  obtains x' where "it_Next ops x = Some (Inr (), x')" "I x'" "items x' = r" "obs x' = obs x"
  using Next [OF assms] by (auto elim!: wpE)

lemma iter_keys_wp:
  assumes "I x"
    and "\<And>x'. I x' \<Longrightarrow> items x' = [] \<Longrightarrow> obs x' = obs x \<Longrightarrow> Q (acc @ map fst (items x)) x'"
  shows "wp (iter_keys ops acc) Q x"
  using assms
proof (induction "items x" arbitrary: acc x)
  case Nil
  then show ?case
    by (subst iter_keys_unfold, intro Valid_bind) (auto simp: wp_simps)
next
  case (Cons a r)
  obtain k v where a: "a = (k, v)" by (cases a)
  have ix: "items x = (k, v) # r" using Cons.hyps(2) a by simp
  obtain x1 where 1: "it_Valid ops x = Some (Inr True, x1)" "I x1" "items x1 = (k, v) # r" "obs x1 = obs x"
    using ValidE [OF Cons.prems(1)] ix by auto
  obtain x2 where 2: "it_Key ops x1 = Some (Inr (Some k), x2)" "I x2" "items x2 = (k, v) # r" "obs x2 = obs x1"
    using KeyE [OF 1(2,3)] by blast
  obtain x3 where 3: "it_Next ops x2 = Some (Inr (), x3)" "I x3" "items x3 = r" "obs x3 = obs x2"
    using NextE [OF 2(2,3)] by blast
  have "iter_keys ops acc x = iter_keys ops (acc @ [k]) x3"
    by (subst iter_keys.simps) (simp add: go_bind_apply 1(1) 2(1) 3(1))
  moreover have "wp (iter_keys ops (acc @ [k])) Q x3"
    using Cons.hyps(1) [of x3 "acc @ [k]"] Cons.prems(2) 1 2 3 ix by simp
  ultimately show ?case by (simp add: wp_def)
qed

end

lemma iterator_items_cong:
  assumes "iterator ops I items obs" and "\<And>x. I x \<Longrightarrow> items' x = items x"
  shows "iterator ops I items' obs"
proof
  fix x
  assume "I x"
  then show "wp (it_Valid ops) (\<lambda>b x'. b = (items' x \<noteq> []) \<and> I x' \<and> items' x' = items' x \<and> obs x' = obs x) x"
    using iterator.Valid [OF assms(1), of x] assms(2) by (auto elim!: wp_mono)
next
  fix x k v r
  assume I: "I x" and "items' x = (k, v) # r"
  then have x: "items x = (k, v) # r" using assms(2) by simp
  show "wp (it_Key ops) (\<lambda>y x'. y = Some k \<and> I x' \<and> items' x' = items' x \<and> obs x' = obs x) x"
    using iterator.Key [OF assms(1) I x] assms(2) I by (auto elim!: wp_mono)
  show "wp (it_Value ops) (\<lambda>y x'. y = v \<and> I x' \<and> items' x' = items' x \<and> obs x' = obs x) x"
    using iterator.Value [OF assms(1) I x] assms(2) I by (auto elim!: wp_mono)
  show "wp (it_Next ops) (\<lambda>_ x'. I x' \<and> items' x' = r \<and> obs x' = obs x) x"
    using iterator.Next [OF assms(1) I x] assms(2) I by (auto elim!: wp_mono)
qed

text \<open>A call through the interface runs the method of the object at hand.\<close>

definition dyn_iter :: "('x \<Rightarrow> 'x iter_ops) \<Rightarrow> 'x iter_ops" where
  "dyn_iter f = \<lparr>
     it_Domain = (\<lambda>x. it_Domain (f x) x),
     it_Valid = (\<lambda>x. it_Valid (f x) x),
     it_Next = (\<lambda>x. it_Next (f x) x),
     it_Key = (\<lambda>x. it_Key (f x) x),
     it_Value = (\<lambda>x. it_Value (f x) x),
     it_Error = (\<lambda>x. it_Error (f x) x),
     it_Close = (\<lambda>x. it_Close (f x) x) \<rparr>"

lemma iterator_dyn:
  assumes "\<And>a. iterator (f a) (\<lambda>x. I x \<and> tag x = a) items obs"
  shows "iterator (dyn_iter (\<lambda>x. f (tag x))) I items obs"
proof
  fix x
  assume "I x"
  then show "wp (it_Valid (dyn_iter (\<lambda>x. f (tag x)))) (\<lambda>b x'. b = (items x \<noteq> []) \<and> I x' \<and>
      items x' = items x \<and> obs x' = obs x) x"
    using iterator.Valid [OF assms [of "tag x"], of x] by (auto simp: dyn_iter_def wp_def)
next
  fix x k v r
  assume "I x" "items x = (k, v) # r"
  then show "wp (it_Key (dyn_iter (\<lambda>x. f (tag x)))) (\<lambda>y x'. y = Some k \<and> I x' \<and> items x' = items x \<and> obs x' = obs x) x"
    and "wp (it_Value (dyn_iter (\<lambda>x. f (tag x)))) (\<lambda>y x'. y = v \<and> I x' \<and> items x' = items x \<and> obs x' = obs x) x"
    and "wp (it_Next (dyn_iter (\<lambda>x. f (tag x)))) (\<lambda>_ x'. I x' \<and> items x' = r \<and> obs x' = obs x) x"
    using iterator.Key [OF assms [of "tag x"], of x k v r] iterator.Value [OF assms [of "tag x"], of x k v r]
      iterator.Next [OF assms [of "tag x"], of x k v r]
    by (auto simp: dyn_iter_def wp_def)
qed

section \<open>The KVStore interface\<close>

text \<open>Kinds of stores (\<open>StoreType\<close> of types/store.go).\<close>

datatype StoreType =
    StoreTypeMulti | StoreTypeDB | StoreTypeIAVL | StoreTypeTransient
  | StoreTypeMemory | StoreTypeSMT | StoreTypePersistent

text \<open>
  \<open>types.KVStore\<close> over a store state \<open>'s\<close>; its iterators are objects \<open>'i\<close> whose methods run
  on the store and the iterator together.
\<close>

record ('s, 'i) kv_ops =
  kv_GetStoreType :: "'s \<Rightarrow> StoreType"
  kv_Get :: "slice \<Rightarrow> ('s, slice) go"
  kv_Has :: "slice \<Rightarrow> ('s, bool) go"
  kv_Set :: "slice \<Rightarrow> slice \<Rightarrow> ('s, unit) go"
  kv_Delete :: "slice \<Rightarrow> ('s, unit) go"
  kv_Iterator :: "slice \<Rightarrow> slice \<Rightarrow> ('s, 'i) go"
  kv_ReverseIterator :: "slice \<Rightarrow> slice \<Rightarrow> ('s, 'i) go"
  kv_GetAllKeyStrsInRange :: "slice \<Rightarrow> slice \<Rightarrow> ('s, bytes list) go"
  kv_iter :: "('s \<times> 'i) iter_ops"

text \<open>
  The contract of a \<open>KVStore\<close>: \<open>contents\<close> is the map the store stands for, \<open>vk\<close> the keys it
  accepts. Reads return what the map holds, writes update it at one key, and an iterator visits the
  entries of its domain in order; iterating does not change the store.
\<close>

locale kvstore =
  fixes ops :: "('s, 'i) kv_ops"
    and vk :: "bytes \<Rightarrow> bool"
    and inv :: "'s \<Rightarrow> bool"
    and contents :: "'s \<Rightarrow> bytes \<rightharpoonup> bytes"
    and it_inv :: "'s \<times> 'i \<Rightarrow> bool"
    and it_items :: "'s \<times> 'i \<Rightarrow> (bytes \<times> slice) list"
  assumes Get: "inv s \<Longrightarrow> vk k \<Longrightarrow>
      wp (kv_Get ops (Some k)) (\<lambda>r s'. r = contents s k \<and> inv s' \<and> contents s' = contents s) s"
    and Has: "inv s \<Longrightarrow> vk k \<Longrightarrow>
      wp (kv_Has ops (Some k)) (\<lambda>r s'. r = (contents s k \<noteq> None) \<and> inv s' \<and> contents s' = contents s) s"
    and Set: "inv s \<Longrightarrow> vk k \<Longrightarrow> valid_value v \<Longrightarrow>
      wp (kv_Set ops (Some k) (Some v)) (\<lambda>_ s'. inv s' \<and> contents s' = (contents s)(k \<mapsto> v)) s"
    and Delete: "inv s \<Longrightarrow> vk k \<Longrightarrow>
      wp (kv_Delete ops (Some k)) (\<lambda>_ s'. inv s' \<and> contents s' = (contents s)(k := None)) s"
    and Iterator: "inv s \<Longrightarrow> ok_range start end \<Longrightarrow>
      wp (kv_Iterator ops start end) (\<lambda>i s'. inv s' \<and> contents s' = contents s \<and>
        it_inv (s', i) \<and> covers (contents s) start end True (it_items (s', i))) s"
    and ReverseIterator: "inv s \<Longrightarrow> ok_range start end \<Longrightarrow>
      wp (kv_ReverseIterator ops start end) (\<lambda>i s'. inv s' \<and> contents s' = contents s \<and>
        it_inv (s', i) \<and> covers (contents s) start end False (it_items (s', i))) s"
    and iter: "iterator (kv_iter ops) (\<lambda>x. inv (fst x) \<and> it_inv x) it_items (contents \<circ> fst)"
    and Close: "inv s \<Longrightarrow> it_inv (s, i) \<Longrightarrow>
      wp (it_Close (kv_iter ops)) (\<lambda>_ x'. inv (fst x') \<and> contents (fst x') = contents s) (s, i)"

sublocale kvstore \<subseteq> kvi: iterator "kv_iter ops" "\<lambda>x. inv (fst x) \<and> it_inv x" it_items "contents \<circ> fst"
  by (rule iter)

text \<open>Stores whose \<open>GetAllKeyStrsInRange\<close> returns the keys of a bounded range.\<close>

locale kvstore_keys = kvstore +
  assumes Keys: "inv s \<Longrightarrow> ok_range start (Some e) \<Longrightarrow>
    wp (kv_GetAllKeyStrsInRange ops start (Some e)) (\<lambda>ks s'. inv s' \<and> contents s' = contents s \<and>
      set ks = {k \<in> dom (contents s). in_domain start (Some e) k}) s"

text \<open>Open an iterator, run a loop over it, and drop it: the state keeps the store only.\<close>

definition with_iter ::
  "('s, 'i) go \<Rightarrow> ('s \<times> 'i, 'a) go \<Rightarrow> ('s, 'a) go" where
  "with_iter open body = go_bind open (\<lambda>i. go_bind (go_local i body) (\<lambda>(x, _). ret x))"

definition collect_keys :: "('s, 'i) kv_ops \<Rightarrow> slice \<Rightarrow> slice \<Rightarrow> ('s, bytes list) go" where
  "collect_keys ops start end =
     with_iter (kv_Iterator ops start end)
       (go_bind (iter_keys (kv_iter ops) []) (\<lambda>ks.
        go_bind (it_Close (kv_iter ops)) (\<lambda>_. ret ks)))"

lemma wp_with_iter [wp_simps]:
  "wp (with_iter open body) Q s \<longleftrightarrow>
     wp open (\<lambda>i s'. wp body (\<lambda>x si. Q x (fst si)) (s', i)) s"
  by (simp add: with_iter_def wp_simps case_prod_beta)

context kvstore
begin

lemma Get_bind:
  assumes "inv s" "vk k"
    and "\<And>s'. inv s' \<Longrightarrow> contents s' = contents s \<Longrightarrow> wp (f (contents s k)) Q s'"
  shows "wp (go_bind (kv_Get ops (Some k)) f) Q s"
  unfolding wp_bind by (rule wp_mono [OF Get]) (use assms in auto)

text \<open>The methods of an iterator as runs on the store and the iterator.\<close>

lemma itValidE:
  assumes "inv s" "it_inv (s, i)"
  obtains s' i' where "it_Valid (kv_iter ops) (s, i) = Some (Inr (it_items (s, i) \<noteq> []), (s', i'))"
    "inv s'" "it_inv (s', i')" "it_items (s', i') = it_items (s, i)" "contents s' = contents s"
  using kvi.Valid [of "(s, i)"] assms by (auto elim!: wpE)

lemma itKeyE:
  assumes "inv s" "it_inv (s, i)" "it_items (s, i) = (k, v) # r"
  obtains s' i' where "it_Key (kv_iter ops) (s, i) = Some (Inr (Some k), (s', i'))"
    "inv s'" "it_inv (s', i')" "it_items (s', i') = it_items (s, i)" "contents s' = contents s"
  using kvi.Key [of "(s, i)" k v r] assms by (auto elim!: wpE)

lemma itValueE:
  assumes "inv s" "it_inv (s, i)" "it_items (s, i) = (k, v) # r"
  obtains s' i' where "it_Value (kv_iter ops) (s, i) = Some (Inr v, (s', i'))"
    "inv s'" "it_inv (s', i')" "it_items (s', i') = it_items (s, i)" "contents s' = contents s"
  using kvi.Value [of "(s, i)" k v r] assms by (auto elim!: wpE)

lemma itNextE:
  assumes "inv s" "it_inv (s, i)" "it_items (s, i) = (k, v) # r"
  obtains s' i' where "it_Next (kv_iter ops) (s, i) = Some (Inr (), (s', i'))"
    "inv s'" "it_inv (s', i')" "it_items (s', i') = r" "contents s' = contents s"
  using kvi.Next [of "(s, i)" k v r] assms by (auto elim!: wpE)

text \<open>Collecting the keys of a range gives the keys of the map in the range, in order.\<close>

lemma iterate_keys:
  assumes "inv s" "ok_range start end"
  shows "wp (collect_keys ops start end)
     (\<lambda>ks s'. inv s' \<and> contents s' = contents s \<and>
        sorted_wrt (<) ks \<and> set ks = {k \<in> dom (contents s). in_domain start end k}) s"
  unfolding collect_keys_def wp_with_iter
proof (rule wp_mono [OF Iterator [OF assms]])
  fix i s'
  assume A: "inv s' \<and> contents s' = contents s \<and> it_inv (s', i) \<and>
    covers (contents s) start end True (it_items (s', i))"
  let ?xs = "it_items (s', i)"
  have "set (map fst ?xs) = {k \<in> dom (contents s). in_domain start end k}"
    using A covers_keys by blast
  moreover have "sorted_wrt (<) (map fst ?xs)"
    using A by (simp add: covers_def before_def)
  moreover have "wp (it_Close (kv_iter ops)) (\<lambda>_ si. inv (fst si) \<and> contents (fst si) = contents s) x"
    if "inv (fst x) \<and> it_inv x" "(contents \<circ> fst) x = (contents \<circ> fst) (s', i)" for x
    using Close [of "fst x" "snd x"] that A by simp
  ultimately show "wp (go_bind (iter_keys (kv_iter ops) []) (\<lambda>ks. go_bind (it_Close (kv_iter ops)) (\<lambda>_. ret ks)))
      (\<lambda>ks si. inv (fst si) \<and> contents (fst si) = contents s \<and>
        sorted_wrt (<) ks \<and> set ks = {k \<in> dom (contents s). in_domain start end k}) (s', i)"
    unfolding wp_bind wp_ret using A by (intro kvi.iter_keys_wp) (auto elim!: wp_mono)
qed

end

section \<open>Prefix and paginated iterators\<close>

definition KVStorePrefixIterator :: "('s, 'i) kv_ops \<Rightarrow> slice \<Rightarrow> ('s, 'i) go" where
  "KVStorePrefixIterator kvs p = kv_Iterator kvs p (PrefixEndBytes p)"

definition KVStoreReversePrefixIterator :: "('s, 'i) kv_ops \<Rightarrow> slice \<Rightarrow> ('s, 'i) go" where
  "KVStoreReversePrefixIterator kvs p = kv_ReverseIterator kvs p (PrefixEndBytes p)"

text \<open>
  \<open>PaginatedIterator\<close>: the page and the limit are given at construction, \<open>iterated\<close> counts the
  calls of \<open>Next\<close>. The three are Go \<open>uint\<close>s, so the number of items to skip is a 64-bit product.
\<close>

record PaginatedIterator =
  pg_page :: "64 word"
  pg_limit :: "64 word"
  pg_iterated :: "64 word"

primrec paginated_skip_loop :: "'x iter_ops \<Rightarrow> nat \<Rightarrow> ('x, unit) go" where
  "paginated_skip_loop it 0 = ret ()"
| "paginated_skip_loop it (Suc i) =
     go_bind (it_Valid it) (\<lambda>ok.
       if ok then go_bind (it_Next it) (\<lambda>_. paginated_skip_loop it i) else ret ())"

definition paginated_skip :: "'x iter_ops \<Rightarrow> PaginatedIterator \<Rightarrow> ('x, unit) go" where
  "paginated_skip it pi = paginated_skip_loop it (unat ((pg_page pi - 1) * pg_limit pi))"

definition paginated_Valid :: "'x iter_ops \<Rightarrow> ('x \<times> PaginatedIterator, bool) go" where
  "paginated_Valid it =
     go_bind (go_read snd) (\<lambda>pi.
       if pg_iterated pi \<ge> pg_limit pi then ret False
       else go_zoom fst (\<lambda>x' xp. (x', snd xp)) (it_Valid it))"

definition paginated_Next :: "'x iter_ops \<Rightarrow> ('x \<times> PaginatedIterator, unit) go" where
  "paginated_Next it =
     go_bind (paginated_Valid it) (\<lambda>ok.
       if \<not> ok then go_panic (Panic_str ''PaginatedIterator reached limit'')
       else go_bind (go_zoom fst (\<lambda>x' xp. (x', snd xp)) (it_Next it)) (\<lambda>_.
            go_modify (\<lambda>(x, pi). (x, pi\<lparr>pg_iterated := pg_iterated pi + 1\<rparr>))))"

definition paginated_ops :: "'x iter_ops \<Rightarrow> ('x \<times> PaginatedIterator) iter_ops" where
  "paginated_ops it = (zoom_iter fst (\<lambda>x' xp. (x', snd xp)) it)
     \<lparr>it_Valid := paginated_Valid it, it_Next := paginated_Next it\<rparr>"

definition newPaginatedIterator ::
  "('s, 'i) kv_ops \<Rightarrow> ('s, 'i) go \<Rightarrow> 64 word \<Rightarrow> 64 word \<Rightarrow> ('s, 'i \<times> PaginatedIterator) go" where
  "newPaginatedIterator kvs open page limit =
     go_bind open (\<lambda>i.
     let pi = \<lparr>pg_page = page, pg_limit = limit, pg_iterated = 0\<rparr> in
     go_bind (go_local i (paginated_skip (kv_iter kvs) pi)) (\<lambda>(_, i'). ret (i', pi)))"

definition KVStorePrefixIteratorPaginated ::
  "('s, 'i) kv_ops \<Rightarrow> slice \<Rightarrow> 64 word \<Rightarrow> 64 word \<Rightarrow> ('s, 'i \<times> PaginatedIterator) go" where
  "KVStorePrefixIteratorPaginated kvs p page limit =
     newPaginatedIterator kvs (KVStorePrefixIterator kvs p) page limit"

definition KVStoreReversePrefixIteratorPaginated ::
  "('s, 'i) kv_ops \<Rightarrow> slice \<Rightarrow> 64 word \<Rightarrow> 64 word \<Rightarrow> ('s, 'i \<times> PaginatedIterator) go" where
  "KVStoreReversePrefixIteratorPaginated kvs p page limit =
     newPaginatedIterator kvs (KVStoreReversePrefixIterator kvs p) page limit"

section \<open>A store next to an object of its wrapper\<close>

text \<open>Several stores wrap a parent and an object of their own, a gas meter or a trace: their state is
  the pair, and so is that of their iterators.\<close>

definition on_aux :: "('g, 'a) go \<Rightarrow> ('g \<times> 's, 'a) go" where
  "on_aux = go_zoom fst (\<lambda>g x. (g, snd x))"

definition on_store :: "('s, 'a) go \<Rightarrow> ('g \<times> 's, 'a) go" where
  "on_store = go_zoom snd (\<lambda>s x. (fst x, s))"

definition aux_parent :: "('s \<times> 'i) iter_ops \<Rightarrow> (('g \<times> 's) \<times> 'i) iter_ops" where
  "aux_parent it = zoom_iter (\<lambda>x. (snd (fst x), snd x)) (\<lambda>y x. ((fst (fst x), fst y), snd y)) it"

definition it_aux :: "('g, 'a) go \<Rightarrow> (('g \<times> 's) \<times> 'i, 'a) go" where
  "it_aux = go_zoom (\<lambda>x. fst (fst x)) (\<lambda>g x. ((g, snd (fst x)), snd x))"

lemma on_aux_apply: "on_aux m (g, s) = map_option (\<lambda>(r, g'). (r, (g', s))) (m g)"
  by (auto simp: on_aux_def go_zoom_def split: option.splits)

lemma on_store_apply: "on_store m (g, s) = map_option (\<lambda>(r, s'). (r, (g, s'))) (m s)"
  by (auto simp: on_store_def go_zoom_def split: option.splits)

lemma aux_parent_apply:
  "it_Valid (aux_parent it) ((g, s), i) = map_option (\<lambda>(r, y). (r, ((g, fst y), snd y))) (it_Valid it (s, i))"
  "it_Key (aux_parent it) ((g, s), i) = map_option (\<lambda>(r, y). (r, ((g, fst y), snd y))) (it_Key it (s, i))"
  "it_Value (aux_parent it) ((g, s), i) = map_option (\<lambda>(r, y). (r, ((g, fst y), snd y))) (it_Value it (s, i))"
  "it_Next (aux_parent it) ((g, s), i) = map_option (\<lambda>(r, y). (r, ((g, fst y), snd y))) (it_Next it (s, i))"
  "it_Close (aux_parent it) ((g, s), i) = map_option (\<lambda>(r, y). (r, ((g, fst y), snd y))) (it_Close it (s, i))"
  by (auto simp: aux_parent_def go_zoom_def split: option.splits)

lemma it_aux_apply: "it_aux m ((g, s), i) = map_option (\<lambda>(r, g'). (r, ((g', s), i))) (m g)"
  by (auto simp: it_aux_def go_zoom_def split: option.splits)

end
