(* ===== verification/Mem_Iterator.thy ===== *)
theory Mem_Iterator
  imports KV_Interface
begin

text \<open>
  cachekv/internal/btree.go and cachekv/internal/memiterator.go: the ordered cache of dirty entries
  and its step iterator. The tree itself is the library github.com/tidwall/btree, a record of its
  methods here; its documented behaviour is the locale \<open>btree_lib\<close>.
\<close>

section \<open>The tree library\<close>

record item =
  key :: slice
  val :: slice

text \<open>
  The methods of \<open>BTreeG[item]\<close> and \<open>IterG[item]\<close> that are called. A tree is made with the order it
  is sorted by; \<open>Copy\<close> is copy-on-write, so it returns the copy and the marked original.
\<close>

record ('t, 'bi) btree_ops =
  bt_New :: "(item \<Rightarrow> item \<Rightarrow> bool) \<Rightarrow> 't"
  bt_Set :: "item \<Rightarrow> 't \<Rightarrow> 't"
  bt_Get :: "item \<Rightarrow> 't \<Rightarrow> item option"
  bt_Delete :: "item \<Rightarrow> 't \<Rightarrow> 't"
  bt_Copy :: "'t \<Rightarrow> 't \<times> 't"
  bt_Iter :: "'t \<Rightarrow> 'bi"
  bi_Seek :: "item \<Rightarrow> 'bi \<Rightarrow> bool \<times> 'bi"
  bi_First :: "'bi \<Rightarrow> bool \<times> 'bi"
  bi_Last :: "'bi \<Rightarrow> bool \<times> 'bi"
  bi_Next :: "'bi \<Rightarrow> bool \<times> 'bi"
  bi_Prev :: "'bi \<Rightarrow> bool \<times> 'bi"
  bi_Item :: "'bi \<Rightarrow> item"
  bi_Release :: "'bi \<Rightarrow> 'bi"

definition byKeys :: "item \<Rightarrow> item \<Rightarrow> bool" where
  "byKeys a b \<longleftrightarrow> bytes_Compare (bs (key a)) (bs (key b)) = -1"

definition newItem :: "slice \<Rightarrow> slice \<Rightarrow> item" where
  "newItem k v = \<lparr>key = k, val = v\<rparr>"

section \<open>The wrapper BTree\<close>

text \<open>A \<open>BTree\<close> holds a pointer to a tree; a method called through a nil pointer panics.\<close>

definition NewBTree :: "('t, 'bi) btree_ops \<Rightarrow> 't option" where
  "NewBTree lib = Some (bt_New lib byKeys)"

definition BTree_tree :: "('t option, 't) go" where
  "BTree_tree = (\<lambda>bt. case bt of
     None \<Rightarrow> Some (Inl nil_deref, bt) | Some t \<Rightarrow> Some (Inr t, bt))"

definition BTree_Set :: "('t, 'bi) btree_ops \<Rightarrow> slice \<Rightarrow> slice \<Rightarrow> ('t option, unit) go" where
  "BTree_Set lib k v =
     go_bind BTree_tree (\<lambda>t. go_modify (\<lambda>_. Some (bt_Set lib (newItem k v) t)))"

definition BTree_Get :: "('t, 'bi) btree_ops \<Rightarrow> slice \<Rightarrow> ('t option, slice) go" where
  "BTree_Get lib k =
     go_bind BTree_tree (\<lambda>t.
       case bt_Get lib (newItem k None) t of None \<Rightarrow> ret None | Some i \<Rightarrow> ret (val i))"

definition BTree_Delete :: "('t, 'bi) btree_ops \<Rightarrow> slice \<Rightarrow> ('t option, unit) go" where
  "BTree_Delete lib k =
     go_bind BTree_tree (\<lambda>t. go_modify (\<lambda>_. Some (bt_Delete lib (newItem k None) t)))"

definition BTree_Copy :: "('t, 'bi) btree_ops \<Rightarrow> ('t option, 't option) go" where
  "BTree_Copy lib =
     go_bind BTree_tree (\<lambda>t.
       let (c, t') = bt_Copy lib t in
       go_bind (go_modify (\<lambda>_. Some t')) (\<lambda>_. ret (Some c)))"

definition BTree_IsNil :: "'t option \<Rightarrow> bool" where
  "BTree_IsNil bt \<longleftrightarrow> bt = None"

section \<open>memIterator\<close>

record 'bi memIterator =
  mi_iter :: 'bi
  mi_start :: slice
  mi_end :: slice
  mi_ascending :: bool
  mi_valid :: bool

definition keyInRange :: "slice \<Rightarrow> slice \<Rightarrow> bool \<Rightarrow> slice \<Rightarrow> bool" where
  "keyInRange start end ascending k =
     (if ascending \<and> end \<noteq> None \<and> bytes_Compare (bs k) (bs end) \<ge> 0 then False
      else if \<not> ascending \<and> start \<noteq> None \<and> bytes_Compare (bs k) (bs start) < 0 then False
      else True)"

definition newMemIterator ::
  "('t, 'bi) btree_ops \<Rightarrow> slice \<Rightarrow> slice \<Rightarrow> bool \<Rightarrow> ('t option, 'bi memIterator) go" where
  "newMemIterator lib start end ascending =
     go_bind BTree_tree (\<lambda>t.
     let iter0 = bt_Iter lib t;
         (valid, iter) =
           (if ascending then
              (if start \<noteq> None then bi_Seek lib (newItem start None) iter0 else bi_First lib iter0)
            else if end \<noteq> None then
              (let (valid, iter1) = bi_Seek lib (newItem end None) iter0 in
               if \<not> valid then bi_Last lib iter1 else bi_Prev lib iter1)
            else bi_Last lib iter0);
         valid' = (if valid then keyInRange start end ascending (key (bi_Item lib iter)) else valid)
     in ret \<lparr>mi_iter = iter, mi_start = start, mi_end = end, mi_ascending = ascending,
             mi_valid = valid'\<rparr>)"

definition errKeyEmpty :: string where
  "errKeyEmpty = ''key cannot be empty''"

definition empty_bound :: "slice \<Rightarrow> bool" where
  "empty_bound b \<longleftrightarrow> b \<noteq> None \<and> length (bs b) = 0"

text \<open>\<open>BTree.Iterator\<close> and \<open>BTree.ReverseIterator\<close> return an error for an empty bound.\<close>

definition BTree_Iterator ::
  "('t, 'bi) btree_ops \<Rightarrow> slice \<Rightarrow> slice \<Rightarrow> ('t option, string + 'bi memIterator) go" where
  "BTree_Iterator lib start end =
     (if empty_bound start \<or> empty_bound end then ret (Inl errKeyEmpty)
      else go_bind (newMemIterator lib start end True) (\<lambda>mi. ret (Inr mi)))"

definition BTree_ReverseIterator ::
  "('t, 'bi) btree_ops \<Rightarrow> slice \<Rightarrow> slice \<Rightarrow> ('t option, string + 'bi memIterator) go" where
  "BTree_ReverseIterator lib start end =
     (if empty_bound start \<or> empty_bound end then ret (Inl errKeyEmpty)
      else go_bind (newMemIterator lib start end False) (\<lambda>mi. ret (Inr mi)))"

definition mi_Domain :: "('bi memIterator, slice \<times> slice) go" where
  "mi_Domain = go_read (\<lambda>mi. (mi_start mi, mi_end mi))"

definition mi_Close :: "('t, 'bi) btree_ops \<Rightarrow> ('bi memIterator, string option) go" where
  "mi_Close lib = go_bind (go_modify (\<lambda>mi. mi\<lparr>mi_iter := bi_Release lib (mi_iter mi)\<rparr>)) (\<lambda>_. ret None)"

definition mi_Valid :: "('bi memIterator, bool) go" where
  "mi_Valid = go_read mi_valid"

definition mi_Error :: "('bi memIterator, string option) go" where
  "mi_Error = go_bind mi_Valid (\<lambda>v.
     if \<not> v then ret (Some ''invalid memIterator'') else ret None)"

definition mi_assertValid :: "('bi memIterator, unit) go" where
  "mi_assertValid = go_bind mi_Error (\<lambda>err.
     case err of None \<Rightarrow> ret () | Some e \<Rightarrow> go_panic (Panic_err e))"

definition mi_Key :: "('t, 'bi) btree_ops \<Rightarrow> ('bi memIterator, slice) go" where
  "mi_Key lib = go_read (\<lambda>mi. key (bi_Item lib (mi_iter mi)))"

definition mi_Value :: "('t, 'bi) btree_ops \<Rightarrow> ('bi memIterator, slice) go" where
  "mi_Value lib = go_read (\<lambda>mi. val (bi_Item lib (mi_iter mi)))"

definition mi_Next :: "('t, 'bi) btree_ops \<Rightarrow> ('bi memIterator, unit) go" where
  "mi_Next lib =
     go_bind mi_assertValid (\<lambda>_.
     go_bind (go_modify (\<lambda>mi.
       let (valid, iter) = (if mi_ascending mi then bi_Next lib (mi_iter mi) else bi_Prev lib (mi_iter mi))
       in mi\<lparr>mi_valid := valid, mi_iter := iter\<rparr>)) (\<lambda>_.
     go_modify (\<lambda>mi.
       if mi_valid mi
       then mi\<lparr>mi_valid := keyInRange (mi_start mi) (mi_end mi) (mi_ascending mi)
                 (key (bi_Item lib (mi_iter mi)))\<rparr>
       else mi)))"

definition mi_ops :: "('t, 'bi) btree_ops \<Rightarrow> 'bi memIterator iter_ops" where
  "mi_ops lib = \<lparr>
     it_Domain = mi_Domain,
     it_Valid = mi_Valid,
     it_Next = mi_Next lib,
     it_Key = mi_Key lib,
     it_Value = mi_Value lib,
     it_Error = mi_Error,
     it_Close = mi_Close lib \<rparr>"

section \<open>What the library promises\<close>

text \<open>
  The documented behaviour of the tree: \<open>elems\<close> lists its items in order, \<open>Set\<close> inserts or
  replaces the item of equal key, an iterator is on item \<open>i\<close> when \<open>bi_pos\<close> says so, \<open>Seek\<close> moves to
  the first item that is not less than its argument, and every movement tells whether it ends on an
  item.
\<close>

locale btree_lib =
  fixes lib :: "('t, 'bi) btree_ops"
    and t_ok :: "'t \<Rightarrow> bool"
    and elems :: "'t \<Rightarrow> item list"
    and bi_elems :: "'bi \<Rightarrow> item list"
    and bi_pos :: "'bi \<Rightarrow> nat option"
  assumes New: "t_ok (bt_New lib byKeys) \<and> elems (bt_New lib byKeys) = []"
    and elems_sorted: "t_ok t \<Longrightarrow> sorted_wrt byKeys (elems t)"
    and Set: "t_ok t \<Longrightarrow> t_ok (bt_Set lib x t) \<and>
      set (elems (bt_Set lib x t)) = insert x {y \<in> set (elems t). byKeys x y \<or> byKeys y x}"
    and Copy: "t_ok t \<Longrightarrow> bt_Copy lib t = (c, t') \<Longrightarrow>
      t_ok c \<and> t_ok t' \<and> elems c = elems t \<and> elems t' = elems t"
    and Iter: "t_ok t \<Longrightarrow> bi_elems (bt_Iter lib t) = elems t"
    and Seek: "bi_Seek lib x b = (r, b') \<Longrightarrow> bi_elems b' = bi_elems b \<and>
      r = (\<exists>y \<in> set (bi_elems b). \<not> byKeys y x) \<and>
      (r \<longrightarrow> bi_pos b' = Some (length (takeWhile (\<lambda>y. byKeys y x) (bi_elems b))))"
    and First: "bi_First lib b = (r, b') \<Longrightarrow> bi_elems b' = bi_elems b \<and>
      r = (bi_elems b \<noteq> []) \<and> (r \<longrightarrow> bi_pos b' = Some 0)"
    and Last: "bi_Last lib b = (r, b') \<Longrightarrow> bi_elems b' = bi_elems b \<and>
      r = (bi_elems b \<noteq> []) \<and> (r \<longrightarrow> bi_pos b' = Some (length (bi_elems b) - 1))"
    and Next: "bi_pos b = Some i \<Longrightarrow> i < length (bi_elems b) \<Longrightarrow> bi_Next lib b = (r, b') \<Longrightarrow>
      bi_elems b' = bi_elems b \<and> r = (Suc i < length (bi_elems b)) \<and> (r \<longrightarrow> bi_pos b' = Some (Suc i))"
    and Prev: "bi_pos b = Some i \<Longrightarrow> i < length (bi_elems b) \<Longrightarrow> bi_Prev lib b = (r, b') \<Longrightarrow>
      bi_elems b' = bi_elems b \<and> r = (0 < i) \<and> (r \<longrightarrow> bi_pos b' = Some (i - 1))"
    and Item: "bi_pos b = Some i \<Longrightarrow> i < length (bi_elems b) \<Longrightarrow> bi_Item lib b = bi_elems b ! i"

definition entry :: "item \<Rightarrow> bytes \<times> slice" where
  "entry e = (bs (key e), val e)"

lemma byKeys_less: "byKeys a b \<longleftrightarrow> bs (key a) < bs (key b)"
  by (auto simp: byKeys_def bytes_Compare_def)

lemma byKeys_trans: "byKeys a b \<Longrightarrow> byKeys b c \<Longrightarrow> byKeys a c"
  by (auto simp: byKeys_less)

text \<open>Where a memIterator goes: the items from its position on, in its direction.\<close>

definition ahead :: "bool \<Rightarrow> item list \<Rightarrow> nat option \<Rightarrow> item list" where
  "ahead ascending xs pos = (case pos of None \<Rightarrow> []
     | Some i \<Rightarrow> if i < length xs then (if ascending then drop i xs else rev (take (Suc i) xs)) else [])"

lemma ahead_hd: "i < length xs \<Longrightarrow> ahead asc xs (Some i) = xs ! i # tl (ahead asc xs (Some i))"
  by (auto simp: ahead_def Cons_nth_drop_Suc [symmetric] take_Suc_conv_app_nth drop_Suc tl_drop)

lemma ahead_tl:
  "i < length xs \<Longrightarrow> tl (ahead True xs (Some i)) = ahead True xs (Some (Suc i))"
  "0 < i \<Longrightarrow> i < length xs \<Longrightarrow> tl (ahead False xs (Some i)) = ahead False xs (Some (i - 1))"
  "0 < length xs \<Longrightarrow> tl (ahead False xs (Some 0)) = []"
  by (auto simp: ahead_def drop_Suc tl_drop take_Suc_conv_app_nth)

definition mi_items ::
  "('bi \<Rightarrow> item list) \<Rightarrow> ('bi \<Rightarrow> nat option) \<Rightarrow> 'bi memIterator \<Rightarrow> (bytes \<times> slice) list" where
  "mi_items bi_elems bi_pos mi =
     (if mi_valid mi then
        takeWhile (\<lambda>e. keyInRange (mi_start mi) (mi_end mi) (mi_ascending mi) (Some (fst e)))
          (map entry (ahead (mi_ascending mi) (bi_elems (mi_iter mi)) (bi_pos (mi_iter mi))))
      else [])"

definition mi_ok :: "('bi \<Rightarrow> item list) \<Rightarrow> ('bi \<Rightarrow> nat option) \<Rightarrow> 'bi memIterator \<Rightarrow> bool" where
  "mi_ok bi_elems bi_pos mi \<longleftrightarrow>
     (\<forall>e \<in> set (bi_elems (mi_iter mi)). key e \<noteq> None) \<and>
     (mi_valid mi \<longrightarrow> mi_items bi_elems bi_pos mi \<noteq> [])"

lemma keyInRange_bs [simp]: "keyInRange start end asc (Some (bs k)) = keyInRange start end asc k"
  by (simp add: keyInRange_def)

lemma ahead_Some:
  assumes "ahead asc xs pos \<noteq> []"
  obtains i where "pos = Some i" "i < length xs"
  using assms by (auto simp: ahead_def split: option.splits if_splits)

context btree_lib
begin

text \<open>A movement that ends on an item drops the front of what is ahead.\<close>

lemma move:
  assumes "bi_pos b = Some i" "i < length (bi_elems b)"
    and "(if asc then bi_Next lib b else bi_Prev lib b) = (r, b')"
  shows "bi_elems b' = bi_elems b \<and> r = (tl (ahead asc (bi_elems b) (Some i)) \<noteq> []) \<and>
    (r \<longrightarrow> ahead asc (bi_elems b') (bi_pos b') = tl (ahead asc (bi_elems b) (Some i)))"
proof (cases asc)
  case True
  with assms Next [OF assms(1,2)] have "bi_elems b' = bi_elems b" "r = (Suc i < length (bi_elems b))"
    "r \<longrightarrow> bi_pos b' = Some (Suc i)" by auto
  with True ahead_tl(1) [OF assms(2)] show ?thesis
    by (auto simp: ahead_def)
next
  case False
  with assms Prev [OF assms(1,2)] have *: "bi_elems b' = bi_elems b" "r = (0 < i)"
    "r \<longrightarrow> bi_pos b' = Some (i - 1)" by auto
  show ?thesis
  proof (cases "0 < i")
    case True
    have "ahead False (bi_elems b) (Some (i - 1)) \<noteq> []"
      using True assms(2) by (auto simp: ahead_def)
    with True False * ahead_tl(2) [OF True assms(2)] show ?thesis by auto
  next
    case f: False
    then have "0 < length (bi_elems b)" "i = 0" using assms(2) by auto
    with False * ahead_tl(3) show ?thesis by auto
  qed
qed

lemma mi_front:
  assumes "mi_items bi_elems bi_pos mi = (k, v) # r" "mi_ok bi_elems bi_pos mi"
  obtains i where "bi_pos (mi_iter mi) = Some i" "i < length (bi_elems (mi_iter mi))"
    "key (bi_Item lib (mi_iter mi)) = Some k" "val (bi_Item lib (mi_iter mi)) = v" "mi_valid mi"
proof -
  let ?a = "ahead (mi_ascending mi) (bi_elems (mi_iter mi)) (bi_pos (mi_iter mi))"
  have v: "mi_valid mi" and ne: "?a \<noteq> []"
    using assms(1) by (auto simp: mi_items_def split: if_splits)
  obtain i where i: "bi_pos (mi_iter mi) = Some i" "i < length (bi_elems (mi_iter mi))"
    using ahead_Some [OF ne] .
  have "?a = bi_elems (mi_iter mi) ! i # tl ?a"
    using ahead_hd [OF i(2)] i(1) by simp
  then have "entry (bi_elems (mi_iter mi) ! i) = (k, v)"
    using assms(1) v by (cases ?a) (auto simp: mi_items_def split: if_splits)
  moreover have "key (bi_elems (mi_iter mi) ! i) \<noteq> None"
    using assms(2) i(2) by (auto simp: mi_ok_def)
  ultimately show thesis
    using that [OF i] Item [OF i] v by (auto simp: entry_def)
qed

lemma mi_Next_run:
  assumes ok: "mi_ok bi_elems bi_pos mi" and front: "mi_items bi_elems bi_pos mi = (k, v) # r"
  shows "wp (mi_Next lib) (\<lambda>_ mi'. mi_ok bi_elems bi_pos mi' \<and> mi_items bi_elems bi_pos mi' = r) mi"
proof -
  let ?b = "mi_iter mi" and ?asc = "mi_ascending mi"
  let ?in = "\<lambda>e. keyInRange (mi_start mi) (mi_end mi) ?asc (Some (fst e))"
  obtain i where i: "bi_pos ?b = Some i" "i < length (bi_elems ?b)" and v: "mi_valid mi"
    using mi_front [OF front ok] .
  obtain s b' where m: "(if ?asc then bi_Next lib ?b else bi_Prev lib ?b) = (s, b')"
    by fastforce
  obtain h t where t: "ahead ?asc (bi_elems ?b) (Some i) = h # t"
    using ahead_hd [OF i(2), of ?asc] by blast
  have s: "bi_elems b' = bi_elems ?b" "s = (t \<noteq> [])" "s \<Longrightarrow> ahead ?asc (bi_elems b') (bi_pos b') = t"
    using move [OF i m] t by auto
  have r: "r = takeWhile ?in (map entry t)"
    using front v i(1) t by (simp add: mi_items_def split: if_splits)
  define mi' where "mi' = mi\<lparr>mi_valid := s \<and> keyInRange (mi_start mi) (mi_end mi) ?asc (key (bi_Item lib b')),
     mi_iter := b'\<rparr>"
  have run: "mi_Next lib mi = Some (Inr (), mi')"
    using v m by (cases s) (auto simp: mi_Next_def mi_assertValid_def mi_Error_def mi_Valid_def go_defs mi'_def
      split: prod.splits)
  have "mi_items bi_elems bi_pos mi' = r"
  proof (cases t)
    case Nil
    then show ?thesis using s r by (simp add: mi_items_def mi'_def)
  next
    case (Cons e u)
    then have a: "ahead ?asc (bi_elems b') (bi_pos b') = e # u" "s" using s by auto
    then obtain j where j: "bi_pos b' = Some j" "j < length (bi_elems b')"
      using ahead_Some [of ?asc "bi_elems b'"] by (metis list.distinct(1))
    then have "bi_Item lib b' = e"
      using Item [OF j] ahead_hd [OF j(2), of ?asc] a(1) unfolding j(1) by (metis list.inject)
    then show ?thesis using a r Cons by (auto simp: mi_items_def mi'_def entry_def)
  qed
  moreover have "mi_ok bi_elems bi_pos mi'"
  proof -
    have "mi_items bi_elems bi_pos mi' \<noteq> []" if "mi_valid mi'"
    proof -
      have a: "ahead ?asc (bi_elems b') (bi_pos b') \<noteq> []"
        using that s by (auto simp: mi'_def)
      obtain j where j: "bi_pos b' = Some j" "j < length (bi_elems b')"
        using ahead_Some [OF a] .
      obtain t where "ahead ?asc (bi_elems b') (bi_pos b') = bi_Item lib b' # t"
        using ahead_hd [OF j(2), of ?asc] Item [OF j] unfolding j(1) by metis
      with that show ?thesis by (simp add: mi_items_def mi'_def entry_def)
    qed
    with ok s(1) show ?thesis by (simp add: mi_ok_def mi'_def)
  qed
  ultimately show ?thesis using run by (simp add: wp_def)
qed

end

sublocale btree_lib \<subseteq> mi: iterator "mi_ops lib" "mi_ok bi_elems bi_pos" "mi_items bi_elems bi_pos" "\<lambda>_. ()"
proof
  fix mi assume ok: "mi_ok bi_elems bi_pos mi"
  then have "mi_valid mi = (mi_items bi_elems bi_pos mi \<noteq> [])"
    by (auto simp: mi_ok_def mi_items_def)
  with ok show "wp (it_Valid (mi_ops lib)) (\<lambda>b mi'. b = (mi_items bi_elems bi_pos mi \<noteq> []) \<and>
      mi_ok bi_elems bi_pos mi' \<and> mi_items bi_elems bi_pos mi' = mi_items bi_elems bi_pos mi \<and> () = ()) mi"
    by (simp add: mi_ops_def mi_Valid_def wp_simps)
next
  fix mi k v r
  assume ok: "mi_ok bi_elems bi_pos mi" and front: "mi_items bi_elems bi_pos mi = (k, v) # r"
  then have "key (bi_Item lib (mi_iter mi)) = Some k" "val (bi_Item lib (mi_iter mi)) = v"
    using mi_front by metis+
  with ok show
    "wp (it_Key (mi_ops lib)) (\<lambda>y mi'. y = Some k \<and> mi_ok bi_elems bi_pos mi' \<and>
      mi_items bi_elems bi_pos mi' = mi_items bi_elems bi_pos mi \<and> () = ()) mi"
    "wp (it_Value (mi_ops lib)) (\<lambda>y mi'. y = v \<and> mi_ok bi_elems bi_pos mi' \<and>
      mi_items bi_elems bi_pos mi' = mi_items bi_elems bi_pos mi \<and> () = ()) mi"
    by (simp_all add: mi_ops_def mi_Key_def mi_Value_def wp_simps)
  show "wp (it_Next (mi_ops lib)) (\<lambda>_ mi'. mi_ok bi_elems bi_pos mi' \<and> mi_items bi_elems bi_pos mi' = r \<and> () = ()) mi"
    using mi_Next_run [OF ok front] by (simp add: mi_ops_def)
qed

text \<open>The items a new iterator is going to visit before the check of the far bound.\<close>

definition from_bound :: "slice \<Rightarrow> slice \<Rightarrow> bool \<Rightarrow> item list \<Rightarrow> item list" where
  "from_bound start end asc xs =
     (if asc then (case start of None \<Rightarrow> xs | Some s \<Rightarrow> dropWhile (\<lambda>e. bs (key e) < s) xs)
      else rev (case end of None \<Rightarrow> xs | Some u \<Rightarrow> takeWhile (\<lambda>e. bs (key e) < u) xs))"

lemma in_range_items:
  assumes "sorted_wrt byKeys xs"
  shows "takeWhile (\<lambda>e. keyInRange start end asc (Some (fst e))) (map entry (from_bound start end asc xs)) =
    (if asc then id else rev) (filter (\<lambda>e. in_domain start end (fst e)) (map entry xs))"
proof -
  let ?lt = "\<lambda>u e. bs (key e) < u"
  let ?in = "(\<lambda>e. keyInRange start end asc (Some (fst e))) \<circ> entry"
  have down: "takeWhile (?lt u) xs = filter (?lt u) xs" for u
    by (rule sorted_takeWhile_filter [OF assms]) (auto simp: byKeys_less)
  have up: "dropWhile (?lt u) xs = filter (\<lambda>e. \<not> ?lt u e) xs" for u
    by (rule sorted_dropWhile_filter [OF assms]) (auto simp: byKeys_less)
  have "takeWhile ?in (from_bound start end asc xs) =
      (if asc then id else rev) (filter (\<lambda>e. in_domain start end (bs (key e))) xs)"
  proof (cases asc)
    case True
    have f: "from_bound start end asc xs = filter (\<lambda>e. bs start \<le> bs (key e)) xs"
      using True up by (auto simp: from_bound_def not_less split: option.splits)
    have "takeWhile ?in (filter (\<lambda>e. bs start \<le> bs (key e)) xs) =
        filter ?in (filter (\<lambda>e. bs start \<le> bs (key e)) xs)"
      by (rule sorted_takeWhile_filter [where R = byKeys])
        (use assms True in \<open>auto simp: sorted_wrt_filter byKeys_less keyInRange_def entry_def bytes_Compare_def
          split: if_splits\<close>)
    with True f show ?thesis
      by (cases "end") (auto intro!: filter_cong simp: keyInRange_def in_domain_def entry_def bytes_Compare_def
        split: option.splits if_splits)
  next
    case False
    let ?R = "\<lambda>a b. byKeys b a"
    have sx: "sorted_wrt (\<lambda>a b. bs (key a) < bs (key b)) xs"
      using assms by (simp add: byKeys_less [abs_def])
    have f: "from_bound start end asc xs = rev (filter (\<lambda>e. case end of None \<Rightarrow> True | Some u \<Rightarrow> ?lt u e) xs)"
      using False down by (auto simp: from_bound_def split: option.splits)
    have "takeWhile ?in (rev (filter (\<lambda>e. case end of None \<Rightarrow> True | Some u \<Rightarrow> ?lt u e) xs)) =
        filter ?in (rev (filter (\<lambda>e. case end of None \<Rightarrow> True | Some u \<Rightarrow> ?lt u e) xs))"
      by (rule sorted_takeWhile_filter [where R = ?R])
        (use sx False in \<open>auto simp: sorted_wrt_rev sorted_wrt_filter byKeys_less keyInRange_def entry_def
          bytes_Compare_def split: if_splits\<close>)
    with False f show ?thesis
      by (cases start; cases "end") (auto intro!: filter_cong simp: rev_filter [symmetric] keyInRange_def in_domain_def entry_def
        bytes_Compare_def split: option.splits if_splits)
  qed
  then show ?thesis
    by (auto simp: takeWhile_map filter_map rev_map comp_def entry_def)
qed

context btree_lib
begin

text \<open>Where a new iterator starts.\<close>

lemma start_position:
  assumes "t_ok t" and b: "(valid, b) =
      (if asc then
         (if start \<noteq> None then bi_Seek lib (newItem start None) (bt_Iter lib t) else bi_First lib (bt_Iter lib t))
       else if end \<noteq> None then
         (let (valid, b1) = bi_Seek lib (newItem end None) (bt_Iter lib t) in
          if \<not> valid then bi_Last lib b1 else bi_Prev lib b1)
       else bi_Last lib (bt_Iter lib t))"
  shows "bi_elems b = elems t \<and> valid = (from_bound start end asc (elems t) \<noteq> []) \<and>
    (valid \<longrightarrow> ahead asc (bi_elems b) (bi_pos b) = from_bound start end asc (elems t))"
proof -
  let ?xs = "elems t" and ?b0 = "bt_Iter lib t"
  note I = Iter [OF assms(1)]
  have lt: "byKeys y (newItem (Some u) None) \<longleftrightarrow> bs (key y) < u" for y u
    by (simp add: byKeys_less newItem_def)
  consider "asc" "start = None" | s where "asc" "start = Some s" | "\<not> asc" "end = None" | u where "\<not> asc" "end = Some u"
    by blast
  then show ?thesis
  proof cases
    case 1
    with b First [of ?b0 valid b] I show ?thesis
      by (auto simp: from_bound_def ahead_def)
  next
    case (2 s)
    with b Seek [of "newItem start None" ?b0 valid b] I have
      "bi_elems b = ?xs" "valid = (\<exists>y \<in> set ?xs. \<not> bs (key y) < s)"
      "valid \<longrightarrow> bi_pos b = Some (length (takeWhile (\<lambda>y. bs (key y) < s) ?xs))"
      by (auto simp: lt)
    with 2 length_takeWhile_less_iff [of "\<lambda>y. bs (key y) < s" ?xs] show ?thesis
      by (auto simp: from_bound_def ahead_def dropWhile_eq_drop)
  next
    case 3
    with b Last [of ?b0 valid b] I show ?thesis
      by (auto simp: from_bound_def ahead_def)
  next
    case (4 u)
    obtain v1 b1 where 1: "bi_Seek lib (newItem end None) ?b0 = (v1, b1)" by fastforce
    let ?i = "length (takeWhile (\<lambda>y. bs (key y) < u) ?xs)"
    from 1 4 Seek [OF 1] I have s: "bi_elems b1 = ?xs" "v1 = (\<exists>y \<in> set ?xs. \<not> bs (key y) < u)"
      "v1 \<longrightarrow> bi_pos b1 = Some ?i"
      by (auto simp: lt)
    show ?thesis
    proof (cases v1)
      case True
      then have i: "?i < length ?xs"
        using s(2) by (simp add: length_takeWhile_less_iff)
      have "bi_Prev lib b1 = (valid, b)" using b 1 4 True by simp
      with Prev [of b1 ?i valid b] s True i have
        p: "bi_elems b = ?xs" "valid = (0 < ?i)" "valid \<longrightarrow> bi_pos b = Some (?i - 1)"
        by auto
      have tw: "takeWhile (\<lambda>y. bs (key y) < u) ?xs = take ?i ?xs" by (rule takeWhile_eq_take)
      show ?thesis
      proof (cases "0 < ?i")
        case True
        then have "ahead False ?xs (Some (?i - 1)) = rev (take ?i ?xs)" using i by (auto simp: ahead_def)
        with True p 4 tw show ?thesis by (auto simp: from_bound_def)
      next
        case False
        with p 4 show ?thesis by (simp add: from_bound_def)
      qed
    next
      case False
      then have "takeWhile (\<lambda>y. bs (key y) < u) ?xs = ?xs" using s(2) by (auto simp: takeWhile_eq_all_conv)
      then have A: "from_bound start end asc ?xs = rev ?xs" using 4 by (simp add: from_bound_def)
      have "bi_Last lib b1 = (valid, b)" using b 1 4 False by simp
      then show ?thesis using Last [of b1 valid b] s(1) 4 unfolding A by (auto simp: ahead_def)
    qed
  qed
qed

lemma newMemIterator_run:
  assumes ok: "t_ok t" and keys: "\<forall>e \<in> set (elems t). key e \<noteq> None"
  shows "wp (newMemIterator lib start end asc) (\<lambda>mi bt. bt = Some t \<and> mi_ok bi_elems bi_pos mi \<and>
    mi_items bi_elems bi_pos mi = (if asc then id else rev)
      (filter (\<lambda>e. in_domain start end (fst e)) (map entry (elems t)))) (Some t)"
proof -
  let ?pos = "if asc then
         (if start \<noteq> None then bi_Seek lib (newItem start None) (bt_Iter lib t) else bi_First lib (bt_Iter lib t))
       else if end \<noteq> None then
         (let (valid, b1) = bi_Seek lib (newItem end None) (bt_Iter lib t) in
          if \<not> valid then bi_Last lib b1 else bi_Prev lib b1)
       else bi_Last lib (bt_Iter lib t)"
  obtain valid b where b: "?pos = (valid, b)" by fastforce
  let ?A = "from_bound start end asc (elems t)"
  have p: "bi_elems b = elems t" "valid = (?A \<noteq> [])" "valid \<Longrightarrow> ahead asc (bi_elems b) (bi_pos b) = ?A"
    using start_position [OF ok b [symmetric]] by auto
  let ?in = "keyInRange start end asc"
  define mi where "mi = \<lparr>mi_iter = b, mi_start = start, mi_end = end, mi_ascending = asc,
     mi_valid = (if valid then ?in (key (bi_Item lib b)) else valid)\<rparr>"
  have run: "newMemIterator lib start end asc (Some t) = Some (Inr mi, Some t)"
    by (simp add: newMemIterator_def BTree_tree_def go_bind_apply ret_def mi_def b Let_def)
  have it: "mi_items bi_elems bi_pos mi = takeWhile (\<lambda>e. ?in (Some (fst e))) (map entry ?A) \<and>
     (mi_valid mi \<longrightarrow> mi_items bi_elems bi_pos mi \<noteq> [])"
  proof (cases ?A)
    case Nil
    with p show ?thesis by (simp add: mi_items_def mi_def)
  next
    case (Cons e u)
    then have a: "ahead asc (bi_elems b) (bi_pos b) = e # u" "valid" using p by auto
    then obtain j where j: "bi_pos b = Some j" "j < length (bi_elems b)"
      using ahead_Some [of asc "bi_elems b"] by (metis list.distinct(1))
    then have "bi_Item lib b = e"
      using Item [OF j] ahead_hd [OF j(2), of asc] a(1) unfolding j(1) by (metis list.inject)
    then show ?thesis using a Cons by (auto simp: mi_items_def mi_def entry_def)
  qed
  moreover have "mi_iter mi = b" by (simp add: mi_def)
  ultimately have "mi_ok bi_elems bi_pos mi" using keys p(1) unfolding mi_ok_def by auto
  with run it in_range_items [OF elems_sorted [OF ok]] show ?thesis by (simp add: wp_def)
qed

end

text \<open>The tree as a map: \<open>Set\<close> updates it at one key.\<close>

lemma byKeys_distinct: "sorted_wrt byKeys xs \<Longrightarrow> distinct (map fst (map entry xs))"
  by (induction xs) (auto simp: byKeys_less entry_def)

context btree_lib
begin

lemma Set_map:
  assumes "t_ok t"
  shows "map_of (map entry (elems (bt_Set lib (newItem (Some k) v) t))) =
    (map_of (map entry (elems t)))(k \<mapsto> v)"
proof
  fix k'
  let ?t = "bt_Set lib (newItem (Some k) v) t"
  have d: "distinct (map fst (map entry (elems t)))" "distinct (map fst (map entry (elems ?t)))"
    using byKeys_distinct elems_sorted assms Set [OF assms] by blast+
  have s: "set (map entry (elems ?t)) =
      insert (k, v) {e \<in> set (map entry (elems t)). fst e \<noteq> k}"
    using Set [OF assms, of "newItem (Some k) v"]
    by (auto simp: byKeys_less newItem_def entry_def image_iff not_less_iff_gr_or_eq neq_iff)
  have "map_of (map entry (elems ?t)) k' = Some w \<longleftrightarrow> ((map_of (map entry (elems t)))(k \<mapsto> v)) k' = Some w" for w
    using s d by (auto simp: map_of_eq_Some_iff simp del: map_map set_map)
  then show "map_of (map entry (elems ?t)) k' = ((map_of (map entry (elems t)))(k \<mapsto> v)) k'"
    by (metis not_Some_eq)
qed

lemma Set_keys:
  assumes "t_ok t" "\<forall>e \<in> set (elems t). key e \<noteq> None"
  shows "t_ok (bt_Set lib (newItem (Some k) v) t) \<and> (\<forall>e \<in> set (elems (bt_Set lib (newItem (Some k) v) t)). key e \<noteq> None)"
  using Set [OF assms(1), of "newItem (Some k) v"] assms(2) by (auto simp: newItem_def)

end

end
