(* ===== verification/Merge_Iterator.thy ===== *)
theory Merge_Iterator
  imports KV_Interface
begin

text \<open>
  cachekv/internal/mergeiterator.go: the iterator that overlays a cache on a parent. The cache may
  hold nil values, which delete the parent's entry of the same key. The two underlying iterators are
  arguments, so the model is that of \<open>NewCacheMergeIterator(parent, cache types.Iterator, ...)\<close>.
\<close>

section \<open>The iterator\<close>

text \<open>The state is that of the two iterators and the field \<open>valid\<close>; \<open>ascending\<close> never changes.\<close>

definition merge_compare :: "bool \<Rightarrow> bytes \<Rightarrow> bytes \<Rightarrow> int" where
  "merge_compare ascending a b =
     (if ascending then bytes_Compare a b else bytes_Compare a b * -1)"

partial_function (option) skipCacheDeletes ::
  "'x iter_ops \<Rightarrow> bool \<Rightarrow> slice \<Rightarrow> ('x, unit) go" where
  "skipCacheDeletes cache ascending until x =
     go_bind (it_Valid cache) (\<lambda>ok.
     if \<not> ok then ret () else
     go_bind (it_Value cache) (\<lambda>value.
     if value \<noteq> None then ret () else
     go_bind (if until = None then ret True
              else go_bind (it_Key cache) (\<lambda>k. ret (merge_compare ascending (bs k) (bs until) < 0)))
       (\<lambda>before_until.
     if \<not> before_until then ret () else
     go_bind (it_Next cache) (\<lambda>_. skipCacheDeletes cache ascending until)))) x"

partial_function (option) skipUntilExistsOrInvalid ::
  "'x iter_ops \<Rightarrow> 'x iter_ops \<Rightarrow> bool \<Rightarrow> ('x, bool) go" where
  "skipUntilExistsOrInvalid parent cache ascending x =
     go_bind (it_Valid parent) (\<lambda>pvalid.
     if \<not> pvalid then
       go_bind (skipCacheDeletes cache ascending None) (\<lambda>_. it_Valid cache)
     else
     go_bind (it_Valid cache) (\<lambda>cvalid.
     if \<not> cvalid then ret True else
     go_bind (it_Key parent) (\<lambda>keyP.
     go_bind (it_Key cache) (\<lambda>keyC.
     let cmp = merge_compare ascending (bs keyP) (bs keyC) in
     if cmp = -1 then ret True
     else if cmp = 0 then
       go_bind (it_Value cache) (\<lambda>valueC.
       if valueC = None then
         go_bind (it_Next parent) (\<lambda>_.
         go_bind (it_Next cache) (\<lambda>_.
         skipUntilExistsOrInvalid parent cache ascending))
       else ret True)
     else
       go_bind (it_Value cache) (\<lambda>valueC.
       if valueC = None then
         go_bind (skipCacheDeletes cache ascending keyP) (\<lambda>_.
         skipUntilExistsOrInvalid parent cache ascending)
       else ret True))))) x"

definition on_fst :: "('x, 'a) go \<Rightarrow> ('x \<times> 'v, 'a) go" where
  "on_fst = go_zoom fst (\<lambda>x' xv. (x', snd xv))"

definition NewCacheMergeIterator ::
  "'x iter_ops \<Rightarrow> 'x iter_ops \<Rightarrow> bool \<Rightarrow> ('x, bool) go" where
  "NewCacheMergeIterator parent cache ascending = skipUntilExistsOrInvalid parent cache ascending"

definition merge_Valid :: "('x \<times> bool, bool) go" where
  "merge_Valid = go_read snd"

definition merge_Error :: "('x \<times> bool, string option) go" where
  "merge_Error = go_bind merge_Valid (\<lambda>v.
     if \<not> v then ret (Some ''invalid cacheMergeIterator'') else ret None)"

definition merge_assertValid :: "('x \<times> bool, unit) go" where
  "merge_assertValid = go_bind merge_Error (\<lambda>err.
     case err of None \<Rightarrow> ret () | Some e \<Rightarrow> go_panic (Panic_err e))"

text \<open>The \<open>switch\<close> of \<open>Next\<close>, which moves one of the iterators, or both.\<close>

definition merge_advance :: "'x iter_ops \<Rightarrow> 'x iter_ops \<Rightarrow> bool \<Rightarrow> ('x, unit) go" where
  "merge_advance parent cache ascending =
     go_bind (it_Valid parent) (\<lambda>pvalid.
     if \<not> pvalid then it_Next cache else
     go_bind (it_Valid cache) (\<lambda>cvalid.
     if \<not> cvalid then it_Next parent else
     go_bind (it_Key parent) (\<lambda>keyP.
     go_bind (it_Key cache) (\<lambda>keyC.
     let cmp = merge_compare ascending (bs keyP) (bs keyC) in
     if cmp = -1 then it_Next parent
     else if cmp = 0 then go_bind (it_Next parent) (\<lambda>_. it_Next cache)
     else it_Next cache))))"

definition merge_Next ::
  "'x iter_ops \<Rightarrow> 'x iter_ops \<Rightarrow> bool \<Rightarrow> ('x \<times> bool, unit) go" where
  "merge_Next parent cache ascending =
     go_bind merge_assertValid (\<lambda>_.
     go_bind (on_fst (merge_advance parent cache ascending)) (\<lambda>_.
     go_bind (on_fst (skipUntilExistsOrInvalid parent cache ascending)) (\<lambda>v.
     go_modify (\<lambda>(x, _). (x, v)))))"

definition merge_Key ::
  "'x iter_ops \<Rightarrow> 'x iter_ops \<Rightarrow> bool \<Rightarrow> ('x \<times> bool, slice) go" where
  "merge_Key parent cache ascending =
     go_bind merge_assertValid (\<lambda>_.
     go_bind (on_fst (it_Valid parent)) (\<lambda>pvalid.
     if \<not> pvalid then on_fst (it_Key cache) else
     go_bind (on_fst (it_Valid cache)) (\<lambda>cvalid.
     if \<not> cvalid then on_fst (it_Key parent) else
     go_bind (on_fst (it_Key parent)) (\<lambda>keyP.
     go_bind (on_fst (it_Key cache)) (\<lambda>keyC.
     let cmp = merge_compare ascending (bs keyP) (bs keyC) in
     if cmp = -1 then ret keyP
     else if cmp = 0 then ret keyP
     else if cmp = 1 then ret keyC
     else go_panic (Panic_str ''invalid compare result''))))))"

definition merge_Value ::
  "'x iter_ops \<Rightarrow> 'x iter_ops \<Rightarrow> bool \<Rightarrow> ('x \<times> bool, slice) go" where
  "merge_Value parent cache ascending =
     go_bind merge_assertValid (\<lambda>_.
     go_bind (on_fst (it_Valid parent)) (\<lambda>pvalid.
     if \<not> pvalid then on_fst (it_Value cache) else
     go_bind (on_fst (it_Valid cache)) (\<lambda>cvalid.
     if \<not> cvalid then on_fst (it_Value parent) else
     go_bind (on_fst (it_Key parent)) (\<lambda>keyP.
     go_bind (on_fst (it_Key cache)) (\<lambda>keyC.
     let cmp = merge_compare ascending (bs keyP) (bs keyC) in
     if cmp = -1 then on_fst (it_Value parent)
     else if cmp = 0 then on_fst (it_Value cache)
     else if cmp = 1 then on_fst (it_Value cache)
     else go_panic (Panic_str ''invalid comparison result''))))))"

definition merge_Domain :: "'x iter_ops \<Rightarrow> ('x \<times> bool, slice \<times> slice) go" where
  "merge_Domain parent = on_fst (it_Domain parent)"

definition merge_Close :: "'x iter_ops \<Rightarrow> 'x iter_ops \<Rightarrow> ('x \<times> bool, string option) go" where
  "merge_Close parent cache =
     go_bind (on_fst (it_Close cache)) (\<lambda>err1.
     go_bind (on_fst (it_Close parent)) (\<lambda>err.
     if err \<noteq> None then ret err else ret err1))"

definition merge_ops :: "'x iter_ops \<Rightarrow> 'x iter_ops \<Rightarrow> bool \<Rightarrow> ('x \<times> bool) iter_ops" where
  "merge_ops parent cache ascending = \<lparr>
     it_Domain = merge_Domain parent,
     it_Valid = merge_Valid,
     it_Next = merge_Next parent cache ascending,
     it_Key = merge_Key parent cache ascending,
     it_Value = merge_Value parent cache ascending,
     it_Error = merge_Error,
     it_Close = merge_Close parent cache \<rparr>"

lemma merge_compare_cases:
  "merge_compare asc a b = -1 \<longleftrightarrow> before asc a b"
  "merge_compare asc a b = 0 \<longleftrightarrow> a = b"
  "merge_compare asc a b = 1 \<longleftrightarrow> before asc b a"
  "merge_compare asc a b < 0 \<longleftrightarrow> before asc a b"
  by (auto simp: merge_compare_def bytes_Compare_def before_def split: if_splits)

section \<open>What it computes\<close>

text \<open>
  The overlay of two ordered lists of entries: the cache wins at a common key, and an entry of the
  cache with a nil value hides the key.
\<close>

abbreviation live :: "bytes \<times> slice \<Rightarrow> bool" where
  "live e \<equiv> snd e \<noteq> None"

fun merged :: "bool \<Rightarrow> (bytes \<times> slice) list \<Rightarrow> (bytes \<times> slice) list \<Rightarrow> (bytes \<times> slice) list" where
  "merged asc [] cs = filter live cs"
| "merged asc ps [] = ps"
| "merged asc (p # ps) (c # cs) =
     (if before asc (fst p) (fst c) then p # merged asc ps (c # cs)
      else if fst p = fst c then
        (if live c then c # merged asc ps cs else merged asc ps cs)
      else (if live c then c # merged asc (p # ps) cs else merged asc (p # ps) cs))"

lemma merged_Nil2 [simp]: "merged asc ps [] = ps"
  by (cases ps) auto

lemma merged_subset: "x \<in> set (merged asc ps cs) \<Longrightarrow> x \<in> set ps \<or> x \<in> set cs"
  by (induction asc ps cs rule: merged.induct) (auto split: if_splits)

lemma merged_keys_subset: "fst ` set (merged asc ps cs) \<subseteq> fst ` set ps \<union> fst ` set cs"
  using merged_subset by fastforce

lemma merged_sorted:
  "sorted_wrt (before asc) (map fst ps) \<Longrightarrow> sorted_wrt (before asc) (map fst cs) \<Longrightarrow>
     sorted_wrt (before asc) (map fst (merged asc ps cs))"
proof (induction asc ps cs rule: merged.induct)
  case (1 asc cs)
  then show ?case
    by (metis merged.simps(1) sorted_wrt_filter sorted_wrt_map)
next
  case (3 asc p ps c cs)
  have keys: "k \<in> fst ` set ps \<union> fst ` set cs"
    if "k \<in> fst ` set (merged asc ps cs)" for k ps cs
    using merged_keys_subset that by blast
  have p: "\<forall>k \<in> fst ` set ps. before asc (fst p) k" and c: "\<forall>k \<in> fst ` set cs. before asc (fst c) k"
    using "3.prems" by auto
  consider "before asc (fst p) (fst c)" | "fst p = fst c" | "before asc (fst c) (fst p)"
    using before_linear by blast
  then show ?case
  proof cases
    case 1
    then have "\<forall>k \<in> fst ` set (merged asc ps (c # cs)). before asc (fst p) k"
      using p c before_trans keys [of _ ps "c # cs"] by fastforce
    with 1 3 show ?thesis by auto
  next
    case 2
    then have "\<forall>k \<in> fst ` set (merged asc ps cs). before asc (fst c) k"
      using p c keys by fastforce
    with 2 3 show ?thesis by auto
  next
    case n: 3
    have "\<forall>k \<in> fst ` set (merged asc (p # ps) cs). before asc (fst c) k"
    proof
      fix k
      assume "k \<in> fst ` set (merged asc (p # ps) cs)"
      then consider "k = fst p" | "k \<in> fst ` set ps" | "k \<in> fst ` set cs"
        using keys [of k "p # ps" cs] by auto
      then show "before asc (fst c) k"
        using n p c before_trans [OF n] by cases (simp, metis, metis)
    qed
    moreover have "\<not> before asc (fst p) (fst c)" "fst p \<noteq> fst c"
      using n by (auto dest: before_asym)
    ultimately show ?thesis using 3 by auto
  qed
qed simp

lemma map_of_none_before:
  "sorted_wrt (before asc) (k # map fst xs) \<Longrightarrow> map_of xs k = None"
  by (auto simp: map_of_eq_None_iff)

lemma map_of_none_before':
  "before asc k k' \<Longrightarrow> sorted_wrt (before asc) (k' # map fst xs) \<Longrightarrow> map_of xs k = None"
  by (auto simp: map_of_eq_None_iff dest: before_trans)

text \<open>Looking a key up in the overlay: the cache first, then the parent.\<close>

lemma map_of_merged:
  "sorted_wrt (before asc) (map fst ps) \<Longrightarrow> sorted_wrt (before asc) (map fst cs) \<Longrightarrow>
     map_of (merged asc ps cs) k =
       (case map_of cs k of None \<Rightarrow> map_of ps k | Some None \<Rightarrow> None | Some (Some v) \<Rightarrow> Some (Some v))"
proof (induction asc ps cs rule: merged.induct)
  case (1 asc cs)
  then show ?case
  proof (induction cs)
    case (Cons c cs)
    then show ?case
      using map_of_none_before [of asc "fst c" cs]
      by (cases c; cases "snd c") auto
  qed simp
next
  case (3 asc p ps c cs)
  consider "before asc (fst p) (fst c)" | "fst p = fst c" | "before asc (fst c) (fst p)"
    using before_linear by blast
  then show ?case
  proof cases
    case 1
    then have "map_of (c # cs) (fst p) = None"
      using "3.prems"(2) map_of_none_before' [of asc "fst p" "fst c" cs] by (cases c) auto
    with 1 3 show ?thesis
      by (cases p) (auto split: option.splits)
  next
    case 2
    then have "map_of ps (fst c) = None" "map_of cs (fst c) = None"
      using "3.prems" map_of_none_before [of asc "fst c"] by auto
    with 2 3 show ?thesis
      by (cases p; cases c; cases "snd c") (auto split: option.splits)
  next
    case n: 3
    then have "map_of (p # ps) (fst c) = None" "map_of cs (fst c) = None"
      using "3.prems" map_of_none_before [of asc "fst c" cs] map_of_none_before' [of asc "fst c" "fst p" ps]
      by (cases p; auto)+
    with n 3 show ?thesis
      by (cases p; cases c; cases "snd c") (auto dest: before_asym split: option.splits)
  qed
qed (simp split: option.splits)

text \<open>A settled pair: the front of the overlay is a live entry.\<close>

fun settled :: "bool \<Rightarrow> (bytes \<times> slice) list \<Rightarrow> (bytes \<times> slice) list \<Rightarrow> bool" where
  "settled asc ps [] = True"
| "settled asc [] (c # cs) = live c"
| "settled asc (p # ps) (c # cs) = (before asc (fst p) (fst c) \<or> live c)"

definition deleted_before :: "bool \<Rightarrow> slice \<Rightarrow> bytes \<times> slice \<Rightarrow> bool" where
  "deleted_before asc until e \<longleftrightarrow>
     \<not> live e \<and> (case until of None \<Rightarrow> True | Some u \<Rightarrow> before asc (fst e) u)"

lemma merged_drop_deleted_Nil:
  "merged asc [] (dropWhile (deleted_before asc None) cs) = merged asc [] cs"
  by (induction cs) (auto simp: deleted_before_def)

lemma merged_drop_deleted_Cons:
  "merged asc (p # ps) (dropWhile (deleted_before asc (Some (fst p))) cs) = merged asc (p # ps) cs"
proof (induction cs)
  case (Cons c cs)
  have "\<not> before asc (fst p) (fst c) \<and> fst p \<noteq> fst c" if "before asc (fst c) (fst p)"
    using that by (auto dest: before_asym)
  with Cons show ?case by (auto simp: deleted_before_def)
qed simp

lemma settled_drop_deleted: "settled asc [] (dropWhile (deleted_before asc None) cs)"
  by (induction cs) (auto simp: deleted_before_def)

section \<open>Two iterators, one overlay\<close>

text \<open>
  What the merge iterator relies on: two iterators over one state that leave each other alone, both
  ordered in the direction of the iteration; the parent never returns a nil value.
\<close>

locale overlay =
  parent: iterator P I pit pobs + cache: iterator C I cit cobs
  for P C :: "'x iter_ops"
    and I :: "'x \<Rightarrow> bool"
    and pit cit :: "'x \<Rightarrow> (bytes \<times> slice) list"
    and pobs :: "'x \<Rightarrow> 'p"
    and cobs :: "'x \<Rightarrow> 'c" +
  fixes asc :: bool
    and obs :: "'x \<Rightarrow> 'o"
  assumes pobs: "pobs x' = pobs x \<Longrightarrow> cit x' = cit x \<and> obs x' = obs x"
    and cobs: "cobs x' = cobs x \<Longrightarrow> pit x' = pit x \<and> obs x' = obs x"
    and psorted: "I x \<Longrightarrow> sorted_wrt (before asc) (map fst (pit x))"
    and csorted: "I x \<Longrightarrow> sorted_wrt (before asc) (map fst (cit x))"
    and plive: "I x \<Longrightarrow> list_all live (pit x)"

context overlay
begin

text \<open>The methods of both iterators, with what each leaves alone of the other.\<close>

definition same :: "'x \<Rightarrow> 'x \<Rightarrow> bool" where
  "same x x' \<longleftrightarrow> I x' \<and> pit x' = pit x \<and> cit x' = cit x \<and> obs x' = obs x"

lemma pValidE:
  assumes "I x"
  obtains x' where "it_Valid P x = Some (Inr (pit x \<noteq> []), x')" "same x x'"
  using parent.ValidE [OF assms] pobs by (metis same_def)

lemma pKeyE:
  assumes "I x" "pit x = (k, v) # r"
  obtains x' where "it_Key P x = Some (Inr (Some k), x')" "same x x'"
  using parent.KeyE [OF assms] pobs assms(2) by (metis same_def)

lemma pValueE:
  assumes "I x" "pit x = (k, v) # r"
  obtains x' where "it_Value P x = Some (Inr v, x')" "same x x'"
  using parent.ValueE [OF assms] pobs assms(2) by (metis same_def)

lemma pNextE:
  assumes "I x" "pit x = (k, v) # r"
  obtains x' where "it_Next P x = Some (Inr (), x')" "I x'" "pit x' = r" "cit x' = cit x" "obs x' = obs x"
  using parent.NextE [OF assms] pobs by metis

lemma cValidE:
  assumes "I x"
  obtains x' where "it_Valid C x = Some (Inr (cit x \<noteq> []), x')" "same x x'"
  using cache.ValidE [OF assms] cobs by (metis same_def)

lemma cKeyE:
  assumes "I x" "cit x = (k, v) # r"
  obtains x' where "it_Key C x = Some (Inr (Some k), x')" "same x x'"
  using cache.KeyE [OF assms] cobs assms(2) by (metis same_def)

lemma cValueE:
  assumes "I x" "cit x = (k, v) # r"
  obtains x' where "it_Value C x = Some (Inr v, x')" "same x x'"
  using cache.ValueE [OF assms] cobs assms(2) by (metis same_def)

lemma cNextE:
  assumes "I x" "cit x = (k, v) # r"
  obtains x' where "it_Next C x = Some (Inr (), x')" "I x'" "pit x' = pit x" "cit x' = r" "obs x' = obs x"
  using cache.NextE [OF assms] cobs by metis

lemma skipCacheDeletes_run:
  assumes "I x"
  shows "\<exists>x'. skipCacheDeletes C asc until x = Some (Inr (), x') \<and> I x' \<and> pit x' = pit x \<and>
    obs x' = obs x \<and> cit x' = dropWhile (deleted_before asc until) (cit x)"
  using assms
proof (induction "cit x" arbitrary: x)
  case Nil
  obtain x1 where 1: "it_Valid C x = Some (Inr False, x1)" "I x1" "cit x1 = []" "cobs x1 = cobs x"
    using cache.ValidE [OF Nil.prems] Nil.hyps by auto
  have "skipCacheDeletes C asc until x = Some (Inr (), x1)"
    by (subst skipCacheDeletes.simps) (simp add: go_bind_apply 1(1) ret_def)
  with 1 cobs [OF 1(4)] show ?case by (simp flip: Nil.hyps)
next
  case (Cons e r)
  obtain k v where e: "e = (k, v)" by (cases e)
  have cx: "cit x = (k, v) # r" using Cons.hyps(2) e by simp
  obtain x1 where 1: "it_Valid C x = Some (Inr True, x1)" "I x1" "cit x1 = (k, v) # r" "cobs x1 = cobs x"
    using cache.ValidE [OF Cons.prems] cx by auto
  obtain x2 where 2: "it_Value C x1 = Some (Inr v, x2)" "I x2" "cit x2 = (k, v) # r" "cobs x2 = cobs x1"
    using cache.ValueE [OF 1(2,3)] by blast
  let ?b = "case until of None \<Rightarrow> True | Some u \<Rightarrow> before asc k u"
  obtain x3 where 3: "I x3" "cit x3 = (k, v) # r" "cobs x3 = cobs x2"
    "(if until = None then ret True
      else go_bind (it_Key C) (\<lambda>k. ret (merge_compare asc (bs k) (bs until) < 0))) x2 = Some (Inr ?b, x3)"
  proof (cases until)
    case None
    then show thesis using that [of x2] 2 by (simp add: ret_def)
  next
    case (Some u)
    obtain y where y: "it_Key C x2 = Some (Inr (Some k), y)" "I y" "cit y = (k, v) # r" "cobs y = cobs x2"
      using cache.KeyE [OF 2(2,3)] by blast
    then show thesis
      using that [of y] Some by (simp add: go_bind_apply y(1) ret_def merge_compare_cases)
  qed
  show ?case
  proof (cases "deleted_before asc until (k, v)")
    case True
    obtain x4 where 4: "it_Next C x3 = Some (Inr (), x4)" "I x4" "cit x4 = r" "cobs x4 = cobs x3"
      using cache.NextE [OF 3(1,2)] by blast
    have t: "v = None" "?b"
      using True by (auto simp: deleted_before_def split: option.splits)
    have "skipCacheDeletes C asc until x = skipCacheDeletes C asc until x4"
      by (subst skipCacheDeletes.simps) (simp add: go_bind_apply 1(1) 2(1) 3(4) 4(1) t)
    with Cons.hyps(1) [of x4] True 1 2 3 4 cx cobs [of x4 x] show ?thesis by simp
  next
    case False
    then have t: "v \<noteq> None \<or> \<not> ?b"
      by (auto simp: deleted_before_def split: option.splits)
    have "skipCacheDeletes C asc until x = Some (Inr (), if v \<noteq> None then x2 else x3)"
      using t by (subst skipCacheDeletes.simps; cases v) (simp_all add: go_bind_apply 1(1) 2(1) 3(4) ret_def)
    with False 1 2 3 cx cobs [of x2 x] cobs [of x3 x] show ?thesis by auto
  qed
qed

text \<open>The loop returns with a live entry in front, and the overlay is unchanged.\<close>

lemma skipUntilExistsOrInvalid_run:
  assumes "I x"
  shows "\<exists>x'. skipUntilExistsOrInvalid P C asc x = Some (Inr (merged asc (pit x) (cit x) \<noteq> []), x') \<and>
    I x' \<and> obs x' = obs x \<and> settled asc (pit x') (cit x') \<and>
    merged asc (pit x') (cit x') = merged asc (pit x) (cit x)"
  using assms
proof (induction "length (pit x) + length (cit x)" arbitrary: x rule: less_induct)
  case less
  note unf = skipUntilExistsOrInvalid.simps [of P C asc x] and run = go_bind_apply same_def ret_def
  obtain x1 where 1: "it_Valid P x = Some (Inr (pit x \<noteq> []), x1)" "same x x1"
    using pValidE [OF less.prems] .
  show ?case
  proof (cases "pit x")
    case Nil
    obtain x2 where 2: "skipCacheDeletes C asc None x1 = Some (Inr (), x2)" "I x2" "pit x2 = []"
      "obs x2 = obs x" "cit x2 = dropWhile (deleted_before asc None) (cit x)"
      using skipCacheDeletes_run [of x1 None] 1 Nil by (auto simp: same_def)
    obtain x3 where 3: "it_Valid C x2 = Some (Inr (cit x2 \<noteq> []), x3)" "same x2 x3"
      using cValidE [OF 2(2)] .
    have "settled asc [] (cit x2)" by (simp add: settled_drop_deleted 2(5))
    moreover have "merged asc [] (cit x2) = merged asc [] (cit x)"
      using merged_drop_deleted_Nil 2(5) by metis
    moreover have "(cit x2 \<noteq> []) = (merged asc [] (cit x2) \<noteq> [])"
      using calculation(1) by (cases "cit x2") auto
    ultimately show ?thesis
      using 1 2(1-4) 3 Nil by (subst unf) (simp add: run)
  next
    case (Cons p ps)
    obtain kp vp where p: "p = (kp, vp)" by (cases p)
    obtain x2 where 2: "it_Valid C x1 = Some (Inr (cit x \<noteq> []), x2)" "same x x2"
      using cValidE [of x1] 1 by (metis same_def)
    show ?thesis
    proof (cases "cit x")
      case Nil
      with 1 2 Cons show ?thesis by (subst unf) (simp add: run)
    next
      case c: (Cons c cs)
      obtain kc vc where ce: "c = (kc, vc)" by (cases c)
      obtain x3 where 3: "it_Key P x2 = Some (Inr (Some kp), x3)" "same x x3"
        using pKeyE [of x2 kp vp ps] 2 Cons p by (metis same_def)
      obtain x4 where 4: "it_Key C x3 = Some (Inr (Some kc), x4)" "same x x4"
        using cKeyE [of x3 kc vc cs] 3 c ce by (metis same_def)
      obtain x5 where 5: "it_Value C x4 = Some (Inr vc, x5)" "same x x5"
        using cValueE [of x4 kc vc cs] 4 c ce by (metis same_def)
      have cmp: "merge_compare asc kp kc \<noteq> -1 \<longleftrightarrow> \<not> before asc kp kc" "merge_compare asc kp kc = 0 \<longleftrightarrow> kp = kc"
        by (simp_all add: merge_compare_cases)
      consider "before asc kp kc" | w where "\<not> before asc kp kc" "vc = Some w"
        | "kp = kc" "vc = None" | "before asc kc kp" "kp \<noteq> kc" "vc = None"
        using before_linear [of asc kp kc] by (cases vc) auto
      then show ?thesis
      proof cases
        case a: 1
        have "skipUntilExistsOrInvalid P C asc x = Some (Inr True, x4)"
          using 1(1) 2(1) 3(1) 4(1) a cmp Cons c by (subst unf) (simp add: run Let_def)
        with 4(2) a Cons c p ce show ?thesis by (simp add: same_def)
      next
        case a: 2
        have "skipUntilExistsOrInvalid P C asc x = Some (Inr True, x5)"
          using 1(1) 2(1) 3(1) 4(1) 5(1) a cmp Cons c by (subst unf) (simp add: run Let_def)
        with 5(2) a Cons c p ce show ?thesis by (auto simp: same_def)
      next
        case a: 3
        obtain x6 where 6: "it_Next P x5 = Some (Inr (), x6)" "I x6" "pit x6 = ps" "cit x6 = c # cs" "obs x6 = obs x"
          using pNextE [of x5 kp vp ps] 5 Cons p c by (metis same_def)
        obtain x7 where 7: "it_Next C x6 = Some (Inr (), x7)" "I x7" "pit x7 = ps" "cit x7 = cs" "obs x7 = obs x"
          using cNextE [of x6 kc vc cs] 6 ce by metis
        have "skipUntilExistsOrInvalid P C asc x = skipUntilExistsOrInvalid P C asc x7"
          using 1(1) 2(1) 3(1) 4(1) 5(1) 6(1) 7(1) a cmp Cons c by (subst unf) (simp add: run Let_def)
        moreover have "merged asc (pit x) (cit x) = merged asc ps cs"
          using a Cons c p ce by simp
        ultimately show ?thesis using less.hyps [of x7] 7 Cons c by simp
      next
        case a: 4
        obtain x6 where 6: "skipCacheDeletes C asc (Some kp) x5 = Some (Inr (), x6)" "I x6"
          "pit x6 = p # ps" "obs x6 = obs x" "cit x6 = dropWhile (deleted_before asc (Some kp)) (c # cs)"
          using skipCacheDeletes_run [of x5 "Some kp"] 5 Cons c by (auto simp: same_def)
        have "skipUntilExistsOrInvalid P C asc x = skipUntilExistsOrInvalid P C asc x6"
          using 1(1) 2(1) 3(1) 4(1) 5(1) 6(1) a cmp Cons c before_asym by (subst unf) (simp add: run Let_def)
        moreover have "merged asc (pit x6) (cit x6) = merged asc (pit x) (cit x)"
          using merged_drop_deleted_Cons [of asc p ps "c # cs"] 6 Cons c p by simp
        moreover have "length (cit x6) < length (cit x)"
          using a 6(5) c ce length_dropWhile_le [of "deleted_before asc (Some kp)" cs]
          by (simp add: deleted_before_def)
        ultimately show ?thesis using less.hyps [of x6] 6 Cons by simp
      qed
    qed
  qed
qed

end

definition merge_inv :: "('x \<Rightarrow> bool) \<Rightarrow> ('x \<Rightarrow> (bytes \<times> slice) list) \<Rightarrow> ('x \<Rightarrow> (bytes \<times> slice) list) \<Rightarrow>
    bool \<Rightarrow> 'x \<times> bool \<Rightarrow> bool" where
  "merge_inv I pit cit asc xv \<longleftrightarrow> I (fst xv) \<and> settled asc (pit (fst xv)) (cit (fst xv)) \<and>
     snd xv = (merged asc (pit (fst xv)) (cit (fst xv)) \<noteq> [])"

lemma on_fst_apply: "on_fst m (x, v) = map_option (\<lambda>(r, x'). (r, (x', v))) (m x)"
  by (auto simp: on_fst_def go_zoom_def split: option.splits)

lemma merge_assertValid_True: "merge_assertValid (x, True) = Some (Inr (), (x, True))"
  by (simp add: merge_assertValid_def merge_Error_def merge_Valid_def go_defs)

lemmas merge_run = go_bind_apply on_fst_apply merge_assertValid_True ret_def Let_def merge_compare_cases

context overlay
begin

lemma keysE:
  assumes "I x" "pit x = (kp, vp) # ps" "cit x = (kc, vc) # cs"
  obtains x3 x4 where "it_Key P x = Some (Inr (Some kp), x3)" "it_Key C x3 = Some (Inr (Some kc), x4)"
    "same x x4"
proof -
  obtain x3 where 3: "it_Key P x = Some (Inr (Some kp), x3)" "same x x3"
    using pKeyE [OF assms(1,2)] .
  obtain x4 where "it_Key C x3 = Some (Inr (Some kc), x4)" "same x3 x4"
    using cKeyE [of x3 kc vc cs] 3(2) assms(3) by (metis same_def)
  with 3 show thesis using that by (simp add: same_def)
qed

lemma validE:
  assumes "I x"
  obtains x1 x2 where "it_Valid P x = Some (Inr (pit x \<noteq> []), x1)" "same x x1"
    "it_Valid C x1 = Some (Inr (cit x \<noteq> []), x2)" "same x x2"
proof -
  obtain x1 where 1: "it_Valid P x = Some (Inr (pit x \<noteq> []), x1)" "same x x1"
    using pValidE [OF assms] .
  obtain x2 where "it_Valid C x1 = Some (Inr (cit x \<noteq> []), x2)" "same x1 x2"
    using cValidE [of x1] 1(2) by (metis same_def)
  with 1 show thesis using that by (simp add: same_def)
qed

lemma merge_Key_run:
  assumes "I x" "settled asc (pit x) (cit x)" "merged asc (pit x) (cit x) = (k, v) # r"
  shows "\<exists>x'. merge_Key P C asc (x, True) = Some (Inr (Some k), (x', True)) \<and> same x x'"
proof -
  obtain x1 x2 where V: "it_Valid P x = Some (Inr (pit x \<noteq> []), x1)" "same x x1"
    "it_Valid C x1 = Some (Inr (cit x \<noteq> []), x2)" "same x x2"
    using validE [OF assms(1)] .
  note run = merge_Key_def merge_run V(1,3)
  consider kp vp ps where "pit x = (kp, vp) # ps" "cit x = []"
    | kc vc cs where "pit x = []" "cit x = (kc, vc) # cs"
    | kp vp ps kc vc cs where "pit x = (kp, vp) # ps" "cit x = (kc, vc) # cs"
    using assms(3) by (cases "pit x"; cases "cit x"; auto)
  then show ?thesis
  proof cases
    case (1 kp vp ps)
    with pKeyE [of x2 kp vp ps] V(4) obtain x3 where "it_Key P x2 = Some (Inr (Some kp), x3)" "same x x3"
      by (metis same_def)
    with 1 assms(3) show ?thesis by (simp add: run)
  next
    case (2 kc vc cs)
    with cKeyE [of x1 kc vc cs] V(2) obtain x3 where "it_Key C x1 = Some (Inr (Some kc), x3)" "same x x3"
      by (metis same_def)
    with 2 assms(2,3) show ?thesis by (simp add: run)
  next
    case (3 kp vp ps kc vc cs)
    obtain x3 x4 where "it_Key P x2 = Some (Inr (Some kp), x3)" "it_Key C x3 = Some (Inr (Some kc), x4)"
      "same x x4"
      using keysE [of x2 kp vp ps kc vc cs] V(4) 3 by (metis same_def)
    with 3 assms(2,3) before_linear [of asc kp kc] show ?thesis
      by (auto simp: run split: if_splits)
  qed
qed

lemma merge_Value_run:
  assumes "I x" "settled asc (pit x) (cit x)" "merged asc (pit x) (cit x) = (k, v) # r"
  shows "\<exists>x'. merge_Value P C asc (x, True) = Some (Inr v, (x', True)) \<and> same x x'"
proof -
  obtain x1 x2 where V: "it_Valid P x = Some (Inr (pit x \<noteq> []), x1)" "same x x1"
    "it_Valid C x1 = Some (Inr (cit x \<noteq> []), x2)" "same x x2"
    using validE [OF assms(1)] .
  note run = merge_Value_def merge_run V(1,3)
  consider kp vp ps where "pit x = (kp, vp) # ps" "cit x = []"
    | kc vc cs where "pit x = []" "cit x = (kc, vc) # cs"
    | kp vp ps kc vc cs where "pit x = (kp, vp) # ps" "cit x = (kc, vc) # cs"
    using assms(3) by (cases "pit x"; cases "cit x"; auto)
  then show ?thesis
  proof cases
    case (1 kp vp ps)
    with pValueE [of x2 kp vp ps] V(4) obtain x3 where "it_Value P x2 = Some (Inr vp, x3)" "same x x3"
      by (metis same_def)
    with 1 assms(3) show ?thesis by (simp add: run)
  next
    case (2 kc vc cs)
    with cValueE [of x1 kc vc cs] V(2) obtain x3 where "it_Value C x1 = Some (Inr vc, x3)" "same x x3"
      by (metis same_def)
    with 2 assms(2,3) show ?thesis by (simp add: run)
  next
    case (3 kp vp ps kc vc cs)
    obtain x3 x4 where 4: "it_Key P x2 = Some (Inr (Some kp), x3)" "it_Key C x3 = Some (Inr (Some kc), x4)"
      "same x x4"
      using keysE [of x2 kp vp ps kc vc cs] V(4) 3 by (metis same_def)
    obtain x5 where 5: "it_Value P x4 = Some (Inr vp, x5)" "same x x5"
      using pValueE [of x4 kp vp ps] 3 4(3) by (metis same_def)
    obtain x6 where 6: "it_Value C x4 = Some (Inr vc, x6)" "same x x6"
      using cValueE [of x4 kc vc cs] 3 4(3) by (metis same_def)
    from 3 4(1,2) 5 6 assms(2,3) before_linear [of asc kp kc] show ?thesis
      by (auto simp: run split: if_splits)
  qed
qed

text \<open>The part of \<open>Next\<close> before the skip drops the front of the overlay.\<close>

definition advanced :: "'x \<Rightarrow> 'x \<Rightarrow> bool" where
  "advanced x x' \<longleftrightarrow> I x' \<and> obs x' = obs x \<and> merged asc (pit x') (cit x') = tl (merged asc (pit x) (cit x))"

lemma merge_advance_run:
  assumes "I x" "settled asc (pit x) (cit x)" "merged asc (pit x) (cit x) = (k, v) # r"
  shows "\<exists>x'. merge_advance P C asc x = Some (Inr (), x') \<and> advanced x x'"
proof -
  obtain x1 x2 where V: "it_Valid P x = Some (Inr (pit x \<noteq> []), x1)" "same x x1"
    "it_Valid C x1 = Some (Inr (cit x \<noteq> []), x2)" "same x x2"
    using validE [OF assms(1)] .
  note run = merge_advance_def merge_run V(1,3) advanced_def
  consider kp vp ps where "pit x = (kp, vp) # ps" "cit x = []"
    | kc vc cs where "pit x = []" "cit x = (kc, vc) # cs"
    | kp vp ps kc vc cs where "pit x = (kp, vp) # ps" "cit x = (kc, vc) # cs"
    using assms(3) by (cases "pit x"; cases "cit x"; auto)
  then show ?thesis
  proof cases
    case (1 kp vp ps)
    with pNextE [of x2 kp vp ps] V(4) obtain x3 where "it_Next P x2 = Some (Inr (), x3)" "I x3"
      "pit x3 = ps" "cit x3 = []" "obs x3 = obs x"
      by (metis same_def)
    with 1 show ?thesis by (intro exI [of _ x3]) (simp add: run)
  next
    case (2 kc vc cs)
    with cNextE [of x1 kc vc cs] V(2) obtain x3 where "it_Next C x1 = Some (Inr (), x3)" "I x3"
      "pit x3 = []" "cit x3 = cs" "obs x3 = obs x"
      by (metis same_def)
    with 2 assms(2) show ?thesis by (intro exI [of _ x3]) (auto simp: run)
  next
    case (3 kp vp ps kc vc cs)
    obtain x3 x4 where 4: "it_Key P x2 = Some (Inr (Some kp), x3)" "it_Key C x3 = Some (Inr (Some kc), x4)"
      "same x x4"
      using keysE [of x2 kp vp ps kc vc cs] V(4) 3 by (metis same_def)
    obtain x5 where 5: "it_Next P x4 = Some (Inr (), x5)" "I x5" "pit x5 = ps" "cit x5 = cit x" "obs x5 = obs x"
      using pNextE [of x4 kp vp ps] 3 4(3) by (metis same_def)
    obtain x6 where 6: "it_Next C x4 = Some (Inr (), x6)" "I x6" "pit x6 = pit x" "cit x6 = cs" "obs x6 = obs x"
      using cNextE [of x4 kc vc cs] 3 4(3) by (metis same_def)
    obtain x7 where 7: "it_Next C x5 = Some (Inr (), x7)" "I x7" "pit x7 = ps" "cit x7 = cs" "obs x7 = obs x"
      using cNextE [of x5 kc vc cs] 3 5 by metis
    consider "before asc kp kc" | "kp = kc" | "before asc kc kp" "kp \<noteq> kc" "\<not> before asc kp kc"
      using before_linear [of asc kp kc] before_asym [of asc kp kc] by blast
    then show ?thesis
    proof cases
      case a: 1
      with 3 4(1,2) 5 show ?thesis by (intro exI [of _ x5]) (auto simp: run)
    next
      case a: 2
      with 3 4(1,2) 5 7 assms(2) show ?thesis by (intro exI [of _ x7]) (auto simp: run)
    next
      case a: 3
      with 3 4(1,2) 6 assms(2) show ?thesis by (intro exI [of _ x6]) (auto simp: run)
    qed
  qed
qed

lemma merge_Next_run:
  assumes "I x" "settled asc (pit x) (cit x)" "merged asc (pit x) (cit x) = (k, v) # r"
  shows "\<exists>x'. merge_Next P C asc (x, True) = Some (Inr (), (x', r \<noteq> [])) \<and> I x' \<and> obs x' = obs x \<and>
    settled asc (pit x') (cit x') \<and> merged asc (pit x') (cit x') = r"
proof -
  obtain x1 where "merge_advance P C asc x = Some (Inr (), x1)" "advanced x x1"
    using merge_advance_run [OF assms] by blast
  with skipUntilExistsOrInvalid_run [of x1] assms(3) show ?thesis
    by (auto simp: advanced_def merge_Next_def merge_run go_modify_def)
qed

end

text \<open>Over two such iterators the merge iterator is an iterator, over the overlay.\<close>

sublocale overlay \<subseteq> merge: iterator "merge_ops P C asc" "merge_inv I pit cit asc"
  "\<lambda>xv. merged asc (pit (fst xv)) (cit (fst xv))" "obs \<circ> fst"
proof
  fix y assume "merge_inv I pit cit asc y"
  then show "wp (it_Valid (merge_ops P C asc)) (\<lambda>b y'. b = (merged asc (pit (fst y)) (cit (fst y)) \<noteq> []) \<and>
      merge_inv I pit cit asc y' \<and> merged asc (pit (fst y')) (cit (fst y')) = merged asc (pit (fst y)) (cit (fst y)) \<and>
      (obs \<circ> fst) y' = (obs \<circ> fst) y) y"
    by (simp add: merge_ops_def merge_Valid_def merge_inv_def wp_simps)
next
  fix y k v r
  assume inv: "merge_inv I pit cit asc y" and front: "merged asc (pit (fst y)) (cit (fst y)) = (k, v) # r"
  obtain x where y: "y = (x, True)" "I x" and settled: "settled asc (pit x) (cit x)"
    and fx: "merged asc (pit x) (cit x) = (k, v) # r"
    using inv front by (cases y) (auto simp: merge_inv_def)
  show "wp (it_Key (merge_ops P C asc)) (\<lambda>z y'. z = Some k \<and>
      merge_inv I pit cit asc y' \<and> merged asc (pit (fst y')) (cit (fst y')) = merged asc (pit (fst y)) (cit (fst y)) \<and>
      (obs \<circ> fst) y' = (obs \<circ> fst) y) y"
    using merge_Key_run [OF y(2) settled fx] y settled fx
    by (auto simp: merge_ops_def merge_inv_def same_def wp_def)
  show "wp (it_Value (merge_ops P C asc)) (\<lambda>z y'. z = v \<and>
      merge_inv I pit cit asc y' \<and> merged asc (pit (fst y')) (cit (fst y')) = merged asc (pit (fst y)) (cit (fst y)) \<and>
      (obs \<circ> fst) y' = (obs \<circ> fst) y) y"
    using merge_Value_run [OF y(2) settled fx] y settled fx
    by (auto simp: merge_ops_def merge_inv_def same_def wp_def)
  show "wp (it_Next (merge_ops P C asc)) (\<lambda>_ y'.
      merge_inv I pit cit asc y' \<and> merged asc (pit (fst y')) (cit (fst y')) = r \<and>
      (obs \<circ> fst) y' = (obs \<circ> fst) y) y"
    using merge_Next_run [OF y(2) settled fx] y
    by (auto simp: merge_ops_def merge_inv_def wp_def)
qed

context overlay
begin

lemma merge_iterator:
  "iterator (merge_ops P C asc) (merge_inv I pit cit asc) (\<lambda>xv. merged asc (pit (fst xv)) (cit (fst xv))) (obs \<circ> fst)"
  by (rule merge.iterator_axioms)

lemma NewCacheMergeIterator_wp:
  assumes "I x"
  shows "wp (NewCacheMergeIterator P C asc) (\<lambda>valid x'. merge_inv I pit cit asc (x', valid) \<and> obs x' = obs x \<and>
    merged asc (pit x') (cit x') = merged asc (pit x) (cit x)) x"
  using skipUntilExistsOrInvalid_run [OF assms]
  by (auto simp: NewCacheMergeIterator_def merge_inv_def wp_def)

end

end
