(* ===== verification/Cache_KV.thy ===== *)
theory Cache_KV
  imports Mem_Iterator Merge_Iterator
begin

text \<open>
  cachekv/store.go: the write-back cache over a parent \<open>KVStore\<close>. The parent is a record of
  operations with the contract \<open>kvstore\<close>; the tree of the sorted cache is the library of
  \<open>Mem_Iterator\<close>. The main result is that the store keeps the contract it relies on: it is a
  \<open>KVStore\<close> whose contents are the parent's overlaid with the cached writes.
\<close>

section \<open>The store\<close>

record cValue =
  cv_value :: slice
  cv_dirty :: bool

text \<open>
  The two \<open>sync.Map\<close>s are association lists: the order stands for the unspecified order in which
  \<open>Range\<close> visits the entries. The sorted cache is a nil tree until the first iteration.
\<close>

record ('s, 't) cachekv =
  ck_cache :: "(bytes \<times> cValue) list"
  ck_unsorted :: "bytes list"
  ck_sorted :: "'t option"
  ck_parent :: 's

definition cachekv_NewStore :: "'s \<Rightarrow> ('s, 't) cachekv" where
  "cachekv_NewStore p = \<lparr>ck_cache = [], ck_unsorted = [], ck_sorted = None, ck_parent = p\<rparr>"

definition on_parent :: "('s, 'a) go \<Rightarrow> (('s, 't) cachekv, 'a) go" where
  "on_parent = go_zoom ck_parent (\<lambda>s st. st\<lparr>ck_parent := s\<rparr>)"

definition on_sorted :: "('t option, 'a) go \<Rightarrow> (('s, 't) cachekv, 'a) go" where
  "on_sorted = go_zoom ck_sorted (\<lambda>t st. st\<lparr>ck_sorted := t\<rparr>)"

definition cachekv_GetStoreType :: "('s, 'i) kv_ops \<Rightarrow> ('s, 't) cachekv \<Rightarrow> StoreType" where
  "cachekv_GetStoreType P st = kv_GetStoreType P (ck_parent st)"

definition cachekv_getFromCache :: "('s, 'i) kv_ops \<Rightarrow> slice \<Rightarrow> (('s, 't) cachekv, slice) go" where
  "cachekv_getFromCache P k =
     go_bind (go_read (\<lambda>st. map_of (ck_cache st) (bs k))) (\<lambda>cv.
     case cv of Some c \<Rightarrow> ret (cv_value c) | None \<Rightarrow> on_parent (kv_Get P k))"

definition cachekv_Get :: "('s, 'i) kv_ops \<Rightarrow> slice \<Rightarrow> (('s, 't) cachekv, slice) go" where
  "cachekv_Get P k = go_bind (AssertValidKey k) (\<lambda>_. cachekv_getFromCache P k)"

definition cachekv_setCacheValue :: "slice \<Rightarrow> slice \<Rightarrow> bool \<Rightarrow> (('s, 't) cachekv, unit) go" where
  "cachekv_setCacheValue k v dirty =
     go_bind (go_modify (\<lambda>st. st\<lparr>ck_cache :=
       AList.update (bs k) \<lparr>cv_value = v, cv_dirty = dirty\<rparr> (ck_cache st)\<rparr>)) (\<lambda>_.
     if dirty then
       go_modify (\<lambda>st. st\<lparr>ck_unsorted := List.insert (bs k) (ck_unsorted st)\<rparr>)
     else ret ())"

definition cachekv_Set :: "slice \<Rightarrow> slice \<Rightarrow> (('s, 't) cachekv, unit) go" where
  "cachekv_Set k v =
     go_bind (AssertValidKey k) (\<lambda>_.
     go_bind (AssertValidValue v) (\<lambda>_.
     cachekv_setCacheValue k v True))"

definition cachekv_Has :: "('s, 'i) kv_ops \<Rightarrow> slice \<Rightarrow> (('s, 't) cachekv, bool) go" where
  "cachekv_Has P k = go_bind (cachekv_Get P k) (\<lambda>v. ret (v \<noteq> None))"

definition cachekv_Delete :: "slice \<Rightarrow> (('s, 't) cachekv, unit) go" where
  "cachekv_Delete k = go_bind (AssertValidKey k) (\<lambda>_. cachekv_setCacheValue k None True)"

definition write_entry :: "('s, 'i) kv_ops \<Rightarrow> bytes \<times> cValue \<Rightarrow> (('s, 't) cachekv, unit) go" where
  "write_entry P e =
     (if cv_dirty (snd e) then
        (if cv_value (snd e) \<noteq> None
         then on_parent (kv_Set P (Some (fst e)) (cv_value (snd e)))
         else on_parent (kv_Delete P (Some (fst e))))
      else ret ())"

definition cachekv_Write :: "('s, 'i) kv_ops \<Rightarrow> (('s, 't) cachekv, unit) go" where
  "cachekv_Write P = go_bind (go_read ck_cache) (\<lambda>es. go_for es (write_entry P))"

definition cachekv_CacheWrap :: "('s, 't) cachekv \<Rightarrow> (('s, 't) cachekv, 't) cachekv" where
  "cachekv_CacheWrap st = cachekv_NewStore st"

section \<open>The sorted cache\<close>

datatype sortState = stateUnsorted | stateAlreadySorted

definition deleteKeysFromUnsortedCache :: "(slice \<times> slice) list \<Rightarrow> (('s, 't) cachekv, unit) go" where
  "deleteKeysFromUnsortedCache unsorted =
     go_for unsorted (\<lambda>kv. go_modify (\<lambda>st. st\<lparr>ck_unsorted := removeAll (bs (fst kv)) (ck_unsorted st)\<rparr>))"

definition clearUnsortedCacheSubset ::
  "('t, 'bi) btree_ops \<Rightarrow> (slice \<times> slice) list \<Rightarrow> sortState \<Rightarrow> (('s, 't) cachekv, unit) go" where
  "clearUnsortedCacheSubset lib unsorted sort_state =
     go_bind (deleteKeysFromUnsortedCache unsorted) (\<lambda>_.
     let unsorted' = (if sort_state = stateUnsorted then sort_key (\<lambda>p. bs (fst p)) unsorted else unsorted) in
     go_bind (go_modify (\<lambda>st. if BTree_IsNil (ck_sorted st) then st\<lparr>ck_sorted := NewBTree lib\<rparr> else st)) (\<lambda>_.
     go_for unsorted' (\<lambda>it. on_sorted (BTree_Set lib (fst it) (snd it)))))"

text \<open>The keys of the unsorted cache inside the domain, with their cached values;
  \<open>inDomain\<close> is \<open>dbm.IsKeyInDomain\<close>.\<close>

definition dirty_pairs ::
  "(bytes \<Rightarrow> slice \<Rightarrow> slice \<Rightarrow> bool) \<Rightarrow> slice \<Rightarrow> slice \<Rightarrow> ('s, 't) cachekv \<Rightarrow> (slice \<times> slice) list" where
  "dirty_pairs inDomain start end st =
     List.map_filter (\<lambda>cKey.
       if inDomain cKey start end
       then map_option (\<lambda>cv. (Some cKey, cv_value cv)) (map_of (ck_cache st) cKey)
       else None) (ck_unsorted st)"

definition dirtyItems ::
  "('t, 'bi) btree_ops \<Rightarrow> (bytes \<Rightarrow> slice \<Rightarrow> slice \<Rightarrow> bool) \<Rightarrow> slice \<Rightarrow> slice \<Rightarrow> (('s, 't) cachekv, unit) go" where
  "dirtyItems lib inDomain start end =
     (if end \<noteq> None \<and> bs start > bs end then ret ()
      else go_bind (go_read (dirty_pairs inDomain start end)) (\<lambda>unsorted.
           clearUnsortedCacheSubset lib unsorted stateAlreadySorted))"

section \<open>Iteration\<close>

text \<open>The iterator object: the parent's iterator, the memIterator, and the fields \<open>valid\<close> and
  \<open>ascending\<close> of the merge iterator.\<close>

type_synonym ('i, 'bi) cit = "'i \<times> 'bi memIterator \<times> bool \<times> bool"

definition parent_it :: "('s, 'i) kv_ops \<Rightarrow> (('s \<times> 'i) \<times> 'bi memIterator) iter_ops" where
  "parent_it P = zoom_iter fst (\<lambda>x' x. (x', snd x)) (kv_iter P)"

definition cache_it :: "('t, 'bi) btree_ops \<Rightarrow> (('s \<times> 'i) \<times> 'bi memIterator) iter_ops" where
  "cache_it lib = zoom_iter snd (\<lambda>m x. (fst x, m)) (mi_ops lib)"

fun get_both :: "('s, 't) cachekv \<times> 'i \<times> 'bi memIterator \<Rightarrow> ('s \<times> 'i) \<times> 'bi memIterator" where
  "get_both (st, (i, m)) = ((ck_parent st, i), m)"

fun put_both :: "('s \<times> 'i) \<times> 'bi memIterator \<Rightarrow> ('s, 't) cachekv \<times> 'i \<times> 'bi memIterator \<Rightarrow>
    ('s, 't) cachekv \<times> 'i \<times> 'bi memIterator" where
  "put_both ((s, i), m) (st, _) = (st\<lparr>ck_parent := s\<rparr>, (i, m))"

definition iterator_of ::
  "('s, 'i) kv_ops \<Rightarrow> ('t, 'bi) btree_ops \<Rightarrow> (bytes \<Rightarrow> slice \<Rightarrow> slice \<Rightarrow> bool) \<Rightarrow>
   slice \<Rightarrow> slice \<Rightarrow> bool \<Rightarrow> (('s, 't) cachekv, ('i, 'bi) cit) go" where
  "iterator_of P lib inDomain start end ascending =
     go_bind (dirtyItems lib inDomain start end) (\<lambda>_.
     go_bind (on_sorted (BTree_Copy lib)) (\<lambda>isoSortedCache.
     go_bind (on_parent (if ascending then kv_Iterator P start end
                         else kv_ReverseIterator P start end)) (\<lambda>pit.
     go_bind (go_local isoSortedCache (go_zoom snd (\<lambda>t x. (fst x, t))
       (if ascending then BTree_Iterator lib start end
        else BTree_ReverseIterator lib start end))) (\<lambda>(mit, _).
     case mit of
       Inl err \<Rightarrow> go_panic (Panic_err err)
     | Inr m \<Rightarrow>
         go_bind (go_local (pit, m) (go_zoom get_both put_both
           (NewCacheMergeIterator (parent_it P) (cache_it lib) ascending))) (\<lambda>(valid, (i, m')).
         ret (i, m', valid, ascending))))))"

definition cachekv_Iterator ::
  "('s, 'i) kv_ops \<Rightarrow> ('t, 'bi) btree_ops \<Rightarrow> (bytes \<Rightarrow> slice \<Rightarrow> slice \<Rightarrow> bool) \<Rightarrow>
   slice \<Rightarrow> slice \<Rightarrow> (('s, 't) cachekv, ('i, 'bi) cit) go" where
  "cachekv_Iterator P lib inDomain start end = iterator_of P lib inDomain start end True"

definition cachekv_ReverseIterator ::
  "('s, 'i) kv_ops \<Rightarrow> ('t, 'bi) btree_ops \<Rightarrow> (bytes \<Rightarrow> slice \<Rightarrow> slice \<Rightarrow> bool) \<Rightarrow>
   slice \<Rightarrow> slice \<Rightarrow> (('s, 't) cachekv, ('i, 'bi) cit) go" where
  "cachekv_ReverseIterator P lib inDomain start end = iterator_of P lib inDomain start end False"

section \<open>Ranges\<close>

text \<open>\<open>keyStrs\<close> is a Go map used as a set. The order of the keys that are returned is that of an iteration over this map, which Go leaves open; here it is one of
  the possible orders, and the contract of a store speaks of the set of the keys only.\<close>

fun range_entry :: "slice \<Rightarrow> slice \<Rightarrow> bytes list \<Rightarrow> (bytes \<times> cValue) list \<Rightarrow> bytes list" where
  "range_entry start end keyStrs [] = keyStrs"
| "range_entry start end keyStrs ((kbz, cv) # es) =
     (if bytes_Compare kbz (bs start) < 0 \<or> bytes_Compare kbz (bs end) \<ge> 0
      then range_entry start end keyStrs es
      else if cv_value cv = None
      then range_entry start end (removeAll kbz keyStrs) es
      else range_entry start end (List.insert kbz keyStrs) es)"

definition cachekv_GetAllKeyStrsInRange ::
  "('s, 'i) kv_ops \<Rightarrow> slice \<Rightarrow> slice \<Rightarrow> (('s, 't) cachekv, bytes list) go" where
  "cachekv_GetAllKeyStrsInRange P start end =
     go_bind (on_parent (kv_GetAllKeyStrsInRange P start end)) (\<lambda>pks.
     go_read (\<lambda>st. range_entry start end (remdups pks) (ck_cache st)))"

definition cachekv_DeleteAll :: "('s, 'i) kv_ops \<Rightarrow> slice \<Rightarrow> slice \<Rightarrow> (('s, 't) cachekv, string option) go" where
  "cachekv_DeleteAll P start end =
     go_bind (cachekv_GetAllKeyStrsInRange P start end) (\<lambda>ks.
     go_bind (go_for ks (\<lambda>k. cachekv_Delete (Some k))) (\<lambda>_. ret None))"

definition cachekv_GetParent :: "('s, 't) cachekv \<Rightarrow> 's" where
  "cachekv_GetParent st = ck_parent st"

text \<open>\<open>ResetCache\<close> calls \<open>ClearCache\<close> when the parent is a \<open>CommitKVStore\<close>.\<close>

definition cachekv_ResetCache :: "('s, unit) go option \<Rightarrow> (('s, 't) cachekv, unit) go" where
  "cachekv_ResetCache clearCache = (case clearCache of None \<Rightarrow> ret () | Some c \<Rightarrow> on_parent c)"

section \<open>The store as a KVStore\<close>

fun get_merge :: "('s, 't) cachekv \<times> ('i, 'bi) cit \<Rightarrow> (('s \<times> 'i) \<times> 'bi memIterator) \<times> bool" where
  "get_merge (st, (i, m, v, a)) = (((ck_parent st, i), m), v)"

fun put_merge :: "(('s \<times> 'i) \<times> 'bi memIterator) \<times> bool \<Rightarrow> ('s, 't) cachekv \<times> ('i, 'bi) cit \<Rightarrow>
    ('s, 't) cachekv \<times> ('i, 'bi) cit" where
  "put_merge (((s, i), m), v) (st, (_, _, _, a)) = (st\<lparr>ck_parent := s\<rparr>, (i, m, v, a))"

definition ascending_of :: "('s, 't) cachekv \<times> ('i, 'bi) cit \<Rightarrow> bool" where
  "ascending_of x = snd (snd (snd (snd x)))"

definition cachekv_iter ::
  "('s, 'i) kv_ops \<Rightarrow> ('t, 'bi) btree_ops \<Rightarrow> (('s, 't) cachekv \<times> ('i, 'bi) cit) iter_ops" where
  "cachekv_iter P lib = dyn_iter (\<lambda>x. zoom_iter get_merge put_merge
     (merge_ops (parent_it P) (cache_it lib) (ascending_of x)))"

definition cachekv_ops ::
  "('s, 'i) kv_ops \<Rightarrow> ('t, 'bi) btree_ops \<Rightarrow> (bytes \<Rightarrow> slice \<Rightarrow> slice \<Rightarrow> bool) \<Rightarrow>
   (('s, 't) cachekv, ('i, 'bi) cit) kv_ops" where
  "cachekv_ops P lib inDomain = \<lparr>
     kv_GetStoreType = cachekv_GetStoreType P,
     kv_Get = cachekv_Get P,
     kv_Has = cachekv_Has P,
     kv_Set = cachekv_Set,
     kv_Delete = cachekv_Delete,
     kv_Iterator = cachekv_Iterator P lib inDomain,
     kv_ReverseIterator = cachekv_ReverseIterator P lib inDomain,
     kv_GetAllKeyStrsInRange = cachekv_GetAllKeyStrsInRange P,
     kv_iter = cachekv_iter P lib \<rparr>"

section \<open>Contents and invariant\<close>

text \<open>What a key reads as: the cached value where there is one, the parent's otherwise.\<close>

definition cached :: "('s, 't) cachekv \<Rightarrow> bytes \<rightharpoonup> slice" where
  "cached st = map_option cv_value \<circ> map_of (ck_cache st)"

definition overlaid :: "(bytes \<rightharpoonup> slice) \<Rightarrow> (bytes \<rightharpoonup> bytes) \<Rightarrow> bytes \<rightharpoonup> bytes" where
  "overlaid c m k = (case c k of None \<Rightarrow> m k | Some v \<Rightarrow> v)"

definition cachekv_contents :: "('s \<Rightarrow> bytes \<rightharpoonup> bytes) \<Rightarrow> ('s, 't) cachekv \<Rightarrow> bytes \<rightharpoonup> bytes" where
  "cachekv_contents contents st = overlaid (cached st) (contents (ck_parent st))"

text \<open>The sorted cache agrees with the cache at every key that is not waiting to be sorted in, and
  holds no other keys.\<close>

definition tree_map :: "('t \<Rightarrow> item list) \<Rightarrow> 't option \<Rightarrow> bytes \<rightharpoonup> slice" where
  "tree_map elems bt = (case bt of None \<Rightarrow> Map.empty | Some t \<Rightarrow> map_of (map entry (elems t)))"

definition tree_ok :: "('t \<Rightarrow> bool) \<Rightarrow> ('t \<Rightarrow> item list) \<Rightarrow> 't option \<Rightarrow> bool" where
  "tree_ok t_ok elems bt \<longleftrightarrow> (\<forall>t. bt = Some t \<longrightarrow> t_ok t \<and> (\<forall>e \<in> set (elems t). key e \<noteq> None))"

definition cachekv_inv :: "(bytes \<Rightarrow> bool) \<Rightarrow> ('s \<Rightarrow> bool) \<Rightarrow> ('t \<Rightarrow> bool) \<Rightarrow> ('t \<Rightarrow> item list) \<Rightarrow>
    ('s, 't) cachekv \<Rightarrow> bool" where
  "cachekv_inv vk pinv t_ok elems st \<longleftrightarrow>
     pinv (ck_parent st) \<and>
     distinct (map fst (ck_cache st)) \<and>
     (\<forall>(k, cv) \<in> set (ck_cache st). vk k \<and> cv_dirty cv \<and> (\<forall>v. cv_value cv = Some v \<longrightarrow> valid_value v)) \<and>
     set (ck_unsorted st) \<subseteq> dom (cached st) \<and>
     tree_ok t_ok elems (ck_sorted st) \<and>
     dom (tree_map elems (ck_sorted st)) \<subseteq> dom (cached st) \<and>
     (\<forall>k. k \<notin> set (ck_unsorted st) \<longrightarrow> tree_map elems (ck_sorted st) k = cached st k)"

lemma cached_simps [simp]:
  "cached (st\<lparr>ck_parent := p\<rparr>) = cached st"
  "cached (st\<lparr>ck_unsorted := u\<rparr>) = cached st"
  "cached (st\<lparr>ck_sorted := b\<rparr>) = cached st"
  by (simp_all add: cached_def)

lemma cached_update:
  "cached (st\<lparr>ck_cache := AList.update k cv (ck_cache st)\<rparr>) = (cached st)(k \<mapsto> cv_value cv)"
  by (auto simp: cached_def update_conv fun_eq_iff)

lemma overlaid_upd: "overlaid (c(k \<mapsto> v)) m = (overlaid c m)(k := v)"
  by (auto simp: overlaid_def fun_eq_iff)

lemma overlaid_idem: "overlaid c (overlaid c m) = overlaid c m"
  by (auto simp: overlaid_def fun_eq_iff split: option.splits)

text \<open>The entries of the merged iteration are those of the overlaid contents.\<close>

lemma merged_covers:
  assumes p: "covers m start end asc ps"
    and c: "sorted_wrt (before asc) (map fst cs)" "\<And>k. map_of cs k = (if in_domain start end k then c k else None)"
  shows "covers (overlaid c m) start end asc (merged asc ps cs)"
proof -
  have "map_of (merged asc ps cs) k = (if in_domain start end k then map_option Some (overlaid c m k) else None)" for k
    using p c map_of_merged [of asc ps cs k]
    by (auto simp: covers_def overlaid_def split: option.splits)
  moreover have "sorted_wrt (before asc) (map fst (merged asc ps cs))"
    using merged_sorted p c by (auto simp: covers_def)
  ultimately show ?thesis by (simp add: covers_def)
qed

lemma sorted_tl: "sorted_wrt (before asc) (map fst xs) \<Longrightarrow> sorted_wrt (before asc) (map fst (tl xs))"
  by (cases xs) auto

lemma list_all_tl: "list_all Q xs \<Longrightarrow> list_all Q (tl xs)"
  by (cases xs) auto

locale cachekv_env =
  parent: kvstore P vk inv contents it_inv it_items +
  lib: btree_lib lib t_ok elems bi_elems bi_pos
  for P :: "('s, 'i) kv_ops" and vk inv contents it_inv it_items
    and lib :: "('t, 'bi) btree_ops" and t_ok elems bi_elems bi_pos +
  fixes inDomain :: "bytes \<Rightarrow> slice \<Rightarrow> slice \<Rightarrow> bool"
  assumes inDomain: "inDomain k start end \<longleftrightarrow> in_domain start end k"
    and vk: "vk k \<Longrightarrow> valid_key k"

context cachekv_env
begin

abbreviation "cinv \<equiv> cachekv_inv vk inv t_ok elems"
abbreviation "ccontents \<equiv> cachekv_contents contents"

lemma parent_upd:
  assumes "cinv st" "inv s" shows "cinv (st\<lparr>ck_parent := s\<rparr>)"
  using assms by (simp add: cachekv_inv_def)

lemma Get_wp:
  assumes "cinv st" "vk k"
  shows "wp (cachekv_Get P (Some k)) (\<lambda>r st'. r = ccontents st k \<and> cinv st' \<and> ccontents st' = ccontents st) st"
proof (cases "map_of (ck_cache st) k")
  case None
  have "wp (kv_Get P (Some k)) (\<lambda>r s'. r = contents (ck_parent st) k \<and> inv s' \<and>
      contents s' = contents (ck_parent st)) (ck_parent st)"
    using parent.Get assms by (simp add: cachekv_inv_def)
  then have "wp (cachekv_getFromCache P (Some k)) (\<lambda>r st'. \<exists>s'. st' = st\<lparr>ck_parent := s'\<rparr> \<and>
      r = contents (ck_parent st) k \<and> inv s' \<and> contents s' = contents (ck_parent st)) st"
    using None by (auto simp: cachekv_getFromCache_def on_parent_def wp_simps elim!: wp_mono)
  with None assms vk [of k] show ?thesis
    by (auto simp: cachekv_Get_def wp_simps cachekv_contents_def overlaid_def cached_def parent_upd
      elim!: wp_mono)
next
  case (Some cv)
  with assms vk [of k] show ?thesis
    by (auto simp: cachekv_Get_def cachekv_getFromCache_def wp_simps cachekv_contents_def overlaid_def cached_def)
qed

lemma Has_wp:
  assumes "cinv st" "vk k"
  shows "wp (cachekv_Has P (Some k)) (\<lambda>r st'. r = (ccontents st k \<noteq> None) \<and> cinv st' \<and> ccontents st' = ccontents st) st"
  unfolding cachekv_Has_def wp_bind
  by (rule wp_mono [OF Get_wp [OF assms]]) (auto simp: wp_simps)

lemma setCacheValue_wp:
  assumes "cinv st" "vk k" "\<And>w. v = Some w \<Longrightarrow> valid_value w"
  shows "wp (cachekv_setCacheValue (Some k) v True)
    (\<lambda>_ st'. cinv st' \<and> ccontents st' = (ccontents st)(k := v) \<and> ck_parent st' = ck_parent st) st"
proof -
  let ?cv = "\<lparr>cv_value = v, cv_dirty = True\<rparr>"
  let ?st = "st\<lparr>ck_cache := AList.update k ?cv (ck_cache st), ck_unsorted := List.insert k (ck_unsorted st)\<rparr>"
  have c: "cached ?st = (cached st)(k \<mapsto> v)"
    by (simp add: cached_update)
  have "\<forall>(k', cv) \<in> set (AList.update k ?cv (ck_cache st)). vk k' \<and> cv_dirty cv \<and>
      (\<forall>w. cv_value cv = Some w \<longrightarrow> valid_value w)"
    using assms by (auto simp: cachekv_inv_def dest!: set_mp [OF set_update_subset])
  moreover have "distinct (map fst (AList.update k ?cv (ck_cache st)))"
    using assms(1) by (simp add: cachekv_inv_def distinct_update)
  ultimately have "cinv ?st"
    using assms(1) unfolding cachekv_inv_def c by (auto simp: subset_iff)
  then show ?thesis
    by (simp add: cachekv_setCacheValue_def wp_simps cached_update cachekv_contents_def overlaid_upd)
qed

text \<open>\<open>Write\<close> leaves in the parent what the cached store showed, and keeps the cache.\<close>

lemma Write_wp:
  assumes "cinv st"
  shows "wp (cachekv_Write P) (\<lambda>_ st'. \<exists>s. st' = st\<lparr>ck_parent := s\<rparr> \<and> inv s \<and>
    contents s = ccontents st \<and> cinv st' \<and> ccontents st' = ccontents st) st"
proof -
  define Inv where "Inv pre st' \<longleftrightarrow> (\<exists>s. st' = st\<lparr>ck_parent := s\<rparr> \<and> inv s \<and>
    contents s = overlaid (map_option cv_value \<circ> map_of pre) (contents (ck_parent st)))" for pre :: "(bytes \<times> cValue) list" and st'
  have "wp (go_for (ck_cache st) (write_entry P)) (\<lambda>_. Inv (ck_cache st)) st"
  proof (rule wp_go_for [where Inv = Inv])
    show "Inv [] st"
      using assms by (auto simp: Inv_def cachekv_inv_def overlaid_def intro!: exI [of _ "ck_parent st"])
  next
    fix pre x post st'
    assume xs: "ck_cache st = pre @ x # post" and "Inv pre st'"
    then obtain s where s: "st' = st\<lparr>ck_parent := s\<rparr>" "inv s"
      "contents s = overlaid (map_option cv_value \<circ> map_of pre) (contents (ck_parent st))"
      by (auto simp: Inv_def)
    obtain k cv where x: "x = (k, cv)" by (cases x)
    have k: "vk k" "cv_dirty cv" "\<And>v. cv_value cv = Some v \<Longrightarrow> valid_value v" "k \<notin> fst ` set pre"
      using assms xs x by (auto simp: cachekv_inv_def)
    then have "map_of (pre @ [x]) = (map_of pre)(k \<mapsto> cv)"
      by (simp add: x map_of_snoc del: map_of_append)
    then have m: "overlaid (map_option cv_value \<circ> map_of (pre @ [x])) (contents (ck_parent st)) =
        (contents s)(k := cv_value cv)"
      by (auto simp: s(3) overlaid_def fun_eq_iff)
    show "wp (write_entry P x) (\<lambda>_. Inv (pre @ [x])) st'"
    proof (cases "cv_value cv")
      case None
      have "wp (kv_Delete P (Some k)) (\<lambda>_ s'. inv s' \<and> contents s' = (contents s)(k := None)) s"
        using parent.Delete s(2) k(1) .
      with None k m s(1) x show ?thesis
        by (auto simp: write_entry_def on_parent_def wp_simps Inv_def elim!: wp_mono)
    next
      case (Some v)
      have "wp (kv_Set P (Some k) (Some v)) (\<lambda>_ s'. inv s' \<and> contents s' = (contents s)(k \<mapsto> v)) s"
        using parent.Set s(2) k(1) k(3) [OF Some] .
      with Some k m s(1) x show ?thesis
        by (auto simp: write_entry_def on_parent_def wp_simps Inv_def elim!: wp_mono)
    qed
  qed
  then show ?thesis
    unfolding cachekv_Write_def wp_bind wp_read
    by (rule wp_mono)
      (use assms in \<open>auto simp: Inv_def cachekv_contents_def cached_def [symmetric] overlaid_idem parent_upd\<close>)
qed

text \<open>The keys that are moved to the sorted cache.\<close>

lemma dirty_pairs_eq:
  assumes "cinv st"
  shows "dirty_pairs inDomain start end st =
    map (\<lambda>k. (Some k, the (cached st k))) (filter (in_domain start end) (ck_unsorted st))"
proof -
  have "List.map_filter (\<lambda>k. if inDomain k start end
        then map_option (\<lambda>cv. (Some k, cv_value cv)) (map_of (ck_cache st) k) else None) ks =
      map (\<lambda>k. (Some k, the (cached st k))) (filter (in_domain start end) ks)"
    if "set ks \<subseteq> dom (cached st)" for ks
    using that by (induction ks) (auto simp: map_filter_simps inDomain cached_def)
  with assms show ?thesis
    by (simp add: dirty_pairs_def cachekv_inv_def)
qed

lemma deleteKeys_run:
  "deleteKeysFromUnsortedCache (map (\<lambda>k. (Some k, f k)) ks) st =
     Some (Inr (), st\<lparr>ck_unsorted := filter (\<lambda>k. k \<notin> set ks) (ck_unsorted st)\<rparr>)"
  unfolding deleteKeysFromUnsortedCache_def
proof (induction ks arbitrary: st)
  case Nil
  then show ?case by (simp add: ret_def)
next
  case (Cons k ks)
  then show ?case
    by (auto simp: go_bind_apply go_modify_def removeAll_filter_not_eq intro!: arg_cong [of _ _ "\<lambda>u. st\<lparr>ck_unsorted := u\<rparr>"] filter_cong)
qed

lemma setAll_run:
  assumes "t_ok t" "\<forall>e \<in> set (elems t). key e \<noteq> None" "ck_sorted st = Some t"
  shows "\<exists>t'. go_for (map (\<lambda>k. (Some k, f k)) ks) (\<lambda>it. on_sorted (BTree_Set lib (fst it) (snd it))) st =
      Some (Inr (), st\<lparr>ck_sorted := Some t'\<rparr>) \<and> t_ok t' \<and> (\<forall>e \<in> set (elems t'). key e \<noteq> None) \<and>
      map_of (map entry (elems t')) = map_of (map entry (elems t)) ++ map_of (map (\<lambda>k. (k, f k)) ks)"
  using assms
proof (induction ks arbitrary: st t)
  case Nil
  then show ?case by (auto simp: ret_def intro!: exI [of _ t])
next
  case (Cons k ks)
  let ?t = "bt_Set lib (newItem (Some k) (f k)) t"
  have step: "on_sorted (BTree_Set lib (Some k) (f k)) st = Some (Inr (), st\<lparr>ck_sorted := Some ?t\<rparr>)"
    using Cons.prems(3) by (simp add: on_sorted_def BTree_Set_def BTree_tree_def go_defs)
  obtain t' where t': "go_for (map (\<lambda>k. (Some k, f k)) ks) (\<lambda>it. on_sorted (BTree_Set lib (fst it) (snd it))) (st\<lparr>ck_sorted := Some ?t\<rparr>) =
      Some (Inr (), st\<lparr>ck_sorted := Some t'\<rparr>)" "t_ok t'" "\<forall>e \<in> set (elems t'). key e \<noteq> None"
      "map_of (map entry (elems t')) = map_of (map entry (elems ?t)) ++ map_of (map (\<lambda>k. (k, f k)) ks)"
    using Cons.IH [of ?t "st\<lparr>ck_sorted := Some ?t\<rparr>"] lib.Set_keys [OF Cons.prems(1,2)] by auto
  moreover have "map_of (map entry (elems ?t)) ++ map_of (map (\<lambda>k. (k, f k)) ks) =
      map_of (map entry (elems t)) ++ map_of (map (\<lambda>k. (k, f k)) (k # ks))"
    by (auto simp: lib.Set_map [OF Cons.prems(1)] map_add_def fun_eq_iff map_of_map_restrict restrict_map_def
      simp del: map_map)
  moreover have "go_for (map (\<lambda>k. (Some k, f k)) (k # ks)) (\<lambda>it. on_sorted (BTree_Set lib (fst it) (snd it))) st =
      Some (Inr (), st\<lparr>ck_sorted := Some t'\<rparr>)"
    using step t'(1) by (simp add: go_bind_apply)
  ultimately show ?case by metis
qed

text \<open>After \<open>dirtyItems\<close> the sorted cache agrees with the cache on the whole domain.\<close>

lemma clear_run:
  assumes inv: "cinv st" and ks: "set ks \<subseteq> set (ck_unsorted st)"
  shows "\<exists>t u. clearUnsortedCacheSubset lib (map (\<lambda>k. (Some k, the (cached st k))) ks) stateAlreadySorted st =
      Some (Inr (), st\<lparr>ck_unsorted := u, ck_sorted := Some t\<rparr>) \<and>
      cinv (st\<lparr>ck_unsorted := u, ck_sorted := Some t\<rparr>) \<and> set u = set (ck_unsorted st) - set ks"
proof -
  let ?f = "\<lambda>k. the (cached st k)"
  define u where "u = filter (\<lambda>k. k \<notin> set ks) (ck_unsorted st)"
  define t where "t = (case ck_sorted st of None \<Rightarrow> bt_New lib byKeys | Some t \<Rightarrow> t)"
  define st1 where "st1 = st\<lparr>ck_unsorted := u, ck_sorted := Some t\<rparr>"
  have t: "t_ok t" "\<forall>e \<in> set (elems t). key e \<noteq> None" "map_of (map entry (elems t)) = tree_map elems (ck_sorted st)"
    using inv lib.New by (auto simp: t_def cachekv_inv_def tree_ok_def tree_map_def split: option.splits)
  obtain t' where t': "go_for (map (\<lambda>k. (Some k, ?f k)) ks) (\<lambda>it. on_sorted (BTree_Set lib (fst it) (snd it))) st1 =
      Some (Inr (), st1\<lparr>ck_sorted := Some t'\<rparr>)" "t_ok t'" "\<forall>e \<in> set (elems t'). key e \<noteq> None"
      "map_of (map entry (elems t')) = map_of (map entry (elems t)) ++ map_of (map (\<lambda>k. (k, ?f k)) ks)"
    using setAll_run [OF t(1,2), of st1 ?f ks] by (auto simp: st1_def)
  have "(let v = st\<lparr>ck_unsorted := u\<rparr> in if BTree_IsNil (ck_sorted v) then v\<lparr>ck_sorted := NewBTree lib\<rparr> else v) = st1"
    by (cases st; cases "ck_sorted st") (simp_all add: BTree_IsNil_def NewBTree_def t_def st1_def)
  then have "clearUnsortedCacheSubset lib (map (\<lambda>k. (Some k, ?f k)) ks) stateAlreadySorted st =
      Some (Inr (), st\<lparr>ck_unsorted := u, ck_sorted := Some t'\<rparr>)"
    using t'(1) unfolding clearUnsortedCacheSubset_def
    by (simp add: go_bind_apply deleteKeys_run go_modify_def Let_def flip: u_def) (simp add: st1_def)
  moreover have m: "tree_map elems (Some t') k = (if k \<in> set ks then cached st k else tree_map elems (ck_sorted st) k)" for k
  proof -
    have "k \<in> set ks \<Longrightarrow> Some (the (cached st k)) = cached st k"
      using ks inv by (auto simp: cachekv_inv_def)
    then show ?thesis
      unfolding tree_map_def t(3) [unfolded tree_map_def] t'(4) option.case
      by (auto simp: map_add_def map_of_map_restrict restrict_map_def tree_map_def simp flip: t(3) split: option.splits)
  qed
  have "cinv (st\<lparr>ck_unsorted := u, ck_sorted := Some t'\<rparr>)"
  proof -
    have "dom (tree_map elems (Some t')) \<subseteq> dom (cached st)"
      using inv m by (auto simp: cachekv_inv_def dom_def split: if_splits)
    moreover have "tree_map elems (Some t') k = cached st k" if "k \<notin> set u" for k
      using inv m that by (auto simp: cachekv_inv_def u_def)
    ultimately show ?thesis
      using inv t'(2,3) by (auto simp: cachekv_inv_def u_def tree_ok_def)
  qed
  ultimately show ?thesis by (intro exI [of _ t'] exI [of _ u]) (auto simp: u_def)
qed

lemma dirtyItems_run:
  assumes inv: "cinv st" and range: "ok_range start end"
  shows "\<exists>t u. dirtyItems lib inDomain start end st = Some (Inr (), st\<lparr>ck_unsorted := u, ck_sorted := Some t\<rparr>) \<and>
      cinv (st\<lparr>ck_unsorted := u, ck_sorted := Some t\<rparr>) \<and>
      (\<forall>k. in_domain start end k \<longrightarrow> tree_map elems (Some t) k = cached st k)"
proof -
  have nle: "\<not> (end \<noteq> None \<and> bs start > bs end)"
    using range by (cases "end") (auto simp: ok_range_def)
  obtain t u where c: "clearUnsortedCacheSubset lib (dirty_pairs inDomain start end st) stateAlreadySorted st =
      Some (Inr (), st\<lparr>ck_unsorted := u, ck_sorted := Some t\<rparr>)"
      "cinv (st\<lparr>ck_unsorted := u, ck_sorted := Some t\<rparr>)"
      "set u = set (ck_unsorted st) - set (filter (in_domain start end) (ck_unsorted st))"
    using clear_run [OF inv, of "filter (in_domain start end) (ck_unsorted st)"] dirty_pairs_eq [OF inv] by auto
  have "tree_map elems (Some t) k = cached st k" if "in_domain start end k" for k
    using c(2,3) that by (auto simp: cachekv_inv_def)
  moreover have "dirtyItems lib inDomain start end st = Some (Inr (), st\<lparr>ck_unsorted := u, ck_sorted := Some t\<rparr>)"
    using nle c(1) unfolding dirtyItems_def by (auto simp: go_bind_apply go_read_def)
  ultimately show ?thesis using c(2) by blast
qed

text \<open>The two iterators under a merge iterator.\<close>

definition both_inv :: "bool \<Rightarrow> ('s \<times> 'i) \<times> 'bi memIterator \<Rightarrow> bool" where
  "both_inv asc x \<longleftrightarrow> inv (fst (fst x)) \<and> it_inv (fst x) \<and>
     sorted_wrt (before asc) (map fst (it_items (fst x))) \<and> list_all live (it_items (fst x)) \<and>
     mi_ok bi_elems bi_pos (snd x) \<and> sorted_wrt (before asc) (map fst (mi_items bi_elems bi_pos (snd x)))"

lemma overlay_both:
  "overlay (parent_it P) (cache_it lib) (both_inv asc) (it_items \<circ> fst) (mi_items bi_elems bi_pos \<circ> snd)
     (\<lambda>x. (contents (fst (fst x)), snd x)) fst asc (contents \<circ> fst \<circ> fst)"
proof -
  have "iterator (parent_it P) (both_inv asc) (it_items \<circ> fst) (\<lambda>x. (contents (fst (fst x)), snd x))"
    unfolding parent_it_def
    by (rule iterator_zoom [OF parent.iter]) (auto simp: both_inv_def sorted_tl list_all_tl)
  moreover have "iterator (cache_it lib) (both_inv asc) (mi_items bi_elems bi_pos \<circ> snd) fst"
    unfolding cache_it_def
    by (rule iterator_zoom [OF lib.mi.iterator_axioms]) (auto simp: both_inv_def sorted_tl)
  ultimately show ?thesis
    by (simp add: overlay_def overlay_axioms_def both_inv_def)
qed

abbreviation "mitems \<equiv> mi_items bi_elems bi_pos"
abbreviation "minv asc \<equiv> merge_inv (both_inv asc) (it_items \<circ> fst) (mitems \<circ> snd) asc"

lemma mem_items:
  assumes "t_ok t"
  shows "sorted_wrt (before asc) (map fst ((if asc then id else rev) (filter (\<lambda>e. in_domain start end (fst e)) (map entry (elems t)))))"
    "map_of ((if asc then id else rev) (filter (\<lambda>e. in_domain start end (fst e)) (map entry (elems t)))) k =
      (if in_domain start end k then tree_map elems (Some t) k else None)"
proof -
  let ?ys = "filter (\<lambda>e. in_domain start end (fst e)) (map entry (elems t))"
  have "sorted_wrt (\<lambda>a b. fst a < fst b) (map entry (elems t))"
    using lib.elems_sorted [OF assms] by (simp add: sorted_wrt_map byKeys_less [abs_def] entry_def)
  then have s: "sorted_wrt (\<lambda>a b. fst a < fst b) ?ys" by (rule sorted_wrt_filter)
  then show "sorted_wrt (before asc) (map fst ((if asc then id else rev) ?ys))"
    by (cases asc) (simp_all add: sorted_wrt_map sorted_wrt_rev rev_map [symmetric])
  have "distinct (map fst ?ys)"
    using s by (simp add: sorted_wrt_map [symmetric] strict_sorted_iff)
  then have "map_of (rev ?ys) = map_of ?ys"
    by (subst map_of_inject_set) (simp_all add: rev_map [symmetric])
  then show "map_of ((if asc then id else rev) ?ys) k = (if in_domain start end k then tree_map elems (Some t) k else None)"
    by (simp add: map_of_filter_key tree_map_def)
qed

lemma iterator_of_wp:
  assumes inv: "cinv st" and range: "ok_range start end"
  shows "wp (iterator_of P lib inDomain start end asc) (\<lambda>i st'. cinv st' \<and> ccontents st' = ccontents st \<and>
    ascending_of (st', i) = asc \<and> minv asc (get_merge (st', i)) \<and>
    covers (ccontents st) start end asc
      (merged asc (it_items (fst (fst (get_merge (st', i))))) (mitems (snd (fst (get_merge (st', i))))))) st"
proof -
  obtain t u where d: "dirtyItems lib inDomain start end st = Some (Inr (), st\<lparr>ck_unsorted := u, ck_sorted := Some t\<rparr>)"
      "cinv (st\<lparr>ck_unsorted := u, ck_sorted := Some t\<rparr>)"
      "\<And>k. in_domain start end k \<Longrightarrow> tree_map elems (Some t) k = cached st k"
    using dirtyItems_run [OF inv range] by blast
  obtain c t' where c: "bt_Copy lib t = (c, t')" by fastforce
  have t: "t_ok t" "\<forall>e \<in> set (elems t). key e \<noteq> None"
    using d(2) by (auto simp: cachekv_inv_def tree_ok_def)
  then have c': "t_ok c" "elems c = elems t" "t_ok t'" "elems t' = elems t"
    using lib.Copy [OF t(1) c] by auto
  define st1 where "st1 = st\<lparr>ck_unsorted := u, ck_sorted := Some t'\<rparr>"
  have st1: "cinv st1" "ck_parent st1 = ck_parent st" "cached st1 = cached st"
    using d(2) c' by (auto simp: st1_def cachekv_inv_def tree_ok_def tree_map_def)
  have copy: "on_sorted (BTree_Copy lib) (st\<lparr>ck_unsorted := u, ck_sorted := Some t\<rparr>) = Some (Inr (Some c), st1)"
    by (simp add: on_sorted_def BTree_Copy_def BTree_tree_def c go_defs st1_def)
  have "wp (if asc then kv_Iterator P start end else kv_ReverseIterator P start end)
      (\<lambda>i s'. inv s' \<and> contents s' = contents (ck_parent st) \<and> it_inv (s', i) \<and>
        covers (contents (ck_parent st)) start end asc (it_items (s', i))) (ck_parent st)"
    using parent.Iterator parent.ReverseIterator inv range by (cases asc) (auto simp: cachekv_inv_def)
  then obtain i s where p: "(if asc then kv_Iterator P start end else kv_ReverseIterator P start end) (ck_parent st) = Some (Inr i, s)"
      "inv s" "contents s = contents (ck_parent st)" "it_inv (s, i)"
      "covers (contents (ck_parent st)) start end asc (it_items (s, i))"
    by (auto elim!: wpE)
  define st2 where "st2 = st1\<lparr>ck_parent := s\<rparr>"
  have parent: "on_parent (if asc then kv_Iterator P start end else kv_ReverseIterator P start end) st1 = Some (Inr i, st2)"
    using p(1) st1(2) by (simp add: on_parent_def go_zoom_def st2_def)
  have st2: "cinv st2" "cached st2 = cached st" "ck_parent st2 = s"
    using st1 parent_upd p(2) by (simp_all add: st2_def)
  let ?ys = "(if asc then id else rev) (filter (\<lambda>e. in_domain start end (fst e)) (map entry (elems c)))"
  obtain m where m: "newMemIterator lib start end asc (Some c) = Some (Inr m, Some c)"
      "mi_ok bi_elems bi_pos m" "mitems m = ?ys"
    using lib.newMemIterator_run [OF c'(1), of start "end" asc] t(2) c'(2) by (auto elim!: wpE)
  have nb: "\<not> empty_bound start" "\<not> empty_bound end"
    using range by (auto simp: ok_range_def ok_bound_def empty_bound_def)
  have mem: "(if asc then BTree_Iterator lib start end else BTree_ReverseIterator lib start end) (Some c) =
      Some (Inr (Inr m), Some c)"
    using m(1) nb by (cases asc) (simp_all add: BTree_Iterator_def BTree_ReverseIterator_def go_bind_apply ret_def)
  have sorted: "sorted_wrt (before asc) (map fst ?ys)"
    and ys: "\<And>k. map_of ?ys k = (if in_domain start end k then cached st k else None)"
    using mem_items(1) [OF c'(1), of asc start "end"] mem_items(2) [OF c'(1), of asc start "end"] d(3) c'(2)
    by (simp_all add: tree_map_def)
  have I: "both_inv asc ((s, i), m)"
    using p m sorted covers_live [OF p(5)] by (simp add: both_inv_def covers_def)
  obtain valid x where x: "NewCacheMergeIterator (parent_it P) (cache_it lib) asc ((s, i), m) = Some (Inr valid, x)"
      "minv asc (x, valid)" "contents (fst (fst x)) = contents s"
      "merged asc (it_items (fst x)) (mitems (snd x)) = merged asc (it_items (s, i)) ?ys"
    using overlay.NewCacheMergeIterator_wp [OF overlay_both I] m(3) by (auto elim!: wpE)
  obtain s' i' m' where xe: "x = ((s', i'), m')" by (cases x) auto
  let ?st = "st2\<lparr>ck_parent := s'\<rparr>" and ?i = "(i', m', valid, asc)"
  have "iterator_of P lib inDomain start end asc st = Some (Inr ?i, ?st)"
    using d(1) copy parent mem x(1) xe st2(3)
    by (simp add: iterator_of_def go_bind_apply go_local_def go_zoom_def ret_def)
  moreover have "cinv ?st"
    using st2(1) x(2) xe parent_upd by (simp add: merge_inv_def both_inv_def)
  moreover have "ccontents ?st = ccontents st"
    using x(3) xe p(3) st2(2) by (simp add: cachekv_contents_def)
  moreover have "covers (ccontents st) start end asc (merged asc (it_items (s, i)) ?ys)"
    unfolding cachekv_contents_def by (rule merged_covers [OF p(5) sorted ys])
  ultimately show ?thesis
    using x(2,4) xe by (simp add: wp_def ascending_of_def)
qed

definition cit_inv :: "('s, 't) cachekv \<times> ('i, 'bi) cit \<Rightarrow> bool" where
  "cit_inv x \<longleftrightarrow> minv (ascending_of x) (get_merge x)"

definition cit_items :: "('s, 't) cachekv \<times> ('i, 'bi) cit \<Rightarrow> (bytes \<times> slice) list" where
  "cit_items x = merged (ascending_of x) (it_items (fst (fst (get_merge x)))) (mitems (snd (fst (get_merge x))))"

lemma get_put_merge [simp]: "get_merge (put_merge y x) = y"
  by (cases y; cases x) auto

lemma ascending_put_merge [simp]: "ascending_of (put_merge y x) = ascending_of x"
  by (cases y; cases x) (auto simp: ascending_of_def)

lemma put_merge_fst: "fst (put_merge y x) = (fst x)\<lparr>ck_parent := fst (fst (fst y))\<rparr>"
  by (cases y; cases x) auto

lemma get_merge_parent: "fst (fst (fst (get_merge x))) = ck_parent (fst x)"
  by (cases x) auto

lemma cachekv_iterator:
  "iterator (cachekv_iter P lib) (\<lambda>x. cinv (fst x) \<and> cit_inv x) cit_items (ccontents \<circ> fst)"
  unfolding cachekv_iter_def
proof (rule iterator_dyn [where tag = ascending_of], rule iterator_items_cong [OF iterator_zoom [OF overlay.merge_iterator [OF overlay_both]]])
  fix a and y :: "(('s \<times> 'i) \<times> 'bi memIterator) \<times> bool" and x :: "('s, 't) cachekv \<times> ('i, 'bi) cit"
  assume J: "(cinv (fst x) \<and> cit_inv x) \<and> ascending_of x = a"
  show "minv a (get_merge x)" using J by (auto simp: cit_inv_def)
  assume "minv a y"
  with J show "(cinv (fst (put_merge y x)) \<and> cit_inv (put_merge y x)) \<and> ascending_of (put_merge y x) = a"
    by (simp add: cit_inv_def put_merge_fst parent_upd merge_inv_def both_inv_def)
next
  fix y :: "(('s \<times> 'i) \<times> 'bi memIterator) \<times> bool" and x :: "('s, 't) cachekv \<times> ('i, 'bi) cit"
  assume "((contents \<circ> fst \<circ> fst) \<circ> fst) y = ((contents \<circ> fst \<circ> fst) \<circ> fst) (get_merge x)"
  then show "(ccontents \<circ> fst) (put_merge y x) = (ccontents \<circ> fst) x"
    by (simp add: put_merge_fst cachekv_contents_def get_merge_parent)
qed (auto simp: cit_items_def)

lemma cachekv_Close:
  assumes "cinv st" "cit_inv (st, i)"
  shows "wp (it_Close (cachekv_iter P lib)) (\<lambda>_ x'. cinv (fst x') \<and> ccontents (fst x') = ccontents st) (st, i)"
proof -
  obtain pi m v a where i: "i = (pi, m, v, a)" by (cases i) auto
  have "inv (ck_parent st)" "it_inv (ck_parent st, pi)"
    using assms(2) i by (auto simp: cit_inv_def merge_inv_def both_inv_def)
  then obtain e s pi' where c: "it_Close (kv_iter P) (ck_parent st, pi) = Some (Inr e, (s, pi'))"
      "inv s" "contents s = contents (ck_parent st)"
    using parent.Close by (fastforce elim!: wpE)
  then show ?thesis
    using assms(1) i parent_upd [OF assms(1) c(2)]
    by (simp add: wp_def cachekv_iter_def dyn_iter_def merge_ops_def merge_Close_def parent_it_def cache_it_def
      mi_ops_def mi_Close_def on_fst_def go_defs cachekv_contents_def)
qed

end

text \<open>The cached store keeps the contract of the store it wraps.\<close>

sublocale cachekv_env \<subseteq> cached: kvstore "cachekv_ops P lib inDomain" vk cinv ccontents cit_inv cit_items
proof (rule kvstore.intro)
  fix st k v start "end"
  assume inv: "cinv st"
  { assume k: "vk k"
    show "wp (kv_Get (cachekv_ops P lib inDomain) (Some k)) (\<lambda>r s'. r = ccontents st k \<and> cinv s' \<and> ccontents s' = ccontents st) st"
      using Get_wp [OF inv k] by (simp add: cachekv_ops_def)
    show "wp (kv_Has (cachekv_ops P lib inDomain) (Some k)) (\<lambda>r s'. r = (ccontents st k \<noteq> None) \<and> cinv s' \<and> ccontents s' = ccontents st) st"
      using Has_wp [OF inv k] by (simp add: cachekv_ops_def)
    show "wp (kv_Delete (cachekv_ops P lib inDomain) (Some k)) (\<lambda>_ s'. cinv s' \<and> ccontents s' = (ccontents st)(k := None)) st"
      using setCacheValue_wp [OF inv k, of None] vk [OF k]
      by (auto simp: cachekv_ops_def cachekv_Delete_def wp_simps elim!: wp_mono)
    assume "valid_value v"
    then show "wp (kv_Set (cachekv_ops P lib inDomain) (Some k) (Some v)) (\<lambda>_ s'. cinv s' \<and> ccontents s' = (ccontents st)(k \<mapsto> v)) st"
      using setCacheValue_wp [OF inv k, of "Some v"] vk [OF k]
      by (auto simp: cachekv_ops_def cachekv_Set_def wp_simps elim!: wp_mono) }
  { assume r: "ok_range start end"
    show "wp (kv_Iterator (cachekv_ops P lib inDomain) start end) (\<lambda>i s'. cinv s' \<and> ccontents s' = ccontents st \<and>
        cit_inv (s', i) \<and> covers (ccontents st) start end True (cit_items (s', i))) st"
      using iterator_of_wp [OF inv r, of True]
      by (auto simp: cachekv_ops_def cachekv_Iterator_def cit_inv_def cit_items_def elim!: wp_mono)
    show "wp (kv_ReverseIterator (cachekv_ops P lib inDomain) start end) (\<lambda>i s'. cinv s' \<and> ccontents s' = ccontents st \<and>
        cit_inv (s', i) \<and> covers (ccontents st) start end False (cit_items (s', i))) st"
      using iterator_of_wp [OF inv r, of False]
      by (auto simp: cachekv_ops_def cachekv_ReverseIterator_def cit_inv_def cit_items_def elim!: wp_mono) }
next
  show "iterator (kv_iter (cachekv_ops P lib inDomain)) (\<lambda>x. cinv (fst x) \<and> cit_inv x) cit_items (ccontents \<circ> fst)"
    using cachekv_iterator by (simp add: cachekv_ops_def)
next
  fix st i
  assume "cinv st" "cit_inv (st, i)"
  then show "wp (it_Close (kv_iter (cachekv_ops P lib inDomain)))
      (\<lambda>_ x'. cinv (fst x') \<and> ccontents (fst x') = ccontents st) (st, i)"
    using cachekv_Close by (simp add: cachekv_ops_def)
qed

context cachekv_env
begin

lemma cached_kvstore:
  "kvstore (cachekv_ops P lib inDomain) vk (cachekv_inv vk inv t_ok elems) (cachekv_contents contents) cit_inv cit_items"
  by (rule cached.kvstore_axioms)

lemma cached_keys_wp:
  assumes "cachekv_inv vk inv t_ok elems st" "ok_range start end"
  shows "wp (collect_keys (cachekv_ops P lib inDomain) start end) (\<lambda>ks st'.
    cachekv_inv vk inv t_ok elems st' \<and> cachekv_contents contents st' = cachekv_contents contents st \<and>
    sorted_wrt (<) ks \<and> set ks = {k \<in> dom (cachekv_contents contents st). in_domain start end k}) st"
  by (rule cached.iterate_keys [OF assms])

end

section \<open>Keys of a range\<close>

lemma range_entry_set:
  assumes "distinct (map fst es)"
  shows "set (range_entry start (Some e) ks es) =
    {k. if in_domain start (Some e) k \<and> k \<in> dom (map_of es)
        then cv_value (the (map_of es k)) \<noteq> None else k \<in> set ks}"
  using assms
proof (induction es arbitrary: ks)
  case (Cons x es)
  obtain kbz cv where x: "x = (kbz, cv)" by (cases x)
  have out: "(bytes_Compare kbz (bs start) < 0 \<or> bytes_Compare kbz (bs (Some e)) \<ge> 0) = (\<not> in_domain start (Some e) kbz)"
    by (auto simp: bytes_Compare_def in_domain_def)
  have k: "map_of es kbz = None" using Cons.prems x by (simp add: map_of_eq_None_iff)
  show ?case
    unfolding x range_entry.simps out using Cons.IH Cons.prems k
    by (auto simp: x split: if_splits)
qed simp

locale cachekv_keys_env =
  cachekv_env P vk inv contents it_inv it_items lib t_ok elems bi_elems bi_pos inDomain +
  keys: kvstore_keys P vk inv contents it_inv it_items
  for P :: "('s, 'i) kv_ops" and vk inv contents it_inv it_items
    and lib :: "('t, 'bi) btree_ops" and t_ok elems bi_elems bi_pos inDomain

context cachekv_keys_env
begin

lemma Keys_wp:
  assumes inv: "cinv st" and range: "ok_range start (Some e)"
  shows "wp (cachekv_GetAllKeyStrsInRange P start (Some e)) (\<lambda>ks st'. cinv st' \<and> ccontents st' = ccontents st \<and>
    set ks = {k \<in> dom (ccontents st). in_domain start (Some e) k}) st"
proof -
  have "inv (ck_parent st)" using inv by (simp add: cachekv_inv_def)
  then obtain pks s where p: "kv_GetAllKeyStrsInRange P start (Some e) (ck_parent st) = Some (Inr pks, s)" "inv s"
      "contents s = contents (ck_parent st)"
      "set pks = {k \<in> dom (contents (ck_parent st)). in_domain start (Some e) k}"
    using keys.Keys [OF _ range, of "ck_parent st"] unfolding wp_def by blast
  have "distinct (map fst (ck_cache st))" using inv by (simp add: cachekv_inv_def)
  then have "set (range_entry start (Some e) (remdups pks) (ck_cache st)) =
      {k \<in> dom (ccontents st). in_domain start (Some e) k}"
    using p(4) by (subst range_entry_set) (auto simp: cachekv_contents_def overlaid_def cached_def split: option.splits if_splits)
  then show ?thesis
    using p parent_upd [OF inv p(2)]
    by (simp add: wp_def cachekv_GetAllKeyStrsInRange_def on_parent_def go_defs cachekv_contents_def)
qed

text \<open>\<open>DeleteAll\<close> removes the range and nothing else.\<close>

lemma DeleteAll_wp:
  assumes inv: "cinv st" and range: "ok_range start (Some e)" and dom: "\<And>k. ccontents st k \<noteq> None \<Longrightarrow> vk k"
  shows "wp (cachekv_DeleteAll P start (Some e)) (\<lambda>err st'. err = None \<and> cinv st' \<and>
    ccontents st' = (\<lambda>k. if in_domain start (Some e) k then None else ccontents st k)) st"
proof -
  obtain ks st1 where k: "cachekv_GetAllKeyStrsInRange P start (Some e) st = Some (Inr ks, st1)" "cinv st1"
      "ccontents st1 = ccontents st" "set ks = {k \<in> dom (ccontents st). in_domain start (Some e) k}"
    using Keys_wp [OF inv range] unfolding wp_def by blast
  define Inv where "Inv pre st' \<longleftrightarrow> cinv st' \<and> ccontents st' = (\<lambda>k. if k \<in> set pre then None else ccontents st k)"
    for pre st'
  have "wp (go_for ks (\<lambda>k. cachekv_Delete (Some k))) (\<lambda>_. Inv ks) st1"
  proof (rule wp_go_for [where Inv = Inv])
    show "Inv [] st1" using k by (simp add: Inv_def)
  next
    fix pre x post st'
    assume xs: "ks = pre @ x # post" and I: "Inv pre st'"
    have x: "vk x" using k(4) xs dom by auto
    have "wp (cachekv_Delete (Some x)) (\<lambda>_ s'. cinv s' \<and> ccontents s' = (ccontents st')(x := None)) st'"
      using cached.Delete [of st' x] I x by (simp add: cachekv_ops_def Inv_def)
    then show "wp (cachekv_Delete (Some x)) (\<lambda>_. Inv (pre @ [x])) st'"
      by (rule wp_mono) (use I in \<open>auto simp: Inv_def fun_eq_iff\<close>)
  qed
  moreover have "(\<lambda>k. if k \<in> set ks then None else ccontents st k) =
      (\<lambda>k. if in_domain start (Some e) k then None else ccontents st k)"
    using k(4) by (auto simp: fun_eq_iff)
  ultimately show ?thesis
    using k(1) by (auto simp: wp_def cachekv_DeleteAll_def go_bind_apply ret_def Inv_def)
qed

end

sublocale cachekv_keys_env \<subseteq> cached_keys: kvstore_keys "cachekv_ops P lib inDomain" vk cinv ccontents cit_inv cit_items
  by (unfold_locales) (use Keys_wp in \<open>simp add: cachekv_ops_def\<close>)

lemma range_entry_nil_end: "range_entry start None ks es = ks"
  by (induction start "None :: slice" ks es rule: range_entry.induct) (auto simp: bytes_Compare_def)

end
