(* ===== verification/DB_Adapter.thy ===== *)
theory DB_Adapter
  imports Cache_KV
begin

text \<open>
  dbadapter/store.go, transient/store.go, mem/store.go and rootmulti/dbadapter.go: the leaves of the
  store stack, over a database of github.com/cosmos/cosmos-db. The database is a record of the
  methods of its interface \<open>dbm.DB\<close>, with its documentation as the locale \<open>database\<close>; the adapter
  turns errors into panics and keeps the \<open>KVStore\<close> contract.
\<close>

section \<open>The database interface\<close>

text \<open>A method that can fail returns \<open>Inl\<close> an error message.\<close>

record ('d, 'di) db_ops =
  db_Get :: "slice \<Rightarrow> ('d, string + slice) go"
  db_Has :: "slice \<Rightarrow> ('d, string + bool) go"
  db_Set :: "slice \<Rightarrow> slice \<Rightarrow> ('d, string option) go"
  db_Delete :: "slice \<Rightarrow> ('d, string option) go"
  db_Iterator :: "slice \<Rightarrow> slice \<Rightarrow> ('d, string + 'di) go"
  db_ReverseIterator :: "slice \<Rightarrow> slice \<Rightarrow> ('d, string + 'di) go"
  db_iter :: "('d \<times> 'di) iter_ops"

locale database =
  fixes db :: "('d, 'di) db_ops"
    and d_inv :: "'d \<Rightarrow> bool"
    and d_contents :: "'d \<Rightarrow> bytes \<rightharpoonup> bytes"
    and di_inv :: "'d \<times> 'di \<Rightarrow> bool"
    and di_items :: "'d \<times> 'di \<Rightarrow> (bytes \<times> slice) list"
  assumes Get: "d_inv d \<Longrightarrow> k \<noteq> [] \<Longrightarrow>
      wp (db_Get db (Some k)) (\<lambda>r d'. r = Inr (d_contents d k) \<and> d_inv d' \<and> d_contents d' = d_contents d) d"
    and Has: "d_inv d \<Longrightarrow> k \<noteq> [] \<Longrightarrow>
      wp (db_Has db (Some k)) (\<lambda>r d'. r = Inr (d_contents d k \<noteq> None) \<and> d_inv d' \<and> d_contents d' = d_contents d) d"
    and Set: "d_inv d \<Longrightarrow> k \<noteq> [] \<Longrightarrow>
      wp (db_Set db (Some k) (Some v)) (\<lambda>e d'. e = None \<and> d_inv d' \<and> d_contents d' = (d_contents d)(k \<mapsto> v)) d"
    and Delete: "d_inv d \<Longrightarrow> k \<noteq> [] \<Longrightarrow>
      wp (db_Delete db (Some k)) (\<lambda>e d'. e = None \<and> d_inv d' \<and> d_contents d' = (d_contents d)(k := None)) d"
    and Iterator: "d_inv d \<Longrightarrow> ok_range start end \<Longrightarrow>
      wp (db_Iterator db start end) (\<lambda>r d'. d_inv d' \<and> d_contents d' = d_contents d \<and>
        (\<exists>i. r = Inr i \<and> di_inv (d', i) \<and> covers (d_contents d) start end True (di_items (d', i)))) d"
    and ReverseIterator: "d_inv d \<Longrightarrow> ok_range start end \<Longrightarrow>
      wp (db_ReverseIterator db start end) (\<lambda>r d'. d_inv d' \<and> d_contents d' = d_contents d \<and>
        (\<exists>i. r = Inr i \<and> di_inv (d', i) \<and> covers (d_contents d) start end False (di_items (d', i)))) d"
    and db_iterator: "iterator (db_iter db) (\<lambda>x. d_inv (fst x) \<and> di_inv x) di_items (d_contents \<circ> fst)"
    and db_Close: "d_inv d \<Longrightarrow> di_inv (d, i) \<Longrightarrow>
      wp (it_Close (db_iter db)) (\<lambda>_ x'. d_inv (fst x') \<and> d_contents (fst x') = d_contents d) (d, i)"

section \<open>dbadapter.Store\<close>

definition or_panic :: "string + 'a \<Rightarrow> ('s, 'a) go" where
  "or_panic r = (case r of Inl err \<Rightarrow> go_panic (Panic_err err) | Inr x \<Rightarrow> ret x)"

definition panic_on :: "string option \<Rightarrow> ('s, unit) go" where
  "panic_on e = (case e of Some err \<Rightarrow> go_panic (Panic_err err) | None \<Rightarrow> ret ())"

lemma wp_or_panic [wp_simps]: "wp (or_panic r) Q s \<longleftrightarrow> (\<exists>x. r = Inr x \<and> Q x s)"
  by (auto simp: or_panic_def wp_simps split: sum.splits)

lemma wp_panic_on [wp_simps]: "wp (panic_on e) Q s \<longleftrightarrow> e = None \<and> Q () s"
  by (auto simp: panic_on_def wp_simps split: option.splits)

definition dbadapter_Get :: "('d, 'di) db_ops \<Rightarrow> slice \<Rightarrow> ('d, slice) go" where
  "dbadapter_Get db k = go_bind (db_Get db k) or_panic"

definition dbadapter_Has :: "('d, 'di) db_ops \<Rightarrow> slice \<Rightarrow> ('d, bool) go" where
  "dbadapter_Has db k = go_bind (db_Has db k) or_panic"

definition dbadapter_Set :: "('d, 'di) db_ops \<Rightarrow> slice \<Rightarrow> slice \<Rightarrow> ('d, unit) go" where
  "dbadapter_Set db k v =
     go_bind (AssertValidKey k) (\<lambda>_.
     go_bind (AssertValidValue v) (\<lambda>_.
     go_bind (db_Set db k v) panic_on))"

definition dbadapter_Delete :: "('d, 'di) db_ops \<Rightarrow> slice \<Rightarrow> ('d, unit) go" where
  "dbadapter_Delete db k = go_bind (db_Delete db k) panic_on"

definition dbadapter_Iterator :: "('d, 'di) db_ops \<Rightarrow> slice \<Rightarrow> slice \<Rightarrow> ('d, 'di) go" where
  "dbadapter_Iterator db start end = go_bind (db_Iterator db start end) or_panic"

definition dbadapter_ReverseIterator :: "('d, 'di) db_ops \<Rightarrow> slice \<Rightarrow> slice \<Rightarrow> ('d, 'di) go" where
  "dbadapter_ReverseIterator db start end = go_bind (db_ReverseIterator db start end) or_panic"

text \<open>The loop of \<open>GetAllKeyStrsInRange\<close> and of the first half of \<open>DeleteAll\<close>.\<close>

definition dbadapter_keys :: "('d, 'di) db_ops \<Rightarrow> slice \<Rightarrow> slice \<Rightarrow> ('d, bytes list) go" where
  "dbadapter_keys db start end =
     with_iter (dbadapter_Iterator db start end)
       (go_bind (iter_keys (db_iter db) []) (\<lambda>ks.
        go_bind (it_Close (db_iter db)) (\<lambda>_. ret ks)))"

definition dbadapter_GetAllKeyStrsInRange :: "('d, 'di) db_ops \<Rightarrow> slice \<Rightarrow> slice \<Rightarrow> ('d, bytes list) go" where
  "dbadapter_GetAllKeyStrsInRange db start end = dbadapter_keys db start end"

definition dbadapter_DeleteAll :: "('d, 'di) db_ops \<Rightarrow> slice \<Rightarrow> slice \<Rightarrow> ('d, string option) go" where
  "dbadapter_DeleteAll db start end =
     go_bind (dbadapter_keys db start end) (\<lambda>keys.
     go_bind (go_for keys (\<lambda>k. dbadapter_Delete db (Some k))) (\<lambda>_. ret None))"

definition dbadapter_CacheWrap :: "'d \<Rightarrow> ('d, 't) cachekv" where
  "dbadapter_CacheWrap d = cachekv_NewStore d"

definition dbadapter_VersionExists :: "64 word \<Rightarrow> ('d, bool) go" where
  "dbadapter_VersionExists version = go_panic (Panic_str ''no versioning for dbadater'')"

text \<open>The embedding stores only override \<open>GetStoreType\<close>.\<close>

definition dbadapter_ops_of :: "StoreType \<Rightarrow> ('d, 'di) db_ops \<Rightarrow> ('d, 'di) kv_ops" where
  "dbadapter_ops_of ty db = \<lparr>
     kv_GetStoreType = (\<lambda>_. ty),
     kv_Get = dbadapter_Get db,
     kv_Has = dbadapter_Has db,
     kv_Set = dbadapter_Set db,
     kv_Delete = dbadapter_Delete db,
     kv_Iterator = dbadapter_Iterator db,
     kv_ReverseIterator = dbadapter_ReverseIterator db,
     kv_GetAllKeyStrsInRange = dbadapter_GetAllKeyStrsInRange db,
     kv_iter = db_iter db \<rparr>"

definition dbadapter_ops :: "('d, 'di) db_ops \<Rightarrow> ('d, 'di) kv_ops" where
  "dbadapter_ops db = dbadapter_ops_of StoreTypeDB db"

section \<open>The in-memory stores\<close>

record CommitID =
  ci_Version :: "64 word"
  ci_Hash :: slice

definition CommitID_zero :: CommitID where
  "CommitID_zero = \<lparr>ci_Version = 0, ci_Hash = None\<rparr>"

text \<open>Both stores hold a \<open>MemDB\<close>; \<open>newMemDB\<close> is the database a fresh one is.\<close>

definition transient_NewStore :: "'d \<Rightarrow> 'd" where
  "transient_NewStore newMemDB = newMemDB"

definition transient_Commit :: "'d \<Rightarrow> ('d, CommitID) go" where
  "transient_Commit newMemDB = go_bind (go_modify (\<lambda>_. newMemDB)) (\<lambda>_. ret CommitID_zero)"

definition transient_LastCommitID :: CommitID where
  "transient_LastCommitID = CommitID_zero"

definition transient_WorkingHash :: slice where
  "transient_WorkingHash = Some []"

definition transient_ops :: "('d, 'di) db_ops \<Rightarrow> ('d, 'di) kv_ops" where
  "transient_ops db = dbadapter_ops_of StoreTypeTransient db"

definition mem_NewStore :: "'d \<Rightarrow> 'd" where
  "mem_NewStore newMemDB = newMemDB"

definition mem_Commit :: "('d, CommitID) go" where
  "mem_Commit = ret CommitID_zero"

definition mem_LastCommitID :: CommitID where
  "mem_LastCommitID = CommitID_zero"

definition mem_WorkingHash :: slice where
  "mem_WorkingHash = None"

definition mem_ops :: "('d, 'di) db_ops \<Rightarrow> ('d, 'di) kv_ops" where
  "mem_ops db = dbadapter_ops_of StoreTypeMemory db"

text \<open>The adapter rootmulti mounts for \<open>StoreTypeDB\<close>.\<close>

definition commithash :: bytes where
  "commithash = map of_char ''FAKE_HASH''"

definition commitDB_Commit :: "('d, CommitID) go" where
  "commitDB_Commit = ret \<lparr>ci_Version = -1, ci_Hash = Some commithash\<rparr>"

definition commitDB_LastCommitID :: CommitID where
  "commitDB_LastCommitID = \<lparr>ci_Version = -1, ci_Hash = Some commithash\<rparr>"

definition commitDB_WorkingHash :: slice where
  "commitDB_WorkingHash = Some commithash"

section \<open>The adapters are KVStores\<close>

sublocale database \<subseteq> adapter: kvstore "dbadapter_ops_of ty db" valid_key d_inv d_contents di_inv di_items for ty
proof (rule kvstore.intro)
  fix d k v start "end"
  assume d: "d_inv d"
  { assume k: "valid_key k"
    then have ne: "k \<noteq> []" by (simp add: valid_key_def)
    show "wp (kv_Get (dbadapter_ops_of ty db) (Some k)) (\<lambda>r s'. r = d_contents d k \<and> d_inv s' \<and> d_contents s' = d_contents d) d"
      using Get [OF d ne] by (auto simp: dbadapter_ops_of_def dbadapter_Get_def wp_simps elim!: wp_mono)
    show "wp (kv_Has (dbadapter_ops_of ty db) (Some k)) (\<lambda>r s'. r = (d_contents d k \<noteq> None) \<and> d_inv s' \<and> d_contents s' = d_contents d) d"
      using Has [OF d ne] by (auto simp: dbadapter_ops_of_def dbadapter_Has_def wp_simps elim!: wp_mono)
    show "wp (kv_Delete (dbadapter_ops_of ty db) (Some k)) (\<lambda>_ s'. d_inv s' \<and> d_contents s' = (d_contents d)(k := None)) d"
      using Delete [OF d ne] by (auto simp: dbadapter_ops_of_def dbadapter_Delete_def wp_simps elim!: wp_mono)
    assume "valid_value v"
    then show "wp (kv_Set (dbadapter_ops_of ty db) (Some k) (Some v)) (\<lambda>_ s'. d_inv s' \<and> d_contents s' = (d_contents d)(k \<mapsto> v)) d"
      using Set [OF d ne, of v] k by (auto simp: dbadapter_ops_of_def dbadapter_Set_def wp_simps elim!: wp_mono) }
  { assume r: "ok_range start end"
    show "wp (kv_Iterator (dbadapter_ops_of ty db) start end) (\<lambda>i s'. d_inv s' \<and> d_contents s' = d_contents d \<and>
        di_inv (s', i) \<and> covers (d_contents d) start end True (di_items (s', i))) d"
      using Iterator [OF d r] by (auto simp: dbadapter_ops_of_def dbadapter_Iterator_def wp_simps elim!: wp_mono)
    show "wp (kv_ReverseIterator (dbadapter_ops_of ty db) start end) (\<lambda>i s'. d_inv s' \<and> d_contents s' = d_contents d \<and>
        di_inv (s', i) \<and> covers (d_contents d) start end False (di_items (s', i))) d"
      using ReverseIterator [OF d r]
      by (auto simp: dbadapter_ops_of_def dbadapter_ReverseIterator_def wp_simps elim!: wp_mono) }
next
  show "iterator (kv_iter (dbadapter_ops_of ty db)) (\<lambda>x. d_inv (fst x) \<and> di_inv x) di_items (d_contents \<circ> fst)"
    using db_iterator by (simp add: dbadapter_ops_of_def)
next
  fix d i
  assume "d_inv d" "di_inv (d, i)"
  then show "wp (it_Close (kv_iter (dbadapter_ops_of ty db))) (\<lambda>_ x'. d_inv (fst x') \<and> d_contents (fst x') = d_contents d) (d, i)"
    using db_Close by (simp add: dbadapter_ops_of_def)
qed

context database
begin

lemma dbadapter_keys_wp:
  assumes "d_inv d" "ok_range start end"
  shows "wp (dbadapter_keys db start end) (\<lambda>ks d'. d_inv d' \<and> d_contents d' = d_contents d \<and>
    sorted_wrt (<) ks \<and> set ks = {k \<in> dom (d_contents d). in_domain start end k}) d"
  using adapter.iterate_keys [OF assms, of StoreTypeDB]
  by (simp add: collect_keys_def dbadapter_keys_def dbadapter_ops_of_def)

end

sublocale database \<subseteq> adapter_keys: kvstore_keys "dbadapter_ops_of ty db" valid_key d_inv d_contents di_inv di_items for ty
proof
  fix d start e
  assume "d_inv d" "ok_range start (Some e)"
  then show "wp (kv_GetAllKeyStrsInRange (dbadapter_ops_of ty db) start (Some e)) (\<lambda>ks s'. d_inv s' \<and>
      d_contents s' = d_contents d \<and> set ks = {k \<in> dom (d_contents d). in_domain start (Some e) k}) d"
    using dbadapter_keys_wp [of d start "Some e"]
    by (auto simp: dbadapter_ops_of_def dbadapter_GetAllKeyStrsInRange_def elim!: wp_mono)
qed

end
