(* ===== verification/Ref_Libs.thy ===== *)
theory Ref_Libs
  imports DB_Adapter
begin

text \<open>
  Executable reference implementations of the third-party libraries: a sorted list for the tree of
  github.com/tidwall/btree and an association list for a database of github.com/cosmos/cosmos-db.
  They satisfy the contracts assumed of the libraries, so the contracts can hold, and the stores of
  the development run on them.
\<close>

section \<open>The tree\<close>

type_synonym ref_tree = "item list"
type_synonym ref_titer = "item list \<times> nat option"

definition ref_seek :: "item \<Rightarrow> ref_titer \<Rightarrow> bool \<times> ref_titer" where
  "ref_seek x b =
     (let i = length (takeWhile (\<lambda>y. byKeys y x) (fst b)) in
      if i < length (fst b) then (True, (fst b, Some i)) else (False, (fst b, None)))"

definition ref_move :: "(nat \<Rightarrow> nat option) \<Rightarrow> ref_titer \<Rightarrow> bool \<times> ref_titer" where
  "ref_move f b = (case snd b of
       None \<Rightarrow> (False, b)
     | Some i \<Rightarrow> (case f i of
           None \<Rightarrow> (False, (fst b, None))
         | Some j \<Rightarrow> if j < length (fst b) then (True, (fst b, Some j)) else (False, (fst b, None))))"

definition ref_btree :: "(ref_tree, ref_titer) btree_ops" where
  "ref_btree = \<lparr>
     bt_New = (\<lambda>_. []),
     bt_Set = (\<lambda>x t. filter (\<lambda>y. byKeys y x) t @ x # filter (\<lambda>y. byKeys x y) t),
     bt_Get = (\<lambda>x t. find (\<lambda>y. \<not> byKeys x y \<and> \<not> byKeys y x) t),
     bt_Delete = (\<lambda>x t. filter (\<lambda>y. byKeys x y \<or> byKeys y x) t),
     bt_Copy = (\<lambda>t. (t, t)),
     bt_Iter = (\<lambda>t. (t, None)),
     bi_Seek = ref_seek,
     bi_First = (\<lambda>b. if fst b = [] then (False, (fst b, None)) else (True, (fst b, Some 0))),
     bi_Last = (\<lambda>b. if fst b = [] then (False, (fst b, None)) else (True, (fst b, Some (length (fst b) - 1)))),
     bi_Next = ref_move (\<lambda>i. Some (Suc i)),
     bi_Prev = ref_move (\<lambda>i. if i = 0 then None else Some (i - 1)),
     bi_Item = (\<lambda>b. fst b ! the (snd b)),
     bi_Release = (\<lambda>b. b) \<rparr>"

abbreviation ref_t_ok :: "ref_tree \<Rightarrow> bool" where
  "ref_t_ok \<equiv> sorted_wrt byKeys"

interpretation ref_tree: btree_lib ref_btree ref_t_ok "\<lambda>t. t" fst snd
proof
  fix t x
  assume t: "ref_t_ok t"
  then have "ref_t_ok (filter (\<lambda>y. byKeys y x) t @ x # filter (\<lambda>y. byKeys x y) t)"
    by (auto simp: sorted_wrt_append sorted_wrt_filter dest: byKeys_trans)
  then show "ref_t_ok (bt_Set ref_btree x t) \<and>
      set (bt_Set ref_btree x t) = insert x {y \<in> set t. byKeys x y \<or> byKeys y x}"
    by (auto simp: ref_btree_def)
qed (auto simp: ref_btree_def ref_seek_def ref_move_def Let_def length_takeWhile_less_iff [symmetric]
  split: if_splits option.splits)

section \<open>The database\<close>

type_synonym ref_db_state = "(bytes \<times> bytes) list"
type_synonym ref_db_iter = "(bytes \<times> bytes) list \<times> slice \<times> slice"

definition ref_range :: "slice \<Rightarrow> slice \<Rightarrow> ref_db_state \<Rightarrow> (bytes \<times> bytes) list" where
  "ref_range start end d = filter (\<lambda>e. in_domain start end (fst e)) (sort_key fst d)"

definition ref_keyed :: "slice \<Rightarrow> (ref_db_state, 'a) go \<Rightarrow> 'a \<Rightarrow> (ref_db_state, 'a) go" where
  "ref_keyed k m err = (if bs k = [] then ret err else m)"

definition ref_open :: "(slice \<Rightarrow> slice \<Rightarrow> ref_db_state \<Rightarrow> (bytes \<times> bytes) list) \<Rightarrow>
    slice \<Rightarrow> slice \<Rightarrow> (ref_db_state, string + ref_db_iter) go" where
  "ref_open f start end =
     (if start = Some [] \<or> end = Some [] then ret (Inl ''key empty'')
      else go_read (\<lambda>d. Inr (f start end d, start, end)))"

definition ref_front :: "((bytes \<times> bytes) \<Rightarrow> slice) \<Rightarrow> (ref_db_state \<times> ref_db_iter, slice) go" where
  "ref_front f = (\<lambda>x. case fst (snd x) of
       [] \<Rightarrow> Some (Inl (Panic_str ''iterator is invalid''), x)
     | e # _ \<Rightarrow> Some (Inr (f e), x))"

definition ref_db_iters :: "(ref_db_state \<times> ref_db_iter) iter_ops" where
  "ref_db_iters = \<lparr>
     it_Domain = go_read (\<lambda>x. snd (snd x)),
     it_Valid = go_read (\<lambda>x. fst (snd x) \<noteq> []),
     it_Next = go_bind (ref_front (\<lambda>_. None)) (\<lambda>_. go_modify (\<lambda>(d, (xs, se)). (d, (tl xs, se)))),
     it_Key = ref_front (\<lambda>e. Some (fst e)),
     it_Value = ref_front (\<lambda>e. Some (snd e)),
     it_Error = ret None,
     it_Close = ret None \<rparr>"

definition ref_db :: "(ref_db_state, ref_db_iter) db_ops" where
  "ref_db = \<lparr>
     db_Get = (\<lambda>k. ref_keyed k (go_read (\<lambda>d. Inr (map_of d (bs k)))) (Inl ''key empty'')),
     db_Has = (\<lambda>k. ref_keyed k (go_read (\<lambda>d. Inr (map_of d (bs k) \<noteq> None))) (Inl ''key empty'')),
     db_Set = (\<lambda>k v. ref_keyed k (case v of None \<Rightarrow> ret (Some ''value nil'')
       | Some w \<Rightarrow> go_bind (go_modify (AList.update (bs k) w)) (\<lambda>_. ret None)) (Some ''key empty'')),
     db_Delete = (\<lambda>k. ref_keyed k (go_bind (go_modify (AList.delete (bs k))) (\<lambda>_. ret None)) (Some ''key empty'')),
     db_Iterator = ref_open ref_range,
     db_ReverseIterator = ref_open (\<lambda>s e d. rev (ref_range s e d)),
     db_iter = ref_db_iters \<rparr>"

definition ref_d_inv :: "ref_db_state \<Rightarrow> bool" where
  "ref_d_inv d \<longleftrightarrow> distinct (map fst d)"

definition ref_di_items :: "ref_db_state \<times> ref_db_iter \<Rightarrow> (bytes \<times> slice) list" where
  "ref_di_items x = map (\<lambda>(k, v). (k, Some v)) (fst (snd x))"

lemma ref_range_covers:
  assumes "ref_d_inv d"
  shows "covers (map_of d) start end True (map (\<lambda>(k, v). (k, Some v)) (ref_range start end d))"
    and "covers (map_of d) start end False (map (\<lambda>(k, v). (k, Some v)) (rev (ref_range start end d)))"
proof -
  let ?s = "sort_key fst d" and ?r = "ref_range start end d"
  have d: "distinct (map fst ?s)"
    using assms by (simp add: ref_d_inv_def distinct_map)
  have "sorted (map fst ?s)" by simp
  with d have "sorted_wrt (<) (map fst ?s)" by (simp add: strict_sorted_iff)
  then have s: "sorted_wrt (<) (map fst ?r)"
    by (simp add: ref_range_def sorted_wrt_map sorted_wrt_filter)
  have dr: "distinct (map fst ?r)" using s strict_sorted_iff by blast
  have f: "map fst (map (\<lambda>(k, v). (k, Some v)) xs) = map fst xs" for xs :: "(bytes \<times> bytes) list"
    by (induction xs) auto
  have ms: "map_of ?s = map_of d"
    using assms d by (subst map_of_inject_set) (auto simp: ref_d_inv_def)
  have m: "map_of (map (\<lambda>(k, v). (k, Some v)) ?r) k = (if in_domain start end k then map_option Some (map_of d k) else None)" for k
    by (simp add: map_of_map ref_range_def map_of_filter_key ms)
  moreover have "map_of (map (\<lambda>(k, v). (k, Some v)) (rev ?r)) = map_of (map (\<lambda>(k, v). (k, Some v)) ?r)"
    by (subst map_of_inject_set) (simp_all only: f rev_map [symmetric] distinct_rev dr set_map set_rev)
  ultimately show "covers (map_of d) start end True (map (\<lambda>(k, v). (k, Some v)) ?r)"
    and "covers (map_of d) start end False (map (\<lambda>(k, v). (k, Some v)) (rev ?r))"
    using s by (simp_all add: covers_def f rev_map [symmetric] sorted_wrt_rev del: map_map)
qed

lemmas ref_db_defs = ref_db_def ref_keyed_def ref_open_def ref_db_iters_def ref_front_def ref_di_items_def

interpretation ref_database: database ref_db ref_d_inv map_of "\<lambda>_. True" ref_di_items
proof (rule database.intro)
  show "iterator (db_iter ref_db) (\<lambda>x. ref_d_inv (fst x) \<and> True) ref_di_items (map_of \<circ> fst)"
    by unfold_locales (auto simp: ref_db_defs wp_def go_defs)
next
  fix d start "end"
  assume d: "ref_d_inv d" and r: "ok_range start end"
  show "wp (db_Iterator ref_db start end) (\<lambda>r d'. ref_d_inv d' \<and> map_of d' = map_of d \<and>
      (\<exists>i. r = Inr i \<and> True \<and> covers (map_of d) start end True (ref_di_items (d', i)))) d"
    using r d ref_range_covers(1) [OF d] by (simp add: ref_db_defs ok_range_def ok_bound_def wp_simps)
  show "wp (db_ReverseIterator ref_db start end) (\<lambda>r d'. ref_d_inv d' \<and> map_of d' = map_of d \<and>
      (\<exists>i. r = Inr i \<and> True \<and> covers (map_of d) start end False (ref_di_items (d', i)))) d"
    using r d ref_range_covers(2) [OF d] by (simp add: ref_db_defs ok_range_def ok_bound_def wp_simps)
qed (simp_all add: ref_db_defs wp_simps ref_d_inv_def distinct_update distinct_delete update_conv' delete_conv')

section \<open>The stores on the reference libraries\<close>

definition ref_kv :: "(ref_db_state, ref_db_iter) kv_ops" where
  "ref_kv = dbadapter_ops ref_db"

definition ref_cachekv :: "((ref_db_state, ref_tree) cachekv, (ref_db_iter, ref_titer) cit) kv_ops" where
  "ref_cachekv = cachekv_ops ref_kv ref_btree (\<lambda>k start end. in_domain start end k)"

interpretation ref_cache: cachekv_keys_env ref_kv valid_key ref_d_inv map_of "\<lambda>_. True" ref_di_items
  ref_btree ref_t_ok "\<lambda>t. t" fst snd "\<lambda>k start end. in_domain start end k"
proof -
  have "kvstore_keys ref_kv valid_key ref_d_inv map_of (\<lambda>_. True) ref_di_items"
    unfolding ref_kv_def dbadapter_ops_def by (rule ref_database.adapter_keys.kvstore_keys_axioms)
  then show "cachekv_keys_env ref_kv valid_key ref_d_inv map_of (\<lambda>_. True) ref_di_items
      ref_btree ref_t_ok (\<lambda>t. t) fst snd (\<lambda>k start end. in_domain start end k)"
    by (simp add: cachekv_keys_env_def cachekv_env_def cachekv_env_axioms_def kvstore_keys_def ref_tree.btree_lib_axioms)
qed

section \<open>A code for lists of fields\<close>

text \<open>Fields as bytes that can be told apart, for protobuf messages.\<close>

definition ref_bytes :: "bytes \<Rightarrow> bytes" where
  "ref_bytes b = concat (map (\<lambda>x. [1, x]) b) @ [0]"

fun ref_parse :: "bytes \<Rightarrow> bytes \<times> bytes" where
  "ref_parse [] = ([], [])"
| "ref_parse [y] = ([], [])"
| "ref_parse (y # x # bz) = (if y = 0 then ([], x # bz) else case ref_parse bz of (b, r) \<Rightarrow> (x # b, r))"

lemma ref_parse_bytes: "ref_parse (ref_bytes b @ bz) = (b, bz)"
proof (induction b)
  case Nil
  show ?case by (cases bz) (simp_all add: ref_bytes_def)
qed (simp add: ref_bytes_def)

fun ref_parse_list :: "nat \<Rightarrow> bytes \<Rightarrow> bytes list" where
  "ref_parse_list 0 bz = []"
| "ref_parse_list (Suc n) bz = fst (ref_parse bz) # ref_parse_list n (snd (ref_parse bz))"

lemma ref_parse_list_bytes: "ref_parse_list (length hs) (concat (map ref_bytes hs) @ bz) = hs"
  by (induction hs) (simp_all add: ref_parse_bytes)

definition ref_pack :: "bytes list \<Rightarrow> bytes" where
  "ref_pack fs = replicate (length fs) 1 @ [0] @ concat (map ref_bytes fs)"

definition ref_unpack :: "bytes \<Rightarrow> bytes list" where
  "ref_unpack bz = (let n = length (takeWhile (\<lambda>x. x = 1) bz) in ref_parse_list n (drop (Suc n) bz))"

lemma ref_unpack_pack: "ref_unpack (ref_pack fs) = fs"
proof -
  have "takeWhile (\<lambda>x. x = 1) (replicate n 1 @ 0 # bz) = replicate n (1 :: byte)" for n bz
    by (induction n) simp_all
  then show ?thesis
    using ref_parse_list_bytes [of fs "[]"] by (simp add: ref_unpack_def ref_pack_def Let_def)
qed

end
