(* ===== verification/Cache_Props.thy ===== *)
theory Cache_Props
  imports Ref_Libs
begin

text \<open>
  The properties of the cached store and its merge iterator, and their instances on the reference
  libraries. The parent store, the tree and \<open>dbm.IsKeyInDomain\<close> enter through \<open>cachekv_env\<close>: the
  contract of a \<open>KVStore\<close>, the documented behaviour of the tree, and half-open domains.
\<close>

section \<open>A concrete store\<close>

text \<open>A database of three keys under a cache that overwrites one, deletes one and adds one.\<close>

definition demo_parent :: ref_db_state where
  "demo_parent = [([1], [10]), ([2], [20]), ([3], [30])]"

definition demo_cache :: "(ref_db_state, ref_tree) cachekv" where
  "demo_cache = \<lparr>
     ck_cache = [([2], \<lparr>cv_value = None, cv_dirty = True\<rparr>), ([3], \<lparr>cv_value = Some [33], cv_dirty = True\<rparr>),
                 ([4], \<lparr>cv_value = Some [40], cv_dirty = True\<rparr>)],
     ck_unsorted = [[4], [3]],
     ck_sorted = Some [\<lparr>key = Some [2], val = None\<rparr>, \<lparr>key = Some [3], val = None\<rparr>],
     ck_parent = demo_parent \<rparr>"

lemma demo_parent_inv: "ref_d_inv demo_parent"
  by (simp add: ref_d_inv_def demo_parent_def)

lemma demo_cache_inv: "cachekv_inv valid_key ref_d_inv ref_t_ok (\<lambda>t. t) demo_cache"
  by (auto simp: cachekv_inv_def demo_cache_def demo_parent_inv tree_ok_def tree_map_def cached_def valid_key_def
    valid_value_def MaxKeyLength_def MaxValueLength_def byKeys_less entry_def)

section \<open>Refinement\<close>

text \<open>C2. The cached store refines the contract of a \<open>KVStore\<close>: over any parent that keeps the
  contract, every operation behaves on the parent's map overlaid with the cached writes as the
  contract says, iterators included.\<close>

theorem cachekv_refines_KVStore:
  assumes "cachekv_env P vk p_inv contents it_inv it_items lib t_ok elems bi_elems bi_pos inDomain"
  shows "\<exists>ci_inv ci_items. kvstore (cachekv_ops P lib inDomain) vk (cachekv_inv vk p_inv t_ok elems)
    (cachekv_contents contents) ci_inv ci_items"
  using cachekv_env.cached_kvstore [OF assms] by blast

theorem cachekv_refines_KVStore_witness:
  "\<exists>ci_inv ci_items. kvstore ref_cachekv valid_key (cachekv_inv valid_key ref_d_inv ref_t_ok (\<lambda>t. t))
    (cachekv_contents map_of) ci_inv ci_items"
  unfolding ref_cachekv_def by (rule cachekv_refines_KVStore) (rule ref_cache.cachekv_env_axioms)

text \<open>C5. Iterating over a range of the cached store ends, without a panic, after visiting exactly the
  live keys of the overlaid map in the range, each once and in ascending order; the store's contents
  do not change.\<close>

theorem cachekv_iteration:
  assumes "cachekv_env P vk p_inv contents it_inv it_items lib t_ok elems bi_elems bi_pos inDomain"
    and "cachekv_inv vk p_inv t_ok elems st" "ok_range start end"
  shows "wp (collect_keys (cachekv_ops P lib inDomain) start end) (\<lambda>ks st'.
    cachekv_inv vk p_inv t_ok elems st' \<and> cachekv_contents contents st' = cachekv_contents contents st \<and>
    sorted_wrt (<) ks \<and> set ks = {k \<in> dom (cachekv_contents contents st). in_domain start end k}) st"
  using cachekv_env.cached_keys_wp [OF assms] .

theorem cachekv_iteration_witness:
  "wp (collect_keys ref_cachekv (Some [1]) (Some [4])) (\<lambda>ks st'.
    cachekv_inv valid_key ref_d_inv ref_t_ok (\<lambda>t. t) st' \<and> cachekv_contents map_of st' = cachekv_contents map_of demo_cache \<and>
    sorted_wrt (<) ks \<and> set ks = {k \<in> dom (cachekv_contents map_of demo_cache). in_domain (Some [1]) (Some [4]) k}) demo_cache"
  unfolding ref_cachekv_def
  by (rule cachekv_iteration [OF ref_cache.cachekv_env_axioms demo_cache_inv])
    (simp add: ok_range_def ok_bound_def)

text \<open>C6. \<open>Write\<close> makes the parent's contents equal to what the cached store showed, deletions
  included, and leaves the cached store showing the same.\<close>

theorem cachekv_Write_flushes:
  assumes "cachekv_env P vk p_inv contents it_inv it_items lib t_ok elems bi_elems bi_pos inDomain"
    and "cachekv_inv vk p_inv t_ok elems st"
  shows "wp (cachekv_Write P) (\<lambda>_ st'. p_inv (ck_parent st') \<and>
    contents (ck_parent st') = cachekv_contents contents st \<and>
    cachekv_contents contents st' = cachekv_contents contents st \<and> cachekv_inv vk p_inv t_ok elems st') st"
  using cachekv_env.Write_wp [OF assms] by (rule wp_mono) auto

theorem cachekv_Write_flushes_witness:
  "wp (cachekv_Write ref_kv) (\<lambda>_ st'. ref_d_inv (ck_parent st') \<and>
    map_of (ck_parent st') = cachekv_contents map_of demo_cache \<and>
    cachekv_contents map_of st' = cachekv_contents map_of demo_cache \<and>
    cachekv_inv valid_key ref_d_inv ref_t_ok (\<lambda>t. t) st') demo_cache"
  by (rule cachekv_Write_flushes [OF ref_cache.cachekv_env_axioms demo_cache_inv])

text \<open>C9. The merge iterator ends and visits the overlay of its two iterators: in the direction of
  the iteration, the cache's entry at a common key, and no key the cache deletes.\<close>

theorem merge_iterator_overlay:
  assumes "overlay P C I pit cit pobs cobs asc obs" "I x"
  shows "wp (NewCacheMergeIterator P C asc) (\<lambda>valid x'.
    wp (iter_keys (merge_ops P C asc) []) (\<lambda>ks y. ks = map fst (merged asc (pit x) (cit x)) \<and>
      sorted_wrt (before asc) ks \<and> obs (fst y) = obs x \<and>
      (\<forall>k. k \<in> set ks \<longleftrightarrow> (case map_of (cit x) k of None \<Rightarrow> map_of (pit x) k \<noteq> None | Some v \<Rightarrow> v \<noteq> None)))
      (x', valid)) x"
proof (rule wp_mono [OF overlay.NewCacheMergeIterator_wp [OF assms]])
  fix valid x'
  assume A: "merge_inv I pit cit asc (x', valid) \<and> obs x' = obs x \<and>
    merged asc (pit x') (cit x') = merged asc (pit x) (cit x)"
  let ?m = "merged asc (pit x) (cit x)"
  have s: "sorted_wrt (before asc) (map fst (pit x))" "sorted_wrt (before asc) (map fst (cit x))"
    by (rule overlay.psorted [OF assms], rule overlay.csorted [OF assms])
  have "k \<in> set (map fst ?m) \<longleftrightarrow> map_of ?m k \<noteq> None" for k
    by (simp add: map_of_eq_None_iff)
  then have "k \<in> set (map fst ?m) \<longleftrightarrow> (case map_of (cit x) k of None \<Rightarrow> map_of (pit x) k \<noteq> None | Some v \<Rightarrow> v \<noteq> None)" for k
    using map_of_merged [OF s, of k] by (auto split: option.splits)
  with merged_sorted [OF s] A show "wp (iter_keys (merge_ops P C asc) []) (\<lambda>ks y. ks = map fst ?m \<and>
      sorted_wrt (before asc) ks \<and> obs (fst y) = obs x \<and>
      (\<forall>k. k \<in> set ks \<longleftrightarrow> (case map_of (cit x) k of None \<Rightarrow> map_of (pit x) k \<noteq> None | Some v \<Rightarrow> v \<noteq> None))) (x', valid)"
    by (intro iterator.iter_keys_wp [OF overlay.merge_iterator [OF assms(1)]]) auto
qed

definition demo_both :: "(ref_db_state \<times> ref_db_iter) \<times> ref_titer memIterator" where
  "demo_both = ((demo_parent, (demo_parent, None, None)),
     \<lparr>mi_iter = ([\<lparr>key = Some [2], val = None\<rparr>, \<lparr>key = Some [4], val = Some [40]\<rparr>], Some 0),
      mi_start = None, mi_end = None, mi_ascending = True, mi_valid = True\<rparr>)"

lemma demo_both_inv: "ref_cache.both_inv True demo_both"
  by (simp add: ref_cache.both_inv_def demo_both_def demo_parent_def ref_d_inv_def ref_di_items_def mi_ok_def
    mi_items_def ahead_def entry_def keyInRange_def)

theorem merge_iterator_overlay_witness:
  "wp (NewCacheMergeIterator (parent_it ref_kv) (cache_it ref_btree) True) (\<lambda>valid x'.
    wp (iter_keys (merge_ops (parent_it ref_kv) (cache_it ref_btree) True) []) (\<lambda>ks y. ks = [[1], [3], [4]]) (x', valid)) demo_both"
  apply (rule wp_mono [OF merge_iterator_overlay [OF ref_cache.overlay_both demo_both_inv]])
  apply (erule wp_mono)
  apply (simp add: demo_both_def demo_parent_def ref_di_items_def mi_items_def ahead_def entry_def keyInRange_def)
  done

text \<open>C32. \<open>DeleteAll\<close> on a bounded range removes exactly the keys of the range.\<close>

theorem cachekv_DeleteAll_range:
  assumes "cachekv_keys_env P vk p_inv contents it_inv it_items lib t_ok elems bi_elems bi_pos inDomain"
    and "cachekv_inv vk p_inv t_ok elems st" "ok_range start (Some e)"
    and "\<And>k. cachekv_contents contents st k \<noteq> None \<Longrightarrow> vk k"
  shows "wp (cachekv_DeleteAll P start (Some e)) (\<lambda>err st'. err = None \<and> cachekv_inv vk p_inv t_ok elems st' \<and>
    cachekv_contents contents st' = (\<lambda>k. if in_domain start (Some e) k then None else cachekv_contents contents st k)) st"
  by (rule cachekv_keys_env.DeleteAll_wp [OF assms])

theorem cachekv_DeleteAll_range_witness:
  "wp (cachekv_DeleteAll ref_kv (Some [1]) (Some [4])) (\<lambda>err st'. err = None \<and>
    cachekv_inv valid_key ref_d_inv ref_t_ok (\<lambda>t. t) st' \<and> cachekv_contents map_of st' =
      (\<lambda>k. if in_domain (Some [1]) (Some [4]) k then None else cachekv_contents map_of demo_cache k)) demo_cache"
  by (rule cachekv_DeleteAll_range [OF ref_cache.cachekv_keys_env_axioms demo_cache_inv])
    (auto simp: ok_range_def ok_bound_def cachekv_contents_def overlaid_def cached_def demo_cache_def demo_parent_def
      valid_key_def MaxKeyLength_def split: if_splits)

text \<open>C39. An iterator of a new cached store over a range whose start is after its end panics with a
  nil dereference: \<open>dirtyItems\<close> returns before it makes the sorted cache that is then copied.\<close>

theorem cachekv_inverted_range_panics:
  assumes "e < s"
  shows "panics (cachekv_Iterator P lib inDomain (Some s) (Some e)) (\<lambda>p st'. p = nil_deref \<and> st' = cachekv_NewStore p0)
    (cachekv_NewStore p0)"
  using assms
  by (simp add: cachekv_Iterator_def iterator_of_def dirtyItems_def panics_def cachekv_NewStore_def on_sorted_def
    BTree_Copy_def BTree_tree_def go_defs)

theorem cachekv_inverted_range_panics_witness:
  "panics (cachekv_Iterator ref_kv ref_btree (\<lambda>k start end. in_domain start end k) (Some [2]) (Some [1]))
    (\<lambda>p st'. p = nil_deref \<and> st' = cachekv_NewStore demo_parent) (cachekv_NewStore demo_parent)"
  by (rule cachekv_inverted_range_panics) simp

text \<open>C40. With a nil end, which iterators read as unbounded, \<open>GetAllKeyStrsInRange\<close> ignores every
  cached write: it returns the parent's keys.\<close>

theorem cachekv_GetAllKeyStrsInRange_nil_end:
  assumes "kv_GetAllKeyStrsInRange P start None (ck_parent st) = Some (Inr pks, s)"
  shows "cachekv_GetAllKeyStrsInRange P start None st = Some (Inr (remdups pks), st\<lparr>ck_parent := s\<rparr>)"
  using assms by (simp add: cachekv_GetAllKeyStrsInRange_def on_parent_def go_defs range_entry_nil_end)

theorem cachekv_GetAllKeyStrsInRange_nil_end_witness:
  "cachekv_GetAllKeyStrsInRange (ref_kv\<lparr>kv_GetAllKeyStrsInRange := \<lambda>_ _. ret [[1], [2], [3]]\<rparr>) None None demo_cache =
    Some (Inr [[1], [2], [3]], demo_cache)"
  using cachekv_GetAllKeyStrsInRange_nil_end [of "ref_kv\<lparr>kv_GetAllKeyStrsInRange := \<lambda>_ _. ret [[1], [2], [3]]\<rparr>"
      None demo_cache "[[1], [2], [3]]" demo_parent]
  by (simp add: ret_def demo_cache_def)

end
