(* ===== verification/Prefix_KV.thy ===== *)
theory Prefix_KV
  imports Ref_Libs
begin

text \<open>
  prefix/store.go: the view of a parent store on the keys with a given prefix. For a non-empty prefix
  the view is a \<open>KVStore\<close> again; its contents are the parent's at the prefixed keys.
\<close>

section \<open>The store\<close>

text \<open>The field \<open>prefix\<close> never changes and is an argument; the state is the parent's.\<close>

definition cloneAppend :: "slice \<Rightarrow> slice \<Rightarrow> slice" where
  "cloneAppend bz tail = Some (bs bz @ bs tail)"

definition prefix_key :: "slice \<Rightarrow> slice \<Rightarrow> ('s, slice) go" where
  "prefix_key pre k =
     (if k = None then go_panic (Panic_str ''nil key on Store'') else ret (cloneAppend pre k))"

definition prefix_Get :: "('s, 'i) kv_ops \<Rightarrow> slice \<Rightarrow> slice \<Rightarrow> ('s, slice) go" where
  "prefix_Get P pre k = go_bind (prefix_key pre k) (\<lambda>pk. kv_Get P pk)"

definition prefix_Has :: "('s, 'i) kv_ops \<Rightarrow> slice \<Rightarrow> slice \<Rightarrow> ('s, bool) go" where
  "prefix_Has P pre k = go_bind (prefix_key pre k) (\<lambda>pk. kv_Has P pk)"

definition prefix_Set :: "('s, 'i) kv_ops \<Rightarrow> slice \<Rightarrow> slice \<Rightarrow> slice \<Rightarrow> ('s, unit) go" where
  "prefix_Set P pre k v =
     go_bind (AssertValidKey k) (\<lambda>_.
     go_bind (AssertValidValue v) (\<lambda>_.
     go_bind (prefix_key pre k) (\<lambda>pk. kv_Set P pk v)))"

definition prefix_Delete :: "('s, 'i) kv_ops \<Rightarrow> slice \<Rightarrow> slice \<Rightarrow> ('s, unit) go" where
  "prefix_Delete P pre k = go_bind (prefix_key pre k) (\<lambda>pk. kv_Delete P pk)"

definition cpIncr :: "slice \<Rightarrow> slice" where
  "cpIncr bz = PrefixEndBytes bz"

text \<open>The end of the parent's range.\<close>

definition prefix_newend :: "slice \<Rightarrow> slice \<Rightarrow> slice" where
  "prefix_newend pre end = (if end = None then cpIncr pre else cloneAppend pre end)"

section \<open>The iterator\<close>

record 'i prefixIterator =
  pi_prefix :: slice
  pi_start :: slice
  pi_end :: slice
  pi_iter :: 'i
  pi_valid :: bool

definition on_pi_iter :: "('s \<times> 'i, 'a) go \<Rightarrow> ('s \<times> 'i prefixIterator, 'a) go" where
  "on_pi_iter = go_zoom (\<lambda>x. (fst x, pi_iter (snd x))) (\<lambda>y x. (fst y, (snd x)\<lparr>pi_iter := snd y\<rparr>))"

definition HasPrefix :: "slice \<Rightarrow> slice \<Rightarrow> bool" where
  "HasPrefix k pre = prefix (bs pre) (bs k)"

text \<open>\<open>parent.Valid() && bytes.HasPrefix(parent.Key(), prefix)\<close>\<close>

definition valid_with_prefix :: "('s \<times> 'i) iter_ops \<Rightarrow> slice \<Rightarrow> ('s \<times> 'i, bool) go" where
  "valid_with_prefix it pre =
     go_bind (it_Valid it) (\<lambda>ok.
       if ok then go_bind (it_Key it) (\<lambda>k. ret (HasPrefix k pre)) else ret False)"

definition newPrefixIterator ::
  "('s \<times> 'i) iter_ops \<Rightarrow> slice \<Rightarrow> slice \<Rightarrow> slice \<Rightarrow> 'i \<Rightarrow> ('s, 'i prefixIterator) go" where
  "newPrefixIterator it pre start end parent =
     go_bind (go_local parent (valid_with_prefix it pre)) (\<lambda>(valid, i).
     ret \<lparr>pi_prefix = pre, pi_start = start, pi_end = end, pi_iter = i, pi_valid = valid\<rparr>)"

definition prefixIterator_Domain :: "('s \<times> 'i prefixIterator, slice \<times> slice) go" where
  "prefixIterator_Domain = go_read (\<lambda>x. (pi_start (snd x), pi_end (snd x)))"

definition prefixIterator_Valid :: "('s \<times> 'i) iter_ops \<Rightarrow> ('s \<times> 'i prefixIterator, bool) go" where
  "prefixIterator_Valid it =
     go_bind (go_read (\<lambda>x. pi_valid (snd x))) (\<lambda>valid.
       if valid then on_pi_iter (it_Valid it) else ret False)"

definition check_valid :: "string \<Rightarrow> ('s \<times> 'i prefixIterator, unit) go" where
  "check_valid msg =
     go_bind (go_read (\<lambda>x. pi_valid (snd x))) (\<lambda>valid.
       if \<not> valid then go_panic (Panic_str msg) else ret ())"

definition prefixIterator_Next :: "('s \<times> 'i) iter_ops \<Rightarrow> ('s \<times> 'i prefixIterator, unit) go" where
  "prefixIterator_Next it =
     go_bind (check_valid ''prefixIterator invalid, cannot call Next()'') (\<lambda>_.
     go_bind (on_pi_iter (it_Next it)) (\<lambda>_.
     go_bind (go_read (\<lambda>x. pi_prefix (snd x))) (\<lambda>pre.
     go_bind (on_pi_iter (valid_with_prefix it pre)) (\<lambda>ok.
     if \<not> ok then go_modify (\<lambda>x. (fst x, (snd x)\<lparr>pi_valid := False\<rparr>)) else ret ()))))"

definition stripPrefix :: "slice \<Rightarrow> slice \<Rightarrow> ('s, slice) go" where
  "stripPrefix k pre =
     (if length (bs k) < length (bs pre) \<or> take (length (bs pre)) (bs k) \<noteq> bs pre
      then go_panic (Panic_str ''should not happen'')
      else ret (Some (drop (length (bs pre)) (bs k))))"

definition prefixIterator_Key :: "('s \<times> 'i) iter_ops \<Rightarrow> ('s \<times> 'i prefixIterator, slice) go" where
  "prefixIterator_Key it =
     go_bind (check_valid ''prefixIterator invalid, cannot call Key()'') (\<lambda>_.
     go_bind (on_pi_iter (it_Key it)) (\<lambda>k.
     go_bind (go_read (\<lambda>x. pi_prefix (snd x))) (\<lambda>pre. stripPrefix k pre)))"

definition prefixIterator_Value :: "('s \<times> 'i) iter_ops \<Rightarrow> ('s \<times> 'i prefixIterator, slice) go" where
  "prefixIterator_Value it =
     go_bind (check_valid ''prefixIterator invalid, cannot call Value()'') (\<lambda>_.
     on_pi_iter (it_Value it))"

definition prefixIterator_Close :: "('s \<times> 'i) iter_ops \<Rightarrow> ('s \<times> 'i prefixIterator, string option) go" where
  "prefixIterator_Close it = on_pi_iter (it_Close it)"

definition prefixIterator_Error :: "('s \<times> 'i) iter_ops \<Rightarrow> ('s \<times> 'i prefixIterator, string option) go" where
  "prefixIterator_Error it =
     go_bind (prefixIterator_Valid it) (\<lambda>v. if \<not> v then ret (Some ''invalid prefixIterator'') else ret None)"

definition prefix_iter :: "('s \<times> 'i) iter_ops \<Rightarrow> ('s \<times> 'i prefixIterator) iter_ops" where
  "prefix_iter it = \<lparr>
     it_Domain = prefixIterator_Domain,
     it_Valid = prefixIterator_Valid it,
     it_Next = prefixIterator_Next it,
     it_Key = prefixIterator_Key it,
     it_Value = prefixIterator_Value it,
     it_Error = prefixIterator_Error it,
     it_Close = prefixIterator_Close it \<rparr>"

definition prefix_Iterator :: "('s, 'i) kv_ops \<Rightarrow> slice \<Rightarrow> slice \<Rightarrow> slice \<Rightarrow> ('s, 'i prefixIterator) go" where
  "prefix_Iterator P pre start end =
     go_bind (kv_Iterator P (cloneAppend pre start) (prefix_newend pre end)) (\<lambda>iter.
     newPrefixIterator (kv_iter P) pre start end iter)"

definition prefix_ReverseIterator :: "('s, 'i) kv_ops \<Rightarrow> slice \<Rightarrow> slice \<Rightarrow> slice \<Rightarrow> ('s, 'i prefixIterator) go" where
  "prefix_ReverseIterator P pre start end =
     go_bind (kv_ReverseIterator P (cloneAppend pre start) (prefix_newend pre end)) (\<lambda>iter.
     newPrefixIterator (kv_iter P) pre start end iter)"

definition prefix_GetAllKeyStrsInRange :: "('s, 'i) kv_ops \<Rightarrow> slice \<Rightarrow> slice \<Rightarrow> slice \<Rightarrow> ('s, bytes list) go" where
  "prefix_GetAllKeyStrsInRange P pre start end =
     kv_GetAllKeyStrsInRange P (cloneAppend pre start) (prefix_newend pre end)"

definition prefix_CacheWrap :: "'s \<Rightarrow> ('s, 't) cachekv" where
  "prefix_CacheWrap s = cachekv_NewStore s"

definition prefix_ops :: "('s, 'i) kv_ops \<Rightarrow> slice \<Rightarrow> ('s, 'i prefixIterator) kv_ops" where
  "prefix_ops P pre = \<lparr>
     kv_GetStoreType = kv_GetStoreType P,
     kv_Get = prefix_Get P pre,
     kv_Has = prefix_Has P pre,
     kv_Set = prefix_Set P pre,
     kv_Delete = prefix_Delete P pre,
     kv_Iterator = prefix_Iterator P pre,
     kv_ReverseIterator = prefix_ReverseIterator P pre,
     kv_GetAllKeyStrsInRange = prefix_GetAllKeyStrsInRange P pre,
     kv_iter = prefix_iter (kv_iter P) \<rparr>"

section \<open>The view is a KVStore\<close>

definition strip :: "bytes \<Rightarrow> bytes \<times> slice \<Rightarrow> bytes \<times> slice" where
  "strip p e = (drop (length p) (fst e), snd e)"

text \<open>The parent's range is the image of the view's.\<close>

lemma prefix_range:
  assumes "ok_range start end" "p \<noteq> []"
  shows "in_domain (cloneAppend (Some p) start) (prefix_newend (Some p) end) k \<longleftrightarrow>
      (\<exists>k'. k = p @ k' \<and> in_domain start end k')"
    and "ok_range (cloneAppend (Some p) start) (prefix_newend (Some p) end)"
proof -
  have pre: "prefix p k" if "p @ bs start \<le> k" "k < p @ e" for e
    using prefix_between [of p "p @ e" k] that prefix_imp_le [of p "p @ bs start"] by auto
  have le: "p \<le> k" if "p @ bs start \<le> k"
    using that prefix_imp_le [of p "p @ bs start"] by auto
  show "in_domain (cloneAppend (Some p) start) (prefix_newend (Some p) end) k \<longleftrightarrow>
      (\<exists>k'. k = p @ k' \<and> in_domain start end k')"
  proof (cases "end")
    case None
    have "p @ bs start \<le> k \<and> (case PrefixEndBytes (Some p) of None \<Rightarrow> True | Some e \<Rightarrow> k < e) \<longleftrightarrow>
        p @ bs start \<le> k \<and> prefix p k"
      using PrefixEndBytes_range [of p k] le by blast
    then show ?thesis
      using None by (auto simp: in_domain_def cloneAppend_def prefix_newend_def cpIncr_def prefix_def)
  next
    case (Some e)
    then show ?thesis
      using pre [of e] by (auto simp: in_domain_def cloneAppend_def prefix_newend_def prefix_def)
  qed
  show "ok_range (cloneAppend (Some p) start) (prefix_newend (Some p) end)"
  proof (cases "end")
    case None
    show ?thesis
    proof (cases "PrefixEndBytes (Some p)")
      case n: None
      with None assms(2) show ?thesis
        by (simp add: ok_range_def ok_bound_def cloneAppend_def prefix_newend_def cpIncr_def)
    next
      case (Some u)
      have "p @ bs start < u"
        using PrefixEndBytes_range [of p "p @ bs start"] Some by simp
      with None Some assms(2) show ?thesis
        by (auto simp: ok_range_def ok_bound_def cloneAppend_def prefix_newend_def cpIncr_def)
    qed
  next
    case (Some e)
    with assms show ?thesis
      by (simp add: ok_range_def ok_bound_def cloneAppend_def prefix_newend_def)
  qed
qed

lemma strip_covers:
  assumes c: "covers m (cloneAppend (Some p) start) (prefix_newend (Some p) end) asc xs"
    and r: "ok_range start end" "p \<noteq> []"
  shows "covers (\<lambda>k. m (p @ k)) start end asc (map (strip p) xs)" "\<forall>e \<in> set xs. prefix p (fst e)"
proof -
  have keys: "set (map fst xs) = {k \<in> dom m. in_domain (cloneAppend (Some p) start) (prefix_newend (Some p) end) k}"
    using covers_keys [OF c] .
  show all: "\<forall>e \<in> set xs. prefix p (fst e)"
  proof
    fix e assume "e \<in> set xs"
    then have "fst e \<in> set (map fst xs)" by simp
    then show "prefix p (fst e)"
      unfolding keys using prefix_range(1) [OF r] by (auto simp: prefix_def)
  qed
  obtain ys where ys: "xs = map (\<lambda>(k, v). (p @ k, v)) ys"
  proof
    have "xs = map (\<lambda>e. case strip p e of (k, v) \<Rightarrow> (p @ k, v)) xs"
      by (rule map_idI [symmetric]) (use all in \<open>auto simp: strip_def prefix_def\<close>)
    then show "xs = map (\<lambda>(k, v). (p @ k, v)) (map (strip p) xs)"
      by (simp add: comp_def)
  qed
  have st: "map (strip p) xs = ys"
    unfolding ys by (auto simp: strip_def comp_def case_prod_beta intro!: map_idI)
  have "sorted_wrt (before asc) (map fst xs)" using c by (simp add: covers_def)
  then have s: "sorted_wrt (before asc) (map fst ys)"
    unfolding ys by (cases asc) (simp_all add: sorted_wrt_map comp_def case_prod_beta)
  have m1: "map_of xs (p @ k) = map_of ys k" for k
    unfolding ys by (induction ys) auto
  have "map_of ys k = (if in_domain start end k then map_option Some (m (p @ k)) else None)" for k
    using c prefix_range(1) [OF r, of "p @ k"] m1 [of k] by (auto simp: covers_def)
  with s st show "covers (\<lambda>k. m (p @ k)) start end asc (map (strip p) xs)"
    by (simp add: covers_def)
qed

locale prefix_env = parent: kvstore P vk inv contents it_inv it_items
  for P :: "('s, 'i) kv_ops" and vk inv contents it_inv it_items +
  fixes p :: bytes
  assumes p: "p \<noteq> []"

text \<open>Under a \<open>prefixIterator\<close> the parent's iterator has only prefixed keys left.\<close>

definition prefix_it_inv :: "('s \<times> 'i \<Rightarrow> bool) \<Rightarrow> ('s \<times> 'i \<Rightarrow> (bytes \<times> slice) list) \<Rightarrow> bytes \<Rightarrow>
    's \<times> 'i prefixIterator \<Rightarrow> bool" where
  "prefix_it_inv it_inv it_items p x \<longleftrightarrow>
     (let y = (fst x, pi_iter (snd x)) in
      it_inv y \<and> pi_prefix (snd x) = Some p \<and> pi_valid (snd x) = (it_items y \<noteq> []) \<and>
      (\<forall>e \<in> set (it_items y). prefix p (fst e)))"

definition prefix_it_items :: "('s \<times> 'i \<Rightarrow> (bytes \<times> slice) list) \<Rightarrow> bytes \<Rightarrow>
    's \<times> 'i prefixIterator \<Rightarrow> (bytes \<times> slice) list" where
  "prefix_it_items it_items p x = map (strip p) (it_items (fst x, pi_iter (snd x)))"

context prefix_env
begin

lemma valid_with_prefix_wp:
  assumes "inv s" "it_inv (s, i)" "\<forall>e \<in> set (it_items (s, i)). prefix p (fst e)"
  shows "\<exists>s' i'. valid_with_prefix (kv_iter P) (Some p) (s, i) = Some (Inr (it_items (s, i) \<noteq> []), (s', i')) \<and>
    inv s' \<and> contents s' = contents s \<and> it_inv (s', i') \<and> it_items (s', i') = it_items (s, i)"
proof -
  obtain s1 i1 where 1: "it_Valid (kv_iter P) (s, i) = Some (Inr (it_items (s, i) \<noteq> []), (s1, i1))"
      "inv s1" "it_inv (s1, i1)" "it_items (s1, i1) = it_items (s, i)" "contents s1 = contents s"
    using parent.itValidE [OF assms(1,2)] by metis
  show ?thesis
  proof (cases "it_items (s, i)")
    case Nil
    with 1 show ?thesis by (simp add: valid_with_prefix_def go_bind_apply ret_def)
  next
    case (Cons e r)
    obtain k v where e: "e = (k, v)" by (cases e)
    obtain s2 i2 where 2: "it_Key (kv_iter P) (s1, i1) = Some (Inr (Some k), (s2, i2))"
        "inv s2" "it_inv (s2, i2)" "it_items (s2, i2) = it_items (s1, i1)" "contents s2 = contents s1"
      using parent.itKeyE [OF 1(2,3)] 1(4) Cons e by metis
    have "prefix p k" using assms(3) Cons e by auto
    with 1 2 Cons show ?thesis by (simp add: valid_with_prefix_def go_bind_apply ret_def HasPrefix_def)
  qed
qed

lemma newPrefixIterator_wp:
  assumes "inv s" "it_inv (s, i)" "\<forall>e \<in> set (it_items (s, i)). prefix p (fst e)"
  shows "wp (newPrefixIterator (kv_iter P) (Some p) start end i) (\<lambda>pi s'. inv s' \<and> contents s' = contents s \<and>
    prefix_it_inv it_inv it_items p (s', pi) \<and> prefix_it_items it_items p (s', pi) = map (strip p) (it_items (s, i))) s"
  using valid_with_prefix_wp [OF assms] assms(3)
  by (auto simp: newPrefixIterator_def go_local_def go_bind_apply ret_def wp_def prefix_it_inv_def prefix_it_items_def)

lemma Iterator_wp:
  assumes s: "inv s" and r: "ok_range start end"
    and it: "wp open (\<lambda>i s'. inv s' \<and> contents s' = contents s \<and> it_inv (s', i) \<and>
      covers (contents s) (cloneAppend (Some p) start) (prefix_newend (Some p) end) asc (it_items (s', i))) s"
  shows "wp (go_bind open (newPrefixIterator (kv_iter P) (Some p) start end)) (\<lambda>pi s'. inv s' \<and> contents s' = contents s \<and>
    prefix_it_inv it_inv it_items p (s', pi) \<and>
    covers (\<lambda>k. contents s (p @ k)) start end asc (prefix_it_items it_items p (s', pi))) s"
  unfolding wp_bind
proof (rule wp_mono [OF it])
  fix i s'
  assume A: "inv s' \<and> contents s' = contents s \<and> it_inv (s', i) \<and>
      covers (contents s) (cloneAppend (Some p) start) (prefix_newend (Some p) end) asc (it_items (s', i))"
  then have c: "covers (\<lambda>k. contents s (p @ k)) start end asc (map (strip p) (it_items (s', i)))"
    and pre: "\<forall>e \<in> set (it_items (s', i)). prefix p (fst e)"
    using strip_covers [OF _ r p] by blast+
  show "wp (newPrefixIterator (kv_iter P) (Some p) start end i) (\<lambda>pi s'. inv s' \<and> contents s' = contents s \<and>
    prefix_it_inv it_inv it_items p (s', pi) \<and>
    covers (\<lambda>k. contents s (p @ k)) start end asc (prefix_it_items it_items p (s', pi))) s'"
    by (rule wp_mono [OF newPrefixIterator_wp]) (use A c pre in auto)
qed

lemma on_pi_iter_apply:
  "on_pi_iter m (s, pi) = map_option (\<lambda>(r, y). (r, (fst y, pi\<lparr>pi_iter := snd y\<rparr>))) (m (s, pi_iter pi))"
  by (auto simp: on_pi_iter_def go_zoom_def split: option.splits)

lemma check_valid_run: "pi_valid pi \<Longrightarrow> check_valid msg (s, pi) = Some (Inr (), (s, pi))"
  by (simp add: check_valid_def go_bind_apply go_read_def ret_def)

lemma prefix_iterator:
  "iterator (prefix_iter (kv_iter P)) (\<lambda>x. inv (fst x) \<and> prefix_it_inv it_inv it_items p x)
     (prefix_it_items it_items p) ((\<lambda>s k. contents s (p @ k)) \<circ> fst)"
proof
  fix x assume I: "inv (fst x) \<and> prefix_it_inv it_inv it_items p x"
  obtain s pi where x: "x = (s, pi)" by (cases x)
  obtain s1 i1 where 1: "it_Valid (kv_iter P) (s, pi_iter pi) = Some (Inr (it_items (s, pi_iter pi) \<noteq> []), (s1, i1))"
      "inv s1" "it_inv (s1, i1)" "it_items (s1, i1) = it_items (s, pi_iter pi)" "contents s1 = contents s"
    using parent.itValidE [of s "pi_iter pi"] I x by (auto simp: prefix_it_inv_def Let_def)
  show "wp (it_Valid (prefix_iter (kv_iter P))) (\<lambda>b x'. b = (prefix_it_items it_items p x \<noteq> []) \<and>
      (inv (fst x') \<and> prefix_it_inv it_inv it_items p x') \<and> prefix_it_items it_items p x' = prefix_it_items it_items p x \<and>
      ((\<lambda>s k. contents s (p @ k)) \<circ> fst) x' = ((\<lambda>s k. contents s (p @ k)) \<circ> fst) x) x"
    using I x 1 by (auto simp: wp_def prefix_iter_def prefixIterator_Valid_def go_bind_apply go_read_def on_pi_iter_apply
      ret_def prefix_it_inv_def prefix_it_items_def Let_def)
next
  fix x k v r
  assume I: "inv (fst x) \<and> prefix_it_inv it_inv it_items p x" and front: "prefix_it_items it_items p x = (k, v) # r"
  obtain s pi where x: "x = (s, pi)" by (cases x)
  obtain k' r' where it: "it_items (s, pi_iter pi) = (k', v) # r'" "k = drop (length p) k'" "r = map (strip p) r'"
    using front x by (auto simp: prefix_it_items_def strip_def)
  have s: "inv s" "it_inv (s, pi_iter pi)" "pi_prefix pi = Some p" "pi_valid pi" and pk: "prefix p k'"
    and pr: "\<forall>e \<in> set r'. prefix p (fst e)"
    using I x it(1) by (auto simp: prefix_it_inv_def Let_def)
  obtain s1 i1 where 1: "it_Key (kv_iter P) (s, pi_iter pi) = Some (Inr (Some k'), (s1, i1))"
      "inv s1" "it_inv (s1, i1)" "it_items (s1, i1) = it_items (s, pi_iter pi)" "contents s1 = contents s"
    using parent.itKeyE [OF s(1,2) it(1)] by metis
  have "\<not> (length k' < length p \<or> take (length p) k' \<noteq> p)"
    using pk by (auto simp: prefix_def)
  then show "wp (it_Key (prefix_iter (kv_iter P))) (\<lambda>y x'. y = Some k \<and>
      (inv (fst x') \<and> prefix_it_inv it_inv it_items p x') \<and> prefix_it_items it_items p x' = prefix_it_items it_items p x \<and>
      ((\<lambda>s k. contents s (p @ k)) \<circ> fst) x' = ((\<lambda>s k. contents s (p @ k)) \<circ> fst) x) x"
    using I x 1 s it(2) by (simp add: wp_def prefix_iter_def prefixIterator_Key_def go_bind_apply check_valid_run go_read_def
      on_pi_iter_apply ret_def prefix_it_inv_def prefix_it_items_def Let_def stripPrefix_def)
  obtain s2 i2 where 2: "it_Value (kv_iter P) (s, pi_iter pi) = Some (Inr v, (s2, i2))"
      "inv s2" "it_inv (s2, i2)" "it_items (s2, i2) = it_items (s, pi_iter pi)" "contents s2 = contents s"
    using parent.itValueE [OF s(1,2) it(1)] by metis
  then show "wp (it_Value (prefix_iter (kv_iter P))) (\<lambda>y x'. y = v \<and>
      (inv (fst x') \<and> prefix_it_inv it_inv it_items p x') \<and> prefix_it_items it_items p x' = prefix_it_items it_items p x \<and>
      ((\<lambda>s k. contents s (p @ k)) \<circ> fst) x' = ((\<lambda>s k. contents s (p @ k)) \<circ> fst) x) x"
    using I x s by (simp add: wp_def prefix_iter_def prefixIterator_Value_def go_bind_apply check_valid_run
      on_pi_iter_apply prefix_it_inv_def prefix_it_items_def Let_def)
  obtain s3 i3 where 3: "it_Next (kv_iter P) (s, pi_iter pi) = Some (Inr (), (s3, i3))"
      "inv s3" "it_inv (s3, i3)" "it_items (s3, i3) = r'" "contents s3 = contents s"
    using parent.itNextE [OF s(1,2) it(1)] by metis
  obtain s4 i4 where 4: "valid_with_prefix (kv_iter P) (Some p) (s3, i3) = Some (Inr (r' \<noteq> []), (s4, i4))"
      "inv s4" "contents s4 = contents s3" "it_inv (s4, i4)" "it_items (s4, i4) = r'"
    using valid_with_prefix_wp [of s3 i3] 3 pr by auto
  show "wp (it_Next (prefix_iter (kv_iter P))) (\<lambda>_ x'.
      (inv (fst x') \<and> prefix_it_inv it_inv it_items p x') \<and> prefix_it_items it_items p x' = r \<and>
      ((\<lambda>s k. contents s (p @ k)) \<circ> fst) x' = ((\<lambda>s k. contents s (p @ k)) \<circ> fst) x) x"
    using x s 3 4 pr it(3) by (cases r') (simp_all add: wp_def prefix_iter_def prefixIterator_Next_def go_bind_apply
      check_valid_run on_pi_iter_apply go_read_def go_modify_def ret_def prefix_it_inv_def prefix_it_items_def Let_def)
qed

end

text \<open>The contract of the view: it accepts the keys whose prefixed form the parent accepts.\<close>

sublocale prefix_env \<subseteq> view: kvstore "prefix_ops P (Some p)" "\<lambda>k. valid_key k \<and> vk (p @ k)" inv
  "\<lambda>s k. contents s (p @ k)" "prefix_it_inv it_inv it_items p" "prefix_it_items it_items p"
proof (rule kvstore.intro)
  fix s k v start "end"
  assume s: "inv s"
  { assume k: "valid_key k \<and> vk (p @ k)"
    show "wp (kv_Get (prefix_ops P (Some p)) (Some k)) (\<lambda>r s'. r = contents s (p @ k) \<and> inv s' \<and> (\<lambda>k. contents s' (p @ k)) = (\<lambda>k. contents s (p @ k))) s"
      using parent.Get [OF s, of "p @ k"] k
      by (auto simp: prefix_ops_def prefix_Get_def prefix_key_def cloneAppend_def elim!: wp_mono)
    show "wp (kv_Has (prefix_ops P (Some p)) (Some k)) (\<lambda>r s'. r = (contents s (p @ k) \<noteq> None) \<and> inv s' \<and> (\<lambda>k. contents s' (p @ k)) = (\<lambda>k. contents s (p @ k))) s"
      using parent.Has [OF s, of "p @ k"] k
      by (auto simp: prefix_ops_def prefix_Has_def prefix_key_def cloneAppend_def elim!: wp_mono)
    show "wp (kv_Delete (prefix_ops P (Some p)) (Some k)) (\<lambda>_ s'. inv s' \<and> (\<lambda>k. contents s' (p @ k)) = (\<lambda>k. contents s (p @ k))(k := None)) s"
      using parent.Delete [OF s, of "p @ k"] k
      by (auto simp: prefix_ops_def prefix_Delete_def prefix_key_def cloneAppend_def elim!: wp_mono)
    assume "valid_value v"
    then show "wp (kv_Set (prefix_ops P (Some p)) (Some k) (Some v)) (\<lambda>_ s'. inv s' \<and> (\<lambda>k. contents s' (p @ k)) = (\<lambda>k. contents s (p @ k))(k \<mapsto> v)) s"
      using parent.Set [OF s, of "p @ k" v] k
      by (auto simp: prefix_ops_def prefix_Set_def prefix_key_def cloneAppend_def elim!: wp_mono) }
  { assume r: "ok_range start end"
    show "wp (kv_Iterator (prefix_ops P (Some p)) start end) (\<lambda>i s'. inv s' \<and> (\<lambda>k. contents s' (p @ k)) = (\<lambda>k. contents s (p @ k)) \<and>
        prefix_it_inv it_inv it_items p (s', i) \<and> covers (\<lambda>k. contents s (p @ k)) start end True (prefix_it_items it_items p (s', i))) s"
      using Iterator_wp [OF s r parent.Iterator [OF s prefix_range(2) [OF r p]]]
      by (auto simp: prefix_ops_def prefix_Iterator_def elim!: wp_mono)
    show "wp (kv_ReverseIterator (prefix_ops P (Some p)) start end) (\<lambda>i s'. inv s' \<and> (\<lambda>k. contents s' (p @ k)) = (\<lambda>k. contents s (p @ k)) \<and>
        prefix_it_inv it_inv it_items p (s', i) \<and> covers (\<lambda>k. contents s (p @ k)) start end False (prefix_it_items it_items p (s', i))) s"
      using Iterator_wp [OF s r parent.ReverseIterator [OF s prefix_range(2) [OF r p]]]
      by (auto simp: prefix_ops_def prefix_ReverseIterator_def elim!: wp_mono) }
next
  show "iterator (kv_iter (prefix_ops P (Some p))) (\<lambda>x. inv (fst x) \<and> prefix_it_inv it_inv it_items p x)
      (prefix_it_items it_items p) ((\<lambda>s k. contents s (p @ k)) \<circ> fst)"
    using prefix_iterator by (simp add: prefix_ops_def)
next
  fix s i
  assume "inv s" "prefix_it_inv it_inv it_items p (s, i)"
  then show "wp (it_Close (kv_iter (prefix_ops P (Some p)))) (\<lambda>_ x'. inv (fst x') \<and>
      (\<lambda>k. contents (fst x') (p @ k)) = (\<lambda>k. contents s (p @ k))) (s, i)"
    using parent.Close [of s "pi_iter i"]
    by (auto simp: prefix_ops_def prefix_iter_def prefixIterator_Close_def on_pi_iter_def wp_zoom prefix_it_inv_def
      Let_def elim!: wp_mono)
qed

text \<open>Writes through a view, and what they do to its contents.\<close>

datatype view_write = V_Set bytes bytes | V_Delete bytes

primrec run_view_write :: "('s, 'i) kv_ops \<Rightarrow> bytes \<Rightarrow> view_write \<Rightarrow> ('s, unit) go" where
  "run_view_write P p (V_Set k v) = prefix_Set P (Some p) (Some k) (Some v)"
| "run_view_write P p (V_Delete k) = prefix_Delete P (Some p) (Some k)"

primrec apply_view_write :: "view_write \<Rightarrow> (bytes \<rightharpoonup> bytes) \<Rightarrow> (bytes \<rightharpoonup> bytes)" where
  "apply_view_write (V_Set k v) m = m(k \<mapsto> v)"
| "apply_view_write (V_Delete k) m = m(k := None)"

definition view_write_ok :: "(bytes \<Rightarrow> bool) \<Rightarrow> bytes \<Rightarrow> view_write \<Rightarrow> bool" where
  "view_write_ok vk p c = (case c of V_Set k v \<Rightarrow> valid_key k \<and> vk (p @ k) \<and> valid_value v | V_Delete k \<Rightarrow> valid_key k \<and> vk (p @ k))"

context prefix_env
begin

lemma view_kvstore:
  "kvstore (prefix_ops P (Some p)) (\<lambda>k. valid_key k \<and> vk (p @ k)) inv (\<lambda>s k. contents s (p @ k))
     (prefix_it_inv it_inv it_items p) (prefix_it_items it_items p)"
  by (rule view.kvstore_axioms)

text \<open>A write through the view leaves every key without the prefix alone.\<close>

lemma view_isolated:
  assumes "inv s" "valid_key k" "vk (p @ k)" "valid_value v" "\<not> prefix p k'"
  shows "wp (prefix_Set P (Some p) (Some k) (Some v)) (\<lambda>_ s'. contents s' k' = contents s k') s"
    and "wp (prefix_Delete P (Some p) (Some k)) (\<lambda>_ s'. contents s' k' = contents s k') s"
  using parent.Set [OF assms(1), of "p @ k" v] parent.Delete [OF assms(1), of "p @ k"] assms
  by (auto simp: prefix_Set_def prefix_Delete_def prefix_key_def cloneAppend_def elim!: wp_mono)

lemma view_write_run:
  assumes "inv s" "view_write_ok vk p c"
  shows "\<exists>s'. run_view_write P p c s = Some (Inr (), s') \<and> inv s' \<and> (\<forall>k. \<not> prefix p k \<longrightarrow> contents s' k = contents s k) \<and>
    (\<lambda>k. contents s' (p @ k)) = apply_view_write c (\<lambda>k. contents s (p @ k))"
proof (cases c)
  case (V_Set k v)
  have ok: "valid_key k" "vk (p @ k)" "valid_value v" using assms(2) by (simp_all add: V_Set view_write_ok_def)
  obtain s' where s': "prefix_Set P (Some p) (Some k) (Some v) s = Some (Inr (), s')" "inv s'"
      "(\<lambda>k. contents s' (p @ k)) = (\<lambda>k. contents s (p @ k))(k \<mapsto> v)"
    using view.Set [OF assms(1), of k v] ok by (auto simp: wp_def prefix_ops_def)
  moreover have "contents s' k' = contents s k'" if "\<not> prefix p k'" for k'
    using view_isolated(1) [OF assms(1) ok that] s'(1) by (simp add: wp_def)
  ultimately show ?thesis by (simp add: V_Set)
next
  case (V_Delete k)
  have ok: "valid_key k" "vk (p @ k)" using assms(2) by (simp_all add: V_Delete view_write_ok_def)
  obtain s' where s': "prefix_Delete P (Some p) (Some k) s = Some (Inr (), s')" "inv s'"
      "(\<lambda>k. contents s' (p @ k)) = (\<lambda>k. contents s (p @ k))(k := None)"
    using view.Delete [OF assms(1), of k] ok by (auto simp: wp_def prefix_ops_def)
  moreover have "contents s' k' = contents s k'" if "\<not> prefix p k'" for k'
    using view_isolated(2) [OF assms(1) ok _ that, of "[]"] s'(1) by (simp add: wp_def valid_value_def)
  ultimately show ?thesis by (simp add: V_Delete)
qed

lemma view_writes_run:
  assumes "inv s" "\<forall>c \<in> set cs. view_write_ok vk p c"
  shows "\<exists>s'. go_for cs (run_view_write P p) s = Some (Inr (), s') \<and> (\<forall>k. \<not> prefix p k \<longrightarrow> contents s' k = contents s k) \<and>
    (\<lambda>k. contents s' (p @ k)) = fold apply_view_write cs (\<lambda>k. contents s (p @ k))"
  using assms
proof (induction cs arbitrary: s)
  case Nil
  then show ?case by (simp add: ret_def)
next
  case (Cons c cs)
  obtain s1 where 1: "run_view_write P p c s = Some (Inr (), s1)" "inv s1" "\<forall>k. \<not> prefix p k \<longrightarrow> contents s1 k = contents s k"
      "(\<lambda>k. contents s1 (p @ k)) = apply_view_write c (\<lambda>k. contents s (p @ k))"
    using view_write_run [of s c] Cons.prems by auto
  obtain s2 where "go_for cs (run_view_write P p) s1 = Some (Inr (), s2)" "\<forall>k. \<not> prefix p k \<longrightarrow> contents s2 k = contents s1 k"
      "(\<lambda>k. contents s2 (p @ k)) = fold apply_view_write cs (\<lambda>k. contents s1 (p @ k))"
    using Cons.IH [OF 1(2)] Cons.prems(2) by auto
  then show ?case using 1 by (simp add: go_bind_apply)
qed

end

interpretation ref_prefix: prefix_env ref_kv valid_key ref_d_inv map_of "\<lambda>_. True" ref_di_items "[7, 255]"
  by (intro prefix_env.intro prefix_env_axioms.intro ref_cache.parent.kvstore_axioms) simp

section \<open>Properties\<close>

text \<open>C10. For a non-empty prefix the view of a store is a store: it keeps the contract, on the contents of
  the parent at the prefixed keys, for every key whose prefixed form the parent accepts.\<close>

theorem prefix_refines_KVStore:
  assumes "kvstore P vk p_inv contents it_inv it_items" "p \<noteq> []"
  shows "kvstore (prefix_ops P (Some p)) (\<lambda>k. valid_key k \<and> vk (p @ k)) p_inv (\<lambda>s k. contents s (p @ k))
    (prefix_it_inv it_inv it_items p) (prefix_it_items it_items p)"
  by (rule prefix_env.view_kvstore) (use assms in \<open>simp add: prefix_env_def prefix_env_axioms_def\<close>)

theorem prefix_refines_KVStore_witness:
  "kvstore (prefix_ops ref_kv (Some [7, 255])) (\<lambda>k. valid_key k \<and> valid_key ([7, 255] @ k)) ref_d_inv
    (\<lambda>s k. map_of s ([7, 255] @ k)) (prefix_it_inv (\<lambda>_. True) ref_di_items [7, 255]) (prefix_it_items ref_di_items [7, 255])"
  by (rule prefix_refines_KVStore [OF ref_cache.parent.kvstore_axioms]) simp

text \<open>C31. Views are isolated: any sequence of writes and deletes through the view of one prefix runs, changes no key of the parent that does not
  start with that prefix, and does to the keys that do what the same writes do to a map.\<close>

theorem prefix_view_isolated:
  assumes "kvstore P vk p_inv contents it_inv it_items" "p \<noteq> []" "p_inv s" "\<forall>c \<in> set cs. view_write_ok vk p c"
  shows "wp (go_for cs (run_view_write P p)) (\<lambda>_ s'. (\<forall>k. \<not> prefix p k \<longrightarrow> contents s' k = contents s k) \<and>
    (\<lambda>k. contents s' (p @ k)) = fold apply_view_write cs (\<lambda>k. contents s (p @ k))) s"
proof -
  have env: "prefix_env P vk p_inv contents it_inv it_items p"
    using assms by (simp add: prefix_env_def prefix_env_axioms_def)
  show ?thesis using prefix_env.view_writes_run [OF env assms(3,4)] by (auto simp: wp_def)
qed

theorem prefix_view_isolated_witness:
  "wp (go_for [V_Set [1] [5], V_Set [2] [6], V_Delete [1]] (run_view_write ref_kv [7, 255]))
    (\<lambda>_ s'. map_of s' [7, 254] = Some [9] \<and> map_of s' [7, 255, 1] = None \<and> map_of s' [7, 255, 2] = Some [6]) [([7, 254], [9])]"
proof -
  have "wp (go_for [V_Set [1] [5], V_Set [2] [6], V_Delete [1]] (run_view_write ref_kv [7, 255]))
      (\<lambda>_ s'. (\<forall>k. \<not> prefix [7, 255] k \<longrightarrow> map_of s' k = map_of [([7, 254], [9])] k) \<and>
        (\<lambda>k. map_of s' ([7, 255] @ k)) = fold apply_view_write [V_Set [1] [5], V_Set [2] [6], V_Delete [1]] (\<lambda>k. map_of [([7, 254], [9])] ([7, 255] @ k)))
      [([7, 254], [9])]"
    by (rule prefix_view_isolated [OF ref_cache.parent.kvstore_axioms])
      (simp_all add: view_write_ok_def ref_d_inv_def valid_key_def valid_value_def MaxKeyLength_def MaxValueLength_def)
  then show ?thesis
  proof (rule wp_mono, elim conjE)
    fix s' :: ref_db_state
    assume other: "\<forall>k. \<not> prefix [7, 255] k \<longrightarrow> map_of s' k = map_of [([7, 254], [9])] k"
      and view: "(\<lambda>k. map_of s' ([7, 255] @ k)) = fold apply_view_write [V_Set [1] [5], V_Set [2] [6], V_Delete [1]] (\<lambda>k. map_of [([7, 254], [9])] ([7, 255] @ k))"
    show "map_of s' [7, 254] = Some [9] \<and> map_of s' [7, 255, 1] = None \<and> map_of s' [7, 255, 2] = Some [6]"
      using other [rule_format, of "[7, 254]"] fun_cong [OF view, of "[1]"] fun_cong [OF view, of "[2]"] by simp
  qed
qed

end
