(* ===== verification/Util_Props.thy ===== *)
theory Util_Props
  imports Prefix_KV
begin

text \<open>
  The utilities of types/utils.go and types/iterator.go, and the two index searches of
  cachekv/store.go: pages of a prefix range, the end of a prefix range, big-endian keys, store names
  without common prefixes, binary search in a sorted list of keys.
\<close>

section \<open>Pages\<close>

text \<open>A \<open>PaginatedIterator\<close> is an iterator over what its limit leaves of the items.\<close>

definition page_items :: "('x \<Rightarrow> (bytes \<times> slice) list) \<Rightarrow> 'x \<times> PaginatedIterator \<Rightarrow> (bytes \<times> slice) list" where
  "page_items items x = take (unat (pg_limit (snd x)) - unat (pg_iterated (snd x))) (items (fst x))"

lemma page_items_nil: "page_items items x = [] \<longleftrightarrow> pg_limit (snd x) \<le> pg_iterated (snd x) \<or> items (fst x) = []"
  by (auto simp: page_items_def word_le_nat_alt)

lemma paginated_iterator:
  assumes "iterator (it :: 'x iter_ops) I items obs"
  shows "iterator (paginated_ops it) (I \<circ> fst) (page_items items) (obs \<circ> fst)"
proof -
  note Valid = iterator.Valid [OF assms] and Key = iterator.Key [OF assms]
    and Value = iterator.Value [OF assms] and Next = iterator.Next [OF assms]
  have V: "wp (paginated_Valid it) (\<lambda>b x'. b = (page_items items x \<noteq> []) \<and> (I \<circ> fst) x' \<and>
      snd x' = snd x \<and> items (fst x') = items (fst x) \<and> (obs \<circ> fst) x' = (obs \<circ> fst) x) x" if "(I \<circ> fst) x" for x
    using Valid [of "fst x"] that unfolding page_items_nil
    by (auto simp: paginated_Valid_def wp_simps elim!: wp_mono)
  show ?thesis
  proof
    fix x :: "'x \<times> PaginatedIterator"
    assume "(I \<circ> fst) x"
    from V [OF this] show "wp (it_Valid (paginated_ops it)) (\<lambda>b x'. b = (page_items items x \<noteq> []) \<and> (I \<circ> fst) x' \<and>
        page_items items x' = page_items items x \<and> (obs \<circ> fst) x' = (obs \<circ> fst) x) x"
      by (auto simp: paginated_ops_def page_items_def elim!: wp_mono)
  next
    fix x :: "'x \<times> PaginatedIterator" and k v r
    assume I: "(I \<circ> fst) x" and x: "page_items items x = (k, v) # r"
    let ?n = "unat (pg_limit (snd x)) - unat (pg_iterated (snd x))"
    obtain n r' where n: "?n = Suc n" and r': "items (fst x) = (k, v) # r'" "r = take n r'"
      using x unfolding page_items_def by (cases ?n; cases "items (fst x)") auto
    have "unat (pg_iterated (snd x)) + 1 < 2 ^ 64"
      using n unsigned_less [of "pg_limit (snd x)", where 'a = nat] by simp
    then have inc: "unat (pg_iterated (snd x) + 1) = unat (pg_iterated (snd x)) + 1"
      by (simp add: unat_word_ariths)
    show "wp (it_Key (paginated_ops it)) (\<lambda>y x'. y = Some k \<and> (I \<circ> fst) x' \<and>
        page_items items x' = page_items items x \<and> (obs \<circ> fst) x' = (obs \<circ> fst) x) x"
      using Key [of "fst x" k v r'] I r' by (auto simp: paginated_ops_def wp_simps page_items_def elim!: wp_mono)
    show "wp (it_Value (paginated_ops it)) (\<lambda>y x'. y = v \<and> (I \<circ> fst) x' \<and>
        page_items items x' = page_items items x \<and> (obs \<circ> fst) x' = (obs \<circ> fst) x) x"
      using Value [of "fst x" k v r'] I r' by (auto simp: paginated_ops_def wp_simps page_items_def elim!: wp_mono)
    obtain x1 where 1: "paginated_Valid it x = Some (Inr True, x1)" "(I \<circ> fst) x1" "snd x1 = snd x"
        "items (fst x1) = (k, v) # r'" "obs (fst x1) = obs (fst x)"
      using V [OF I] x r'(1) by (auto elim!: wpE)
    obtain y where 2: "it_Next it (fst x1) = Some (Inr (), y)" "I y" "items y = r'" "obs y = obs (fst x1)"
      using Next [of "fst x1" k v r'] 1 by (auto elim!: wpE)
    have "?n - 1 = n" using n by simp
    then have "unat (pg_limit (snd x)) - unat (pg_iterated (snd x) + 1) = n" using inc by simp
    then show "wp (it_Next (paginated_ops it)) (\<lambda>_ x'. (I \<circ> fst) x' \<and> page_items items x' = r \<and> (obs \<circ> fst) x' = (obs \<circ> fst) x) x"
      using 1 2 r'(2)
      by (simp add: paginated_ops_def paginated_Next_def wp_def go_bind_apply go_zoom_def go_modify_def page_items_def
        case_prod_beta)
  qed
qed

lemma paginated_skip_loop_wp:
  assumes "iterator it I items obs" "I x"
  shows "wp (paginated_skip_loop it n) (\<lambda>_ x'. I x' \<and> items x' = drop n (items x) \<and> obs x' = obs x) x"
  using assms(2)
proof (induction n arbitrary: x)
  case (Suc n)
  obtain x1 where 1: "it_Valid it x = Some (Inr (items x \<noteq> []), x1)" "I x1" "items x1 = items x" "obs x1 = obs x"
    using iterator.ValidE [OF assms(1) Suc.prems] .
  show ?case
  proof (cases "items x")
    case Nil
    with 1 show ?thesis by (simp add: wp_def go_bind_apply ret_def)
  next
    case (Cons e r)
    obtain k v where e: "e = (k, v)" by (cases e)
    obtain x2 where 2: "it_Next it x1 = Some (Inr (), x2)" "I x2" "items x2 = r" "obs x2 = obs x1"
      using iterator.NextE [OF assms(1) 1(2)] 1(3) Cons e by metis
    with 1 Cons Suc.IH [OF 2(2)] show ?thesis by (simp add: wp_def go_bind_apply)
  qed
qed (simp add: wp_simps)

text \<open>The methods of a page on the store and the pair of iterator and counters.\<close>

definition page_iter :: "('s, 'i) kv_ops \<Rightarrow> ('s \<times> 'i \<times> PaginatedIterator) iter_ops" where
  "page_iter kvs = zoom_iter (\<lambda>(s, i, pi). ((s, i), pi)) (\<lambda>((s, i), pi) _. (s, i, pi)) (paginated_ops (kv_iter kvs))"

definition page_keys :: "('s, 'i) kv_ops \<Rightarrow> bytes \<Rightarrow> 64 word \<Rightarrow> 64 word \<Rightarrow> ('s, bytes list) go" where
  "page_keys kvs p page limit =
     with_iter (KVStorePrefixIteratorPaginated kvs (Some p) page limit) (iter_keys (page_iter kvs) [])"

lemma wp_newPaginated:
  assumes "iterator (kv_iter kvs) I items obs" "wp open (\<lambda>i s'. I (s', i) \<and> R (items (s', i)) (obs (s', i))) s"
    and "page \<noteq> 0" "unat (page - 1) * unat limit < 2 ^ 64"
  shows "wp (newPaginatedIterator kvs open page limit) (\<lambda>(i, pi) s'. I (s', i) \<and> pi = \<lparr>pg_page = page, pg_limit = limit, pg_iterated = 0\<rparr> \<and>
    (\<exists>xs. R xs (obs (s', i)) \<and> items (s', i) = drop ((unat page - 1) * unat limit) xs)) s"
proof -
  have "unat (page - 1) = unat page - 1"
    using assms(3) by (metis unat_minus_one)
  moreover have "unat ((page - 1) * limit) = unat (page - 1) * unat limit"
    using assms(4) by (simp add: unat_word_ariths)
  ultimately have n: "unat ((page - 1) * limit) = (unat page - 1) * unat limit" by simp
  have "wp (go_local i (paginated_skip (kv_iter kvs) \<lparr>pg_page = page, pg_limit = limit, pg_iterated = 0\<rparr>))
      (\<lambda>(_, i') s''. I (s'', i') \<and> items (s'', i') = drop ((unat page - 1) * unat limit) (items (s', i)) \<and> obs (s'', i') = obs (s', i)) s'"
    if "I (s', i)" for i s'
    using paginated_skip_loop_wp [OF assms(1) that, of "unat ((page - 1) * limit)"]
    by (auto simp: paginated_skip_def wp_simps n elim!: wp_mono)
  then show ?thesis
    unfolding newPaginatedIterator_def Let_def
    by (intro wp_bind [THEN iffD2] wp_mono [OF assms(2)]) (fastforce simp: wp_simps case_prod_beta elim!: wp_mono)
qed

lemma page_iter_iterator:
  assumes "iterator (kv_iter kvs) I items obs"
  shows "iterator (page_iter kvs) (\<lambda>(s, i, pi). I (s, i)) (\<lambda>(s, i, pi). page_items items ((s, i), pi)) (\<lambda>(s, i, pi). obs (s, i))"
proof -
  have "iterator (page_iter kvs) (\<lambda>(s, i, pi). I (s, i)) (page_items items \<circ> (\<lambda>(s, i, pi). ((s, i), pi))) (\<lambda>(s, i, pi). obs (s, i))"
    unfolding page_iter_def by (rule iterator_zoom [OF paginated_iterator [OF assms]]) auto
  then show ?thesis
    by (rule iterator_items_cong) auto
qed

lemma ok_range_prefix: "p \<noteq> [] \<Longrightarrow> ok_range (Some p) (PrefixEndBytes (Some p))"
  using prefix_range(2) [of None None p]
  by (simp add: ok_range_def [of None None] ok_bound_def cloneAppend_def prefix_newend_def cpIncr_def)

lemma in_domain_prefix: "in_domain (Some p) (PrefixEndBytes (Some p)) k \<longleftrightarrow> prefix p k"
  using PrefixEndBytes_range [of p k] by (simp add: in_domain_def)

text \<open>C35. Page \<open>n\<close> of a prefix range, with a limit per page: iterating over it ends and yields, of the
  keys under the prefix in ascending order, the \<open>limit\<close> ones after the first \<open>(n - 1) * limit\<close>, as long
  as that number fits in 64 bits.\<close>

theorem paginated_page:
  assumes "kvstore P vk p_inv contents it_inv it_items" "p_inv s" "p \<noteq> []"
    and "page \<noteq> 0" "unat (page - 1) * unat limit < 2 ^ 64"
  shows "wp (page_keys P p page limit) (\<lambda>ks s'. p_inv s' \<and> contents s' = contents s \<and>
    (\<exists>all. sorted_wrt (<) all \<and> set all = {k \<in> dom (contents s). prefix p k} \<and>
      ks = take (unat limit) (drop ((unat page - 1) * unat limit) all))) s"
proof -
  note it = kvstore.iter [OF assms(1)]
  let ?I = "\<lambda>x. p_inv (fst x) \<and> it_inv x"
  let ?R = "\<lambda>xs c. c = contents s \<and> covers (contents s) (Some p) (PrefixEndBytes (Some p)) True xs"
  have "wp (KVStorePrefixIterator P (Some p)) (\<lambda>i s'. ?I (s', i) \<and> ?R (it_items (s', i)) ((contents \<circ> fst) (s', i))) s"
    using kvstore.Iterator [OF assms(1,2) ok_range_prefix [OF assms(3)]]
    by (auto simp: KVStorePrefixIterator_def elim!: wp_mono)
  from wp_newPaginated [where R = ?R, OF it _ assms(4,5), of "KVStorePrefixIterator P (Some p)" s, OF this]
  have "wp (KVStorePrefixIteratorPaginated P (Some p) page limit) (\<lambda>(i, pi) s'. ?I (s', i) \<and>
      pi = \<lparr>pg_page = page, pg_limit = limit, pg_iterated = 0\<rparr> \<and>
      (\<exists>xs. ?R xs (contents s') \<and> it_items (s', i) = drop ((unat page - 1) * unat limit) xs)) s"
    by (simp add: KVStorePrefixIteratorPaginated_def)
  then show ?thesis
    unfolding page_keys_def wp_with_iter
  proof (rule wp_mono, clarify, goal_cases)
    case (1 i pi s' xs)
    have "set (map fst xs) = {k \<in> dom (contents s). prefix p k}" "sorted_wrt (<) (map fst xs)"
      using 1 covers_keys [of "contents s" "Some p" "PrefixEndBytes (Some p)" True xs]
      by (simp_all add: in_domain_prefix covers_def)
    with 1 show ?case
      by (intro iterator.iter_keys_wp [OF page_iter_iterator [OF it]])
        (auto simp: page_items_def take_map drop_map case_prod_beta intro!: exI [of _ "map fst xs"])
  qed
qed

theorem paginated_page_witness:
  "wp (page_keys ref_kv [7] 2 1) (\<lambda>ks s'. ref_d_inv s' \<and> map_of s' = map_of [([7, 2], [1]), ([7, 1], [2])] \<and>
    (\<exists>all. sorted_wrt (<) all \<and> set all = {k \<in> dom (map_of [([7, 2], [1]), ([7, 1], [2])]). prefix [7] k} \<and>
      ks = take 1 (drop 1 all))) [([7, 2], [1]), ([7, 1], [2])]"
  using paginated_page [OF ref_cache.parent.kvstore_axioms, of "[([7, 2], [1]), ([7, 1], [2])]" "[7]" 2 1]
  by (simp add: ref_d_inv_def)

section \<open>Prefix ranges, names and encodings\<close>

text \<open>\<open>PrefixEndBytes\<close> closes the range of a prefix: the keys from the prefix up to it are exactly the
  keys that start with the prefix, also when the prefix ends in 0xFF bytes or consists of them, and
  \<open>InclusiveEndBytes\<close> closes a range that includes its last key.\<close>

lemma prefix_range_exact:
  "(in_domain (Some p) (PrefixEndBytes (Some p)) k \<longleftrightarrow> prefix p k) \<and>
   (in_domain start (Some (InclusiveEndBytes e)) k \<longleftrightarrow> bs start \<le> k \<and> k \<le> e)"
  by (simp add: in_domain_prefix, simp add: in_domain_def InclusiveEndBytes_range)

text \<open>A 64-bit number survives the trip through its big-endian key, keys sort as the numbers do, and
  every 8-byte key is the encoding of a number.\<close>

lemma bigendian_roundtrip:
  "BigEndianToUint64 (Some (Uint64ToBigEndian x)) = Inr x \<and>
   (Uint64ToBigEndian x < Uint64ToBigEndian y \<longleftrightarrow> x < y) \<and>
   (\<forall>b. length b = 8 \<longrightarrow> (\<exists>z. b = Uint64ToBigEndian z))"
proof (intro conjI allI impI)
  have lt: "unat z mod 256 ^ 8 = unat z" for z :: "64 word"
    using unsigned_less [of z, where 'a = nat] by simp
  show "BigEndianToUint64 (Some (Uint64ToBigEndian x)) = Inr x"
    using lt [of x] by (simp add: BigEndianToUint64_def Uint64ToBigEndian_def be_get_def be_value_put)
  show "Uint64ToBigEndian x < Uint64ToBigEndian y \<longleftrightarrow> x < y"
    using lt [of x] lt [of y] by (simp add: Uint64ToBigEndian_def be_value_mono be_value_put word_less_nat_alt)
  fix b :: bytes
  assume l: "length b = 8"
  have "unat (word_of_nat (be_value b) :: 64 word) = be_value b"
    using be_value_less [of b] l by (simp add: unat_of_nat)
  then show "\<exists>z. b = Uint64ToBigEndian z"
    using be_put_value [of b] l by (intro exI [of _ "word_of_nat (be_value b)"]) (simp add: Uint64ToBigEndian_def)
qed

lemma sorted_no_prefix:
  "sorted ks \<Longrightarrow> sorted_wrt (\<lambda>a b. \<not> prefix a b) ks \<longleftrightarrow>
     distinct ks \<and> (\<forall>a \<in> set ks. \<forall>b \<in> set ks. a \<noteq> b \<longrightarrow> \<not> prefix a (b :: bytes))"
proof (induction ks)
  case (Cons x ks)
  have "\<not> prefix y x" if "y \<in> set ks" "x \<noteq> y" for y
    using that Cons.prems prefix_imp_le [of y x] by auto
  with Cons show ?case by auto
qed simp

text \<open>The check of the store names passes exactly when no two names have one as a prefix of the other,
  though it only compares neighbours of the sorted list; otherwise it panics.\<close>

lemma no_common_prefix_iff:
  "(wp (assertNoCommonPrefix names) (\<lambda>_ s'. s' = s) s \<longleftrightarrow>
     distinct names \<and> (\<forall>a \<in> set names. \<forall>b \<in> set names. a \<noteq> b \<longrightarrow> \<not> prefix a b))"
  unfolding assertNoCommonPrefix_def by (simp add: assertNoCommonPrefix_loop_ok sorted_no_prefix)

section \<open>Index searches\<close>

text \<open>The search loops of \<open>findStartIndex\<close> and \<open>findEndIndex\<close>: the bounds are Go ints, and the right one
  reaches -1. A loop returns \<open>Inl\<close> the index at which it met the key, or \<open>Inr\<close> its last bounds.\<close>

function search_loop :: "bytes list \<Rightarrow> bytes \<Rightarrow> int \<Rightarrow> int \<Rightarrow> int + int \<times> int" where
  "search_loop strL q left right =
     (if left \<le> right then
        let mid = (left + right) div 2; midStr = strL ! nat mid in
        if midStr = q then Inl mid
        else if midStr < q then search_loop strL q (mid + 1) right
        else search_loop strL q left (mid - 1)
      else Inr (left, right))"
  by pat_completeness auto
termination
  by (relation "measure (\<lambda>(_, _, left, right). nat (right - left + 1))") auto

declare search_loop.simps [simp del]

text \<open>\<open>for i := mid - 1; i >= 0; i-- { if stop(strL[i]) { return i + 1 } }; return 0\<close>.\<close>

primrec walk_back :: "(bytes \<Rightarrow> bool) \<Rightarrow> bytes list \<Rightarrow> nat \<Rightarrow> int" where
  "walk_back stop strL 0 = 0"
| "walk_back stop strL (Suc i) = (if stop (strL ! i) then int i + 1 else walk_back stop strL i)"

definition findStartIndex :: "bytes list \<Rightarrow> bytes \<Rightarrow> int" where
  "findStartIndex strL startQ =
     (if length strL = 0 then -1
      else case search_loop strL startQ 0 (int (length strL) - 1) of
        Inl mid \<Rightarrow> walk_back (\<lambda>x. x \<noteq> strL ! nat mid) strL (nat mid)
      | Inr (left, _) \<Rightarrow>
          if left \<ge> 0 \<and> left < int (length strL) \<and> strL ! nat left \<ge> startQ then left else -1)"

definition findEndIndex :: "bytes list \<Rightarrow> bytes \<Rightarrow> int" where
  "findEndIndex strL endQ =
     (if length strL = 0 then -1
      else case search_loop strL endQ 0 (int (length strL) - 1) of
        Inl mid \<Rightarrow> walk_back (\<lambda>x. x < strL ! nat mid) strL (nat mid)
      | Inr (_, right) \<Rightarrow> walk_back (\<lambda>x. x < endQ) strL (nat (right + 1)) - 1)"

text \<open>The number of keys below the bound: the index where it would be inserted.\<close>

definition lower_count :: "bytes list \<Rightarrow> bytes \<Rightarrow> nat" where
  "lower_count strL q = length (filter (\<lambda>x. x < q) strL)"

lemma lower_count_eqI:
  assumes "sorted strL" "n \<le> length strL" "\<forall>i < n. strL ! i < q" "\<forall>i < length strL. n \<le> i \<longrightarrow> \<not> strL ! i < q"
  shows "lower_count strL q = n"
proof -
  have "filter (\<lambda>x. x < q) (take n strL) = take n strL" "filter (\<lambda>x. x < q) (drop n strL) = []"
    using assms by (auto simp: filter_id_conv filter_empty_conv in_set_conv_nth)
  then have "filter (\<lambda>x. x < q) strL = take n strL"
    by (metis append_Nil2 append_take_drop_id filter_append)
  with assms(2) show ?thesis by (simp add: lower_count_def)
qed

lemma search_loop_spec:
  assumes "sorted strL" "0 \<le> left" "left \<le> right + 1" "right < int (length strL)"
    and "\<forall>i < nat left. strL ! i < q" "\<forall>i < length strL. right < int i \<longrightarrow> q < strL ! i"
  shows "case search_loop strL q left right of
      Inl mid \<Rightarrow> 0 \<le> mid \<and> mid < int (length strL) \<and> strL ! nat mid = q
    | Inr (l, r) \<Rightarrow> l = r + 1 \<and> l = int (lower_count strL q) \<and> q \<notin> set strL"
  using assms
proof (induction strL q left right rule: search_loop.induct)
  case (1 strL q left right)
  let ?mid = "(left + right) div 2"
  show ?case
  proof (cases "left \<le> right")
    case False
    then have lr: "left = right + 1" using "1.prems" by simp
    have above: "q < strL ! i" if "i < length strL" "nat left \<le> i" for i
      using "1.prems" that lr by simp
    then have "lower_count strL q = nat left"
      using "1.prems" lr by (intro lower_count_eqI) (auto dest: order.asym)
    moreover have "q \<notin> set strL"
      using above "1.prems"(5) by (metis in_set_conv_nth less_irrefl not_less)
    ultimately show ?thesis
      using False lr "1.prems" by (subst search_loop.simps) simp
  next
    case True
    then have mid: "left \<le> ?mid" "?mid \<le> right" "nat ?mid < length strL" using "1.prems" by auto
    have below: "strL ! i \<le> strL ! nat ?mid" if "i \<le> nat ?mid" for i
      using that mid "1.prems"(1) by (simp add: sorted_nth_mono)
    have above: "strL ! nat ?mid \<le> strL ! i" if "nat ?mid \<le> i" "i < length strL" for i
      using that "1.prems"(1) by (simp add: sorted_nth_mono)
    consider "strL ! nat ?mid = q" | "strL ! nat ?mid < q" | "q < strL ! nat ?mid" by fastforce
    then show ?thesis
    proof cases
      case 1
      with True mid "1.prems" show ?thesis by (subst search_loop.simps) simp
    next
      case 2
      have "strL ! i < q" if "i < nat (?mid + 1)" for i
      proof -
        have "i \<le> nat ?mid" using that by linarith
        from below [OF this] 2 show ?thesis by simp
      qed
      with 2 True mid "1.prems" "1.IH"(1) [OF True refl refl] show ?thesis
        by (subst search_loop.simps) (simp add: Let_def)
    next
      case 3
      have "q < strL ! i" if "i < length strL" "?mid - 1 < int i" for i
      proof -
        have "nat ?mid \<le> i" using that(2) by linarith
        from above [OF this that(1)] 3 show ?thesis by simp
      qed
      moreover have "\<not> strL ! nat ?mid < q" "strL ! nat ?mid \<noteq> q" using 3 by auto
      ultimately show ?thesis
        using True mid "1.prems" "1.IH"(2) [OF True refl refl] by (subst search_loop.simps) (simp add: Let_def)
    qed
  qed
qed

lemma walk_back_eq:
  assumes "\<forall>i < n. stop (strL ! i) \<longleftrightarrow> i < m" "m \<le> n"
  shows "walk_back stop strL n = int m"
  using assms by (induction n) (auto simp: le_Suc_eq)

lemma lower_count_nth:
  assumes "sorted strL" "i < length strL"
  shows "i < lower_count strL q \<longleftrightarrow> strL ! i < q"
proof -
  have "takeWhile (\<lambda>x. x < q) strL = filter (\<lambda>x. x < q) strL"
    using assms(1) by (intro sorted_takeWhile_filter [where R = "(\<le>)"]) auto
  moreover have "dropWhile (\<lambda>x. x < q) strL = filter (\<lambda>x. \<not> x < q) strL"
    using assms(1) by (intro sorted_dropWhile_filter [where R = "(\<le>)"]) auto
  ultimately have eq: "strL = filter (\<lambda>x. x < q) strL @ filter (\<lambda>x. \<not> x < q) strL"
    by (metis takeWhile_dropWhile_id)
  let ?a = "filter (\<lambda>x. x < q) strL" and ?b = "filter (\<lambda>x. \<not> x < q) strL"
  have l: "length strL = length ?a + length ?b" using eq by (metis length_append)
  show ?thesis
  proof (cases "i < length ?a")
    case True
    then have "strL ! i = ?a ! i" by (subst eq) (simp add: nth_append)
    with True show ?thesis using nth_mem [OF True] by (simp add: lower_count_def)
  next
    case False
    then have "strL ! i = ?b ! (i - length ?a)" by (subst eq) (simp add: nth_append)
    moreover have "i - length ?a < length ?b" using False assms(2) l by simp
    ultimately show ?thesis using False nth_mem [of "i - length ?a" ?b] by (auto simp: lower_count_def)
  qed
qed

lemma search_hit:
  assumes "sorted strL" "i < length strL" "strL ! i = q"
  shows "lower_count strL q \<le> i" "j < i \<Longrightarrow> strL ! j \<noteq> q \<longleftrightarrow> j < lower_count strL q"
    "j < i \<Longrightarrow> strL ! j < q \<longleftrightarrow> j < lower_count strL q"
proof -
  show le: "lower_count strL q \<le> i" using lower_count_nth [OF assms(1,2), of q] assms(3) by simp
  assume j: "j < i"
  then have "strL ! j \<le> q" using assms by (metis less_imp_le sorted_nth_mono)
  with j assms(2) show "strL ! j \<noteq> q \<longleftrightarrow> j < lower_count strL q" "strL ! j < q \<longleftrightarrow> j < lower_count strL q"
    using lower_count_nth [OF assms(1), of j q] by auto
qed

text \<open>On a sorted list \<open>findStartIndex\<close> returns the first index whose key is not below the start, or -1
  when there is none. \<open>findEndIndex\<close> returns the last index whose key is below the end, or -1, when the end
  is not in the list, but the index after it, which is the first occurrence of the end, when it is.\<close>

lemma find_index_exact:
  assumes "sorted strL"
  shows "findStartIndex strL q = (if \<exists>x \<in> set strL. q \<le> x then int (lower_count strL q) else -1) \<and>
    findEndIndex strL q = (if q \<in> set strL then int (lower_count strL q) else int (lower_count strL q) - 1)"
proof (cases "strL = []")
  case True
  then show ?thesis by (simp add: findStartIndex_def findEndIndex_def lower_count_def)
next
  case False
  have spec: "case search_loop strL q 0 (int (length strL) - 1) of
      Inl mid \<Rightarrow> 0 \<le> mid \<and> mid < int (length strL) \<and> strL ! nat mid = q
    | Inr (l, r) \<Rightarrow> l = r + 1 \<and> l = int (lower_count strL q) \<and> q \<notin> set strL"
    using assms by (intro search_loop_spec) auto
  have some: "(\<exists>x \<in> set strL. q \<le> x) \<longleftrightarrow> lower_count strL q < length strL"
    unfolding lower_count_def by (metis filter_True length_filter_less less_irrefl linorder_not_le)
  show ?thesis
  proof (cases "search_loop strL q 0 (int (length strL) - 1)")
    case (Inl mid)
    then have m: "nat mid < length strL" "strL ! nat mid = q" "0 \<le> mid" using spec by auto
    note hit = search_hit [OF assms m(1,2)]
    have "q \<in> set strL" using m by (metis nth_mem)
    moreover have "walk_back (\<lambda>x. x \<noteq> q) strL (nat mid) = int (lower_count strL q)"
      "walk_back (\<lambda>x. x < q) strL (nat mid) = int (lower_count strL q)"
      by (rule walk_back_eq; use hit in simp)+
    ultimately show ?thesis
      using False Inl m by (auto simp: findStartIndex_def findEndIndex_def)
  next
    case (Inr b)
    obtain l r where b: "b = (l, r)" by (cases b)
    have l: "l = int (lower_count strL q)" "r + 1 = l" "q \<notin> set strL" using spec Inr b by auto
    have le: "lower_count strL q \<le> length strL" by (simp add: lower_count_def)
    have "walk_back (\<lambda>x. x < q) strL (lower_count strL q) = int (lower_count strL q)"
      by (rule walk_back_eq) (use lower_count_nth [OF assms] le less_le_trans in \<open>blast, simp\<close>)
    moreover have "q \<le> strL ! lower_count strL q" if "lower_count strL q < length strL"
      using lower_count_nth [OF assms that, of q] by simp
    ultimately show ?thesis
      using False Inr b l some by (auto simp: findStartIndex_def findEndIndex_def)
  qed
qed

end
