(* ===== verification/Gas_Meter.thy ===== *)
theory Gas_Meter
  imports Go_Prelude
begin

text \<open>
  types/gas.go: the two gas meters. Gas is a 64-bit unsigned integer; a meter keeps one counter for
  each namespace in a \<open>sync.Map\<close> whose values are of type \<open>any\<close>. The contract of a meter that the
  gas store relies on is the locale \<open>gas_meter\<close>.
\<close>

section \<open>Meters\<close>

type_synonym gas = "64 word"

definition MaxUint64 :: gas where
  "MaxUint64 = - 1"

text \<open>What the map of counters holds: a pointer to an atomic counter, shown by its value, or a plain
  \<open>Gas\<close>. A type assertion \<open>.(*atomic.Uint64)\<close> panics on the latter.\<close>

datatype gas_slot = Counter gas | Plain gas

record basicGasMeter =
  gm_limit :: gas
  gm_consumed :: "64 word \<rightharpoonup> gas_slot"
  gm_namespaceId :: "64 word"

definition NewGasMeter :: "gas \<Rightarrow> basicGasMeter" where
  "NewGasMeter limit = \<lparr>gm_limit = limit, gm_consumed = Map.empty, gm_namespaceId = 0\<rparr>"

definition basic_WithNamespaceId :: "64 word \<Rightarrow> (basicGasMeter, unit) go" where
  "basic_WithNamespaceId ns = go_modify (\<lambda>g. g\<lparr>gm_namespaceId := ns\<rparr>)"

definition bad_assertion :: panic where
  "bad_assertion = Panic_runtime ''interface conversion: interface {} is uint64, not *atomic.Uint64''"

text \<open>The helpers are shared by both meters: \<open>load\<close> and \<open>store\<close> access the counter of the current
  namespace.\<close>

definition slot_getConsumed ::
  "('g \<Rightarrow> gas_slot option) \<Rightarrow> (gas_slot \<Rightarrow> 'g \<Rightarrow> 'g) \<Rightarrow> ('g, gas) go" where
  "slot_getConsumed load store = (\<lambda>g. case load g of
       Some (Counter n) \<Rightarrow> Some (Inr n, g)
     | Some (Plain _) \<Rightarrow> Some (Inl bad_assertion, g)
     | None \<Rightarrow> Some (Inr 0, store (Counter 0) g))"

definition slot_Add ::
  "('g \<Rightarrow> gas_slot option) \<Rightarrow> (gas_slot \<Rightarrow> 'g \<Rightarrow> 'g) \<Rightarrow> gas \<Rightarrow> ('g, unit) go" where
  "slot_Add load store amount = (\<lambda>g. case load g of
       Some (Counter n) \<Rightarrow> Some (Inr (), store (Counter (n + amount)) g)
     | Some (Plain _) \<Rightarrow> Some (Inl bad_assertion, g)
     | None \<Rightarrow> Some (Inr (), g))"

definition basic_load :: "basicGasMeter \<Rightarrow> gas_slot option" where
  "basic_load g = gm_consumed g (gm_namespaceId g)"

definition basic_store :: "gas_slot \<Rightarrow> basicGasMeter \<Rightarrow> basicGasMeter" where
  "basic_store v g = g\<lparr>gm_consumed := (gm_consumed g)(gm_namespaceId g \<mapsto> v)\<rparr>"

definition basic_getConsumed :: "(basicGasMeter, gas) go" where
  "basic_getConsumed = slot_getConsumed basic_load basic_store"

definition basic_GasConsumed :: "(basicGasMeter, gas) go" where
  "basic_GasConsumed = basic_getConsumed"

definition basic_GasRemaining :: "(basicGasMeter, gas) go" where
  "basic_GasRemaining =
     go_bind basic_getConsumed (\<lambda>consumed.
     go_read (\<lambda>g. if consumed > gm_limit g then 0 else gm_limit g - consumed))"

definition basic_Limit :: "(basicGasMeter, gas) go" where
  "basic_Limit = go_read gm_limit"

definition basic_GasConsumedToLimit :: "(basicGasMeter, gas) go" where
  "basic_GasConsumedToLimit =
     go_bind basic_getConsumed (\<lambda>consumed.
     go_read (\<lambda>g. if consumed > gm_limit g then gm_limit g else consumed))"

definition basic_ConsumeGas :: "gas \<Rightarrow> string \<Rightarrow> (basicGasMeter, unit) go" where
  "basic_ConsumeGas amount descriptor =
     go_bind basic_getConsumed (\<lambda>consumed.
     if MaxUint64 - consumed < amount then
       go_bind (go_modify (basic_store (Plain MaxUint64))) (\<lambda>_. go_panic (ErrorGasOverflow descriptor))
     else
       go_bind (slot_Add basic_load basic_store amount) (\<lambda>_.
       go_bind basic_getConsumed (\<lambda>newConsumed.
       go_bind (go_read gm_limit) (\<lambda>limit.
       if newConsumed > limit then go_panic (ErrorOutOfGas descriptor) else ret ()))))"

definition basic_RefundGas :: "gas \<Rightarrow> string \<Rightarrow> (basicGasMeter, unit) go" where
  "basic_RefundGas amount descriptor =
     go_bind basic_getConsumed (\<lambda>consumed.
     if consumed < amount then go_panic (ErrorNegativeGasConsumed descriptor)
     else slot_Add basic_load basic_store (- amount))"

definition basic_IsPastLimit :: "(basicGasMeter, bool) go" where
  "basic_IsPastLimit = go_bind basic_getConsumed (\<lambda>c. go_read (\<lambda>g. c > gm_limit g))"

definition basic_IsOutOfGas :: "(basicGasMeter, bool) go" where
  "basic_IsOutOfGas = go_bind basic_getConsumed (\<lambda>c. go_read (\<lambda>g. c \<ge> gm_limit g))"

text \<open>The meter without a limit.\<close>

record infiniteGasMeter =
  im_consumed :: "64 word \<rightharpoonup> gas_slot"
  im_namespaceId :: "64 word"

definition NewInfiniteGasMeter :: infiniteGasMeter where
  "NewInfiniteGasMeter = \<lparr>im_consumed = Map.empty, im_namespaceId = 0\<rparr>"

definition infinite_WithNamespaceId :: "64 word \<Rightarrow> (infiniteGasMeter, unit) go" where
  "infinite_WithNamespaceId ns = go_modify (\<lambda>g. g\<lparr>im_namespaceId := ns\<rparr>)"

definition infinite_load :: "infiniteGasMeter \<Rightarrow> gas_slot option" where
  "infinite_load g = im_consumed g (im_namespaceId g)"

definition infinite_store :: "gas_slot \<Rightarrow> infiniteGasMeter \<Rightarrow> infiniteGasMeter" where
  "infinite_store v g = g\<lparr>im_consumed := (im_consumed g)(im_namespaceId g \<mapsto> v)\<rparr>"

definition infinite_getConsumed :: "(infiniteGasMeter, gas) go" where
  "infinite_getConsumed = slot_getConsumed infinite_load infinite_store"

definition infinite_GasConsumed :: "(infiniteGasMeter, gas) go" where
  "infinite_GasConsumed = infinite_getConsumed"

definition infinite_GasConsumedToLimit :: "(infiniteGasMeter, gas) go" where
  "infinite_GasConsumedToLimit = infinite_getConsumed"

definition infinite_GasRemaining :: "(infiniteGasMeter, gas) go" where
  "infinite_GasRemaining = ret MaxUint64"

definition infinite_Limit :: "(infiniteGasMeter, gas) go" where
  "infinite_Limit = ret MaxUint64"

definition infinite_ConsumeGas :: "gas \<Rightarrow> string \<Rightarrow> (infiniteGasMeter, unit) go" where
  "infinite_ConsumeGas amount descriptor =
     go_bind infinite_getConsumed (\<lambda>consumed.
     if MaxUint64 - consumed < amount then go_panic (ErrorGasOverflow descriptor)
     else slot_Add infinite_load infinite_store amount)"

definition infinite_RefundGas :: "gas \<Rightarrow> string \<Rightarrow> (infiniteGasMeter, unit) go" where
  "infinite_RefundGas amount descriptor =
     go_bind infinite_getConsumed (\<lambda>consumed.
     if consumed < amount then go_panic (ErrorNegativeGasConsumed descriptor)
     else slot_Add infinite_load infinite_store (- amount))"

definition infinite_IsPastLimit :: "(infiniteGasMeter, bool) go" where
  "infinite_IsPastLimit = ret False"

definition infinite_IsOutOfGas :: "(infiniteGasMeter, bool) go" where
  "infinite_IsOutOfGas = ret False"

record GasConfig =
  HasCost :: gas
  DeleteCost :: gas
  ReadCostFlat :: gas
  ReadCostPerByte :: gas
  WriteCostFlat :: gas
  WriteCostPerByte :: gas
  IterNextCostFlat :: gas

definition KVGasConfig :: GasConfig where
  "KVGasConfig = \<lparr>HasCost = 1000, DeleteCost = 1000, ReadCostFlat = 1000, ReadCostPerByte = 3,
     WriteCostFlat = 2000, WriteCostPerByte = 30, IterNextCostFlat = 30\<rparr>"

definition TransientGasConfig :: GasConfig where
  "TransientGasConfig = \<lparr>HasCost = 100, DeleteCost = 100, ReadCostFlat = 100, ReadCostPerByte = 0,
     WriteCostFlat = 200, WriteCostPerByte = 3, IterNextCostFlat = 3\<rparr>"

text \<open>The part of the interface \<open>GasMeter\<close> that stores call.\<close>

type_synonym 'g consume = "gas \<Rightarrow> string \<Rightarrow> ('g, unit) go"

section \<open>The contract\<close>

text \<open>
  \<open>used\<close> is the gas consumed so far and \<open>lim\<close> the limit, both as natural numbers: a charge within the
  limit is added exactly, any other panics.
\<close>

locale gas_meter =
  fixes consume :: "'g consume"
    and g_inv :: "'g \<Rightarrow> bool"
    and used :: "'g \<Rightarrow> nat"
    and lim :: "'g \<Rightarrow> nat"
  assumes consume_ok: "g_inv g \<Longrightarrow> used g + unat a \<le> lim g \<Longrightarrow>
      \<exists>g'. consume a d g = Some (Inr (), g') \<and> g_inv g' \<and> used g' = used g + unat a \<and> lim g' = lim g"
    and consume_out: "g_inv g \<Longrightarrow> lim g < used g + unat a \<Longrightarrow>
      \<exists>g'. consume a d g = Some (Inl (ErrorOutOfGas d), g') \<or> consume a d g = Some (Inl (ErrorGasOverflow d), g')"

text \<open>A sequence of charges returns exactly when its total fits under the limit.\<close>

definition gas_total :: "(gas \<times> string) list \<Rightarrow> nat" where
  "gas_total cs = sum_list (map (\<lambda>c. unat (fst c)) cs)"

lemma gas_total_simps [simp]: "gas_total [] = 0" "gas_total (c # cs) = unat (fst c) + gas_total cs"
  by (simp_all add: gas_total_def)

context gas_meter
begin

lemma charges_ok:
  "g_inv g \<Longrightarrow> used g + gas_total cs \<le> lim g \<Longrightarrow>
     \<exists>g'. go_for cs (\<lambda>c. consume (fst c) (snd c)) g = Some (Inr (), g') \<and> g_inv g' \<and>
       used g' = used g + gas_total cs \<and> lim g' = lim g"
proof (induction cs arbitrary: g)
  case Nil
  then show ?case by (simp add: ret_def)
next
  case (Cons c cs)
  obtain g1 where 1: "consume (fst c) (snd c) g = Some (Inr (), g1)" "g_inv g1" "used g1 = used g + unat (fst c)"
    "lim g1 = lim g"
    using consume_ok [OF Cons.prems(1), of "fst c" "snd c"] Cons.prems(2) by auto
  with Cons.IH [of g1] Cons.prems(2) show ?case by (auto simp: go_bind_apply)
qed

lemma charges_out:
  "g_inv g \<Longrightarrow> used g \<le> lim g \<Longrightarrow> lim g < used g + gas_total cs \<Longrightarrow>
     \<exists>p g'. go_for cs (\<lambda>c. consume (fst c) (snd c)) g = Some (Inl p, g')"
proof (induction cs arbitrary: g)
  case (Cons c cs)
  show ?case
  proof (cases "used g + unat (fst c) \<le> lim g")
    case True
    obtain g1 where 1: "consume (fst c) (snd c) g = Some (Inr (), g1)" "g_inv g1" "used g1 = used g + unat (fst c)"
      "lim g1 = lim g"
      using consume_ok [OF Cons.prems(1) True] by auto
    with Cons.IH [of g1] Cons.prems(3) True show ?thesis by (auto simp: go_bind_apply)
  next
    case False
    with consume_out [OF Cons.prems(1), of "fst c" "snd c"] show ?thesis by (auto simp: go_bind_apply)
  qed
qed simp

lemma charges_iff:
  assumes "g_inv g" "used g \<le> lim g"
  shows "wp (go_for cs (\<lambda>c. consume (fst c) (snd c))) (\<lambda>_ g'. used g' = used g + gas_total cs) g \<longleftrightarrow>
    used g + gas_total cs \<le> lim g"
  using charges_ok [OF assms(1), of cs] charges_out [OF assms, of cs] by (cases "used g + gas_total cs \<le> lim g") (auto simp: wp_def not_le)

end

section \<open>The meters keep it\<close>

definition slot_used :: "gas_slot option \<Rightarrow> nat" where
  "slot_used s = (case s of Some (Counter n) \<Rightarrow> unat n | _ \<Rightarrow> 0)"

definition slot_ok :: "gas_slot option \<Rightarrow> bool" where
  "slot_ok s \<longleftrightarrow> (case s of Some (Plain _) \<Rightarrow> False | _ \<Rightarrow> True)"

abbreviation basic_used :: "basicGasMeter \<Rightarrow> nat" where
  "basic_used g \<equiv> slot_used (basic_load g)"

abbreviation basic_inv :: "basicGasMeter \<Rightarrow> bool" where
  "basic_inv g \<equiv> slot_ok (basic_load g)"

lemma unat_MaxUint64_sub: "unat (MaxUint64 - n) = 2 ^ 64 - 1 - unat n"
proof -
  have "unat MaxUint64 = 2 ^ 64 - 1"
    by (simp add: MaxUint64_def unsigned_minus_1_eq_mask mask_eq_exp_minus_1)
  moreover have "n \<le> MaxUint64" by (simp add: MaxUint64_def)
  ultimately show ?thesis by (simp add: unat_sub)
qed

lemma overflow_iff: "MaxUint64 - n < a \<longleftrightarrow> 2 ^ 64 \<le> unat n + unat a"
proof -
  have "unat n < 2 ^ 64" using unsigned_less [of n] by simp
  then show ?thesis
    unfolding word_less_nat_alt unat_MaxUint64_sub by arith
qed

lemma unat_add_no_overflow: "\<not> MaxUint64 - n < a \<Longrightarrow> unat (n + a) = unat n + unat a"
  by (subst unat_add_lem [THEN iffD1]) (simp_all add: overflow_iff not_le)

lemma basic_load_store [simp]: "basic_load (basic_store v g) = Some v" "gm_limit (basic_store v g) = gm_limit g"
  by (simp_all add: basic_load_def basic_store_def)

lemma infinite_load_store [simp]: "infinite_load (infinite_store v g) = Some v"
  by (simp add: infinite_load_def infinite_store_def)

lemma basic_getConsumed_run:
  assumes "basic_inv g"
  shows "\<exists>g' n. basic_getConsumed g = Some (Inr n, g') \<and> basic_load g' = Some (Counter n) \<and> unat n = basic_used g \<and>
    gm_limit g' = gm_limit g"
  using assms by (cases "basic_load g") (auto simp: basic_getConsumed_def slot_getConsumed_def slot_ok_def slot_used_def
    split: gas_slot.splits)

lemma infinite_getConsumed_run:
  assumes "slot_ok (infinite_load g)"
  shows "\<exists>g' n. infinite_getConsumed g = Some (Inr n, g') \<and> infinite_load g' = Some (Counter n) \<and>
    unat n = slot_used (infinite_load g)"
  using assms by (cases "infinite_load g") (auto simp: infinite_getConsumed_def slot_getConsumed_def slot_ok_def slot_used_def
    split: gas_slot.splits)

text \<open>What \<open>ConsumeGas\<close> does in each of its three cases.\<close>

lemma basic_ConsumeGas_cases:
  assumes "basic_inv g"
  shows "\<exists>g'. gm_limit g' = gm_limit g \<and>
    (if 2 ^ 64 \<le> basic_used g + unat a then
       basic_ConsumeGas a d g = Some (Inl (ErrorGasOverflow d), g') \<and> basic_load g' = Some (Plain MaxUint64)
     else
       basic_load g' = Some (Counter (word_of_nat (basic_used g + unat a))) \<and> basic_used g' = basic_used g + unat a \<and>
       basic_ConsumeGas a d g =
         (if unat (gm_limit g) < basic_used g + unat a then Some (Inl (ErrorOutOfGas d), g') else Some (Inr (), g')))"
proof -
  obtain g1 n where 1: "basic_getConsumed g = Some (Inr n, g1)" "basic_load g1 = Some (Counter n)"
    "unat n = basic_used g" "gm_limit g1 = gm_limit g"
    using basic_getConsumed_run [OF assms] by blast
  show ?thesis
  proof (cases "MaxUint64 - n < a")
    case True
    then show ?thesis
      using 1 overflow_iff [of n a] by (auto simp: basic_ConsumeGas_def go_defs)
  next
    case False
    let ?g = "basic_store (Counter (n + a)) g1"
    have u: "unat (n + a) = basic_used g + unat a"
      using unat_add_no_overflow [OF False] 1 by simp
    then have w: "word_of_nat (basic_used g + unat a) = n + a"
      by (metis of_nat_unat ucast_id)
    have "basic_ConsumeGas a d g = (if unat (gm_limit g) < basic_used g + unat a
        then Some (Inl (ErrorOutOfGas d), ?g) else Some (Inr (), ?g))"
      using 1 False u by (simp add: basic_ConsumeGas_def go_defs slot_Add_def basic_getConsumed_def slot_getConsumed_def
        word_less_nat_alt)
    moreover have "\<not> 2 ^ 64 \<le> basic_used g + unat a"
      using False 1 overflow_iff by simp
    ultimately show ?thesis
      using u w 1 by (intro exI [of _ ?g]) (simp add: slot_used_def)
  qed
qed

interpretation basic: gas_meter basic_ConsumeGas basic_inv basic_used "\<lambda>g. unat (gm_limit g)"
proof
  fix g :: basicGasMeter and a :: gas and d
  assume g: "basic_inv g"
  have lt: "unat (gm_limit g) < 2 ^ 64" using unsigned_less [of "gm_limit g"] by simp
  { assume "basic_used g + unat a \<le> unat (gm_limit g)"
    with basic_ConsumeGas_cases [OF g, of a d] lt show "\<exists>g'. basic_ConsumeGas a d g = Some (Inr (), g') \<and> basic_inv g' \<and>
        basic_used g' = basic_used g + unat a \<and> unat (gm_limit g') = unat (gm_limit g)"
      by (auto simp: slot_ok_def split: if_splits) }
  { assume "unat (gm_limit g) < basic_used g + unat a"
    with basic_ConsumeGas_cases [OF g, of a d] show "\<exists>g'. basic_ConsumeGas a d g = Some (Inl (ErrorOutOfGas d), g') \<or>
        basic_ConsumeGas a d g = Some (Inl (ErrorGasOverflow d), g')"
      by (auto split: if_splits) }
qed

interpretation infinite: gas_meter infinite_ConsumeGas "\<lambda>g. slot_ok (infinite_load g)" "\<lambda>g. slot_used (infinite_load g)"
  "\<lambda>_. 2 ^ 64 - 1"
proof
  fix g :: infiniteGasMeter and a :: gas and d
  assume g: "slot_ok (infinite_load g)"
  obtain g1 n where 1: "infinite_getConsumed g = Some (Inr n, g1)" "infinite_load g1 = Some (Counter n)"
    "unat n = slot_used (infinite_load g)"
    using infinite_getConsumed_run [OF g] by blast
  have c: "MaxUint64 - n < a \<longleftrightarrow> 2 ^ 64 - 1 < slot_used (infinite_load g) + unat a"
    using overflow_iff [of n a] 1(3) by auto
  { assume "slot_used (infinite_load g) + unat a \<le> 2 ^ 64 - 1"
    then have nc: "\<not> MaxUint64 - n < a" using c by simp
    then show "\<exists>g'. infinite_ConsumeGas a d g = Some (Inr (), g') \<and> slot_ok (infinite_load g') \<and>
        slot_used (infinite_load g') = slot_used (infinite_load g) + unat a \<and> (2 ^ 64 - 1 :: nat) = 2 ^ 64 - 1"
      using 1 unat_add_no_overflow [OF nc]
      by (simp add: infinite_ConsumeGas_def go_defs slot_Add_def slot_ok_def slot_used_def) }
  { assume "2 ^ 64 - 1 < slot_used (infinite_load g) + unat a"
    then show "\<exists>g'. infinite_ConsumeGas a d g = Some (Inl (ErrorOutOfGas d), g') \<or>
        infinite_ConsumeGas a d g = Some (Inl (ErrorGasOverflow d), g')"
      using 1 c by (simp add: infinite_ConsumeGas_def go_defs) }
qed

section \<open>Properties\<close>

text \<open>C27. A meter under its limit accepts a sequence of charges, and then holds their exact sum,
  precisely when the sum of the charges, without wrap-around, stays within the limit.\<close>

theorem basic_charges:
  assumes "basic_inv g" "basic_used g \<le> unat (gm_limit g)"
  shows "wp (go_for cs (\<lambda>c. basic_ConsumeGas (fst c) (snd c))) (\<lambda>_ g'. basic_used g' = basic_used g + gas_total cs) g \<longleftrightarrow>
    basic_used g + gas_total cs \<le> unat (gm_limit g)"
  using basic.charges_iff [OF assms] .

theorem basic_charges_witness:
  "wp (go_for [(60, ''a''), (40, ''b'')] (\<lambda>c. basic_ConsumeGas (fst c) (snd c))) (\<lambda>_ g'. basic_used g' = 100) (NewGasMeter 100)"
proof -
  have "basic_inv (NewGasMeter 100)" "basic_used (NewGasMeter 100) = 0" "gm_limit (NewGasMeter 100) = 100"
    by (simp_all add: basic_load_def NewGasMeter_def slot_ok_def slot_used_def)
  with basic_charges [of "NewGasMeter 100" "[(60, ''a''), (40, ''b'')]"] show ?thesis
    by simp
qed

text \<open>Refunding a charge restores the consumed gas, and a refund of more than was consumed panics
  without changing it.\<close>

lemma basic_refund:
  assumes "basic_inv g" "basic_used g + unat a \<le> unat (gm_limit g)"
  shows "wp (go_bind (basic_ConsumeGas a d) (\<lambda>_. basic_RefundGas a d')) (\<lambda>_ g'. basic_used g' = basic_used g \<and>
      gm_limit g' = gm_limit g) g \<and>
    (\<forall>b. basic_used g < unat b \<longrightarrow>
      panics (basic_RefundGas b d') (\<lambda>p g'. p = ErrorNegativeGasConsumed d' \<and> basic_used g' = basic_used g) g)"
proof -
  have lt: "unat (gm_limit g) < 2 ^ 64" using unsigned_less [of "gm_limit g"] by simp
  obtain g1 where 1: "basic_ConsumeGas a d g = Some (Inr (), g1)" "basic_used g1 = basic_used g + unat a"
      "basic_load g1 = Some (Counter (word_of_nat (basic_used g + unat a)))" "gm_limit g1 = gm_limit g"
    using basic_ConsumeGas_cases [OF assms(1), of a d] assms(2) lt by (auto split: if_splits)
  let ?n = "word_of_nat (basic_used g + unat a) :: gas"
  have n: "unat ?n = basic_used g + unat a" using 1(2,3) by (simp add: slot_used_def)
  then have "\<not> ?n < a" by (simp add: word_less_nat_alt)
  moreover have "unat (?n - a) = basic_used g"
    using n by (subst unat_sub) (simp_all add: word_le_nat_alt)
  ultimately have "wp (go_bind (basic_ConsumeGas a d) (\<lambda>_. basic_RefundGas a d')) (\<lambda>_ g'. basic_used g' = basic_used g \<and>
      gm_limit g' = gm_limit g) g"
    using 1 by (simp add: wp_def go_bind_apply basic_RefundGas_def basic_getConsumed_def slot_getConsumed_def slot_Add_def
      slot_used_def)
  moreover have "panics (basic_RefundGas b d') (\<lambda>p g'. p = ErrorNegativeGasConsumed d' \<and> basic_used g' = basic_used g) g"
    if "basic_used g < unat b" for b
    using basic_getConsumed_run [OF assms(1)] that
    by (auto simp: panics_def basic_RefundGas_def go_bind_apply go_panic_def word_less_nat_alt slot_used_def)
  ultimately show ?thesis by blast
qed

text \<open>C36. After an overflow the meter is unusable under the namespace it was charged in: it stores a plain
  integer where the counter is expected, so reading the consumed gas, the gas remaining or the gas consumed to the
  limit, asking whether the gas is used up, and any further charge or refund panic with a failed type assertion.\<close>

theorem basic_overflow_poisons:
  assumes "basic_inv g" "2 ^ 64 \<le> basic_used g + unat a"
  shows "\<exists>g'. basic_ConsumeGas a d g = Some (Inl (ErrorGasOverflow d), g') \<and>
    basic_GasConsumed g' = Some (Inl bad_assertion, g') \<and>
    basic_GasRemaining g' = Some (Inl bad_assertion, g') \<and>
    basic_GasConsumedToLimit g' = Some (Inl bad_assertion, g') \<and>
    basic_IsOutOfGas g' = Some (Inl bad_assertion, g') \<and>
    (\<forall>b e. basic_ConsumeGas b e g' = Some (Inl bad_assertion, g')) \<and>
    (\<forall>b e. basic_RefundGas b e g' = Some (Inl bad_assertion, g'))"
proof -
  obtain g' where g': "basic_ConsumeGas a d g = Some (Inl (ErrorGasOverflow d), g')" "basic_load g' = Some (Plain MaxUint64)"
    using basic_ConsumeGas_cases [OF assms(1), of a d] assms(2) by auto
  then have "basic_getConsumed g' = Some (Inl bad_assertion, g')"
    by (simp add: basic_getConsumed_def slot_getConsumed_def)
  with g'(1) show ?thesis
    by (simp add: basic_GasConsumed_def basic_GasRemaining_def basic_GasConsumedToLimit_def basic_IsOutOfGas_def
      basic_ConsumeGas_def basic_RefundGas_def go_bind_apply)
qed

theorem basic_overflow_poisons_witness:
  "\<exists>g' g''. basic_ConsumeGas MaxUint64 ''b'' g' = Some (Inl (ErrorGasOverflow ''b''), g'') \<and>
    basic_GasConsumedToLimit g'' = Some (Inl bad_assertion, g'')"
proof -
  let ?g = "basic_store (Counter 1) (NewGasMeter 100)"
  have "basic_inv ?g" "basic_used ?g = 1"
    by (simp_all add: slot_ok_def slot_used_def)
  moreover have "unat MaxUint64 = 2 ^ 64 - 1"
    by (simp add: MaxUint64_def unsigned_minus_1_eq_mask mask_eq_exp_minus_1)
  ultimately show ?thesis
    using basic_overflow_poisons [of ?g MaxUint64 "''b''"] by auto
qed

text \<open>The limit holds for each namespace on its own: gas consumed in one namespace is not counted
  in another, so the total consumed can pass the limit of the meter without a panic.\<close>

lemma basic_namespaces_independent:
  assumes "gm_consumed g ns1 = None" "gm_consumed g ns2 = None" "ns1 \<noteq> ns2"
    and "unat a \<le> unat (gm_limit g)" "unat b \<le> unat (gm_limit g)"
  shows "wp (go_bind (basic_WithNamespaceId ns1) (\<lambda>_. go_bind (basic_ConsumeGas a d) (\<lambda>_.
      go_bind (basic_WithNamespaceId ns2) (\<lambda>_. basic_ConsumeGas b d))))
    (\<lambda>_ g'. gm_consumed g' ns1 = Some (Counter a) \<and> gm_consumed g' ns2 = Some (Counter b)) g"
proof -
  have nov: "\<not> MaxUint64 < x" for x by (simp add: MaxUint64_def not_less)
  show ?thesis
    using assms nov
    by (simp add: wp_def go_defs basic_WithNamespaceId_def basic_ConsumeGas_def basic_getConsumed_def slot_getConsumed_def
      basic_load_def basic_store_def slot_Add_def word_less_nat_alt not_less)
qed

end
