(* ===== verification/Gas_KV.thy ===== *)
theory Gas_KV
  imports Gas_Meter Ref_Libs
begin

text \<open>
  gaskv/store.go: the store that charges gas for every access to its parent. The meter and the parent
  are arguments; the state is the pair of both. The results give the exact charge of every operation
  and of a whole iteration, and show that a charge that fails leaves the parent alone.
\<close>

section \<open>The store\<close>

definition gas_len :: "slice \<Rightarrow> gas" where
  "gas_len b = word_of_nat (length (bs b))"

definition gaskv_Get :: "'g consume \<Rightarrow> GasConfig \<Rightarrow> ('s, 'i) kv_ops \<Rightarrow> slice \<Rightarrow> ('g \<times> 's, slice) go" where
  "gaskv_Get consume cfg P k =
     go_bind (on_aux (consume (ReadCostFlat cfg) ''ReadFlat'')) (\<lambda>_.
     go_bind (on_store (kv_Get P k)) (\<lambda>value.
     go_bind (on_aux (consume (ReadCostPerByte cfg * gas_len k) ''ReadPerByte'')) (\<lambda>_.
     go_bind (on_aux (consume (ReadCostPerByte cfg * gas_len value) ''ReadPerByte'')) (\<lambda>_.
     ret value))))"

definition gaskv_Set :: "'g consume \<Rightarrow> GasConfig \<Rightarrow> ('s, 'i) kv_ops \<Rightarrow> slice \<Rightarrow> slice \<Rightarrow> ('g \<times> 's, unit) go" where
  "gaskv_Set consume cfg P k v =
     go_bind (AssertValidKey k) (\<lambda>_.
     go_bind (AssertValidValue v) (\<lambda>_.
     go_bind (on_aux (consume (WriteCostFlat cfg) ''WriteFlat'')) (\<lambda>_.
     go_bind (on_aux (consume (WriteCostPerByte cfg * gas_len k) ''WritePerByte'')) (\<lambda>_.
     go_bind (on_aux (consume (WriteCostPerByte cfg * gas_len v) ''WritePerByte'')) (\<lambda>_.
     on_store (kv_Set P k v))))))"

definition gaskv_Has :: "'g consume \<Rightarrow> GasConfig \<Rightarrow> ('s, 'i) kv_ops \<Rightarrow> slice \<Rightarrow> ('g \<times> 's, bool) go" where
  "gaskv_Has consume cfg P k =
     go_bind (on_aux (consume (HasCost cfg) ''Has'')) (\<lambda>_. on_store (kv_Has P k))"

definition gaskv_Delete :: "'g consume \<Rightarrow> GasConfig \<Rightarrow> ('s, 'i) kv_ops \<Rightarrow> slice \<Rightarrow> ('g \<times> 's, unit) go" where
  "gaskv_Delete consume cfg P k =
     go_bind (on_aux (consume (DeleteCost cfg) ''Delete'')) (\<lambda>_. on_store (kv_Delete P k))"

definition gaskv_CacheWrap :: "('g \<times> 's, 'c) go" where
  "gaskv_CacheWrap = go_panic (Panic_str ''cannot CacheWrap a GasKVStore'')"

definition gaskv_CacheWrapWithTrace :: "('g \<times> 's, 'c) go" where
  "gaskv_CacheWrapWithTrace = go_panic (Panic_str ''cannot CacheWrapWithTrace a GasKVStore'')"

definition gaskv_GetAllKeyStrsInRange :: "('s, 'i) kv_ops \<Rightarrow> slice \<Rightarrow> slice \<Rightarrow> ('g \<times> 's, bytes list) go" where
  "gaskv_GetAllKeyStrsInRange P start end = on_store (kv_GetAllKeyStrsInRange P start end)"

section \<open>The iterator\<close>

definition consumeSeekGas :: "'g consume \<Rightarrow> GasConfig \<Rightarrow> ('s \<times> 'i) iter_ops \<Rightarrow> (('g \<times> 's) \<times> 'i, unit) go" where
  "consumeSeekGas consume cfg it =
     go_bind (it_Valid (aux_parent it)) (\<lambda>valid.
     go_bind
       (if valid then
          go_bind (it_Key (aux_parent it)) (\<lambda>k.
          go_bind (it_Value (aux_parent it)) (\<lambda>v.
          go_bind (it_aux (consume (ReadCostPerByte cfg * gas_len k) ''ValuePerByte'')) (\<lambda>_.
          it_aux (consume (ReadCostPerByte cfg * gas_len v) ''ValuePerByte''))))
        else ret ()) (\<lambda>_.
     it_aux (consume (IterNextCostFlat cfg) ''IterNextFlat'')))"

definition gasIterator_Next :: "'g consume \<Rightarrow> GasConfig \<Rightarrow> ('s \<times> 'i) iter_ops \<Rightarrow> (('g \<times> 's) \<times> 'i, unit) go" where
  "gasIterator_Next consume cfg it =
     go_bind (consumeSeekGas consume cfg it) (\<lambda>_. it_Next (aux_parent it))"

definition gas_iter :: "'g consume \<Rightarrow> GasConfig \<Rightarrow> ('s \<times> 'i) iter_ops \<Rightarrow> (('g \<times> 's) \<times> 'i) iter_ops" where
  "gas_iter consume cfg it = (aux_parent it)\<lparr>it_Next := gasIterator_Next consume cfg it\<rparr>"

definition gaskv_iterator ::
  "'g consume \<Rightarrow> GasConfig \<Rightarrow> ('s, 'i) kv_ops \<Rightarrow> slice \<Rightarrow> slice \<Rightarrow> bool \<Rightarrow> ('g \<times> 's, 'i) go" where
  "gaskv_iterator consume cfg P start end ascending =
     go_bind (on_store (if ascending then kv_Iterator P start end else kv_ReverseIterator P start end)) (\<lambda>parent.
     go_bind (go_local parent (consumeSeekGas consume cfg (kv_iter P))) (\<lambda>(_, gi).
     ret gi))"

definition gaskv_Iterator :: "'g consume \<Rightarrow> GasConfig \<Rightarrow> ('s, 'i) kv_ops \<Rightarrow> slice \<Rightarrow> slice \<Rightarrow> ('g \<times> 's, 'i) go" where
  "gaskv_Iterator consume cfg P start end = gaskv_iterator consume cfg P start end True"

definition gaskv_ReverseIterator :: "'g consume \<Rightarrow> GasConfig \<Rightarrow> ('s, 'i) kv_ops \<Rightarrow> slice \<Rightarrow> slice \<Rightarrow> ('g \<times> 's, 'i) go" where
  "gaskv_ReverseIterator consume cfg P start end = gaskv_iterator consume cfg P start end False"

definition gaskv_ops :: "'g consume \<Rightarrow> GasConfig \<Rightarrow> ('s, 'i) kv_ops \<Rightarrow> ('g \<times> 's, 'i) kv_ops" where
  "gaskv_ops consume cfg P = \<lparr>
     kv_GetStoreType = (\<lambda>x. kv_GetStoreType P (snd x)),
     kv_Get = gaskv_Get consume cfg P,
     kv_Has = gaskv_Has consume cfg P,
     kv_Set = gaskv_Set consume cfg P,
     kv_Delete = gaskv_Delete consume cfg P,
     kv_Iterator = gaskv_Iterator consume cfg P,
     kv_ReverseIterator = gaskv_ReverseIterator consume cfg P,
     kv_GetAllKeyStrsInRange = gaskv_GetAllKeyStrsInRange P,
     kv_iter = gas_iter consume cfg (kv_iter P) \<rparr>"

section \<open>Charges\<close>

definition read_cost :: "GasConfig \<Rightarrow> slice \<Rightarrow> slice \<Rightarrow> nat" where
  "read_cost cfg k v = unat (ReadCostPerByte cfg * gas_len k) + unat (ReadCostPerByte cfg * gas_len v)"

definition get_cost :: "GasConfig \<Rightarrow> slice \<Rightarrow> slice \<Rightarrow> nat" where
  "get_cost cfg k v = unat (ReadCostFlat cfg) + read_cost cfg k v"

definition set_cost :: "GasConfig \<Rightarrow> slice \<Rightarrow> slice \<Rightarrow> nat" where
  "set_cost cfg k v = unat (WriteCostFlat cfg) + unat (WriteCostPerByte cfg * gas_len k) +
     unat (WriteCostPerByte cfg * gas_len v)"

definition seek_cost :: "GasConfig \<Rightarrow> (bytes \<times> slice) list \<Rightarrow> nat" where
  "seek_cost cfg xs = unat (IterNextCostFlat cfg) +
     (case xs of [] \<Rightarrow> 0 | e # _ \<Rightarrow> read_cost cfg (Some (fst e)) (snd e))"

text \<open>A loop over all entries: every \<open>Next\<close> charges for the entry it leaves.\<close>

fun loop_cost :: "GasConfig \<Rightarrow> (bytes \<times> slice) list \<Rightarrow> nat" where
  "loop_cost cfg [] = 0"
| "loop_cost cfg (e # es) = seek_cost cfg (e # es) + loop_cost cfg es"

lemma loop_cost_eq:
  "loop_cost cfg xs = length xs * unat (IterNextCostFlat cfg) +
     sum_list (map (\<lambda>e. read_cost cfg (Some (fst e)) (snd e)) xs)"
  by (induction xs) (simp_all add: seek_cost_def)

locale gaskv_env =
  parent: kvstore P vk inv contents it_inv it_items +
  meter: gas_meter consume g_inv used lim
  for P :: "('s, 'i) kv_ops" and vk inv contents it_inv it_items
    and consume :: "'g consume" and g_inv used lim +
  fixes cfg :: GasConfig

context gaskv_env
begin

lemmas gas_run = go_bind_apply on_aux_apply on_store_apply ret_def

text \<open>A charge within the limit, and one past it.\<close>

lemma chargeE:
  assumes "g_inv g" "used g + unat a \<le> lim g"
  obtains g' where "consume a d g = Some (Inr (), g')" "g_inv g'" "used g' = used g + unat a" "lim g' = lim g"
  using meter.consume_ok [OF assms] by blast

lemma Set_charges:
  assumes s: "inv s" "vk k" "valid_key k" "valid_value v" and g: "g_inv g"
    and gas: "used g + set_cost cfg (Some k) (Some v) \<le> lim g"
  shows "wp (gaskv_Set consume cfg P (Some k) (Some v)) (\<lambda>_ (g', s'). inv s' \<and> contents s' = (contents s)(k \<mapsto> v) \<and>
    g_inv g' \<and> used g' = used g + set_cost cfg (Some k) (Some v) \<and> lim g' = lim g) (g, s)"
proof -
  obtain g1 where 1: "consume (WriteCostFlat cfg) ''WriteFlat'' g = Some (Inr (), g1)" "g_inv g1"
    "used g1 = used g + unat (WriteCostFlat cfg)" "lim g1 = lim g"
    by (rule chargeE [OF g]) (use gas in \<open>auto simp: set_cost_def\<close>)
  obtain g2 where 2: "consume (WriteCostPerByte cfg * gas_len (Some k)) ''WritePerByte'' g1 = Some (Inr (), g2)" "g_inv g2"
    "used g2 = used g1 + unat (WriteCostPerByte cfg * gas_len (Some k))" "lim g2 = lim g1"
    by (rule chargeE [OF 1(2)]) (use gas 1 in \<open>auto simp: set_cost_def\<close>)
  obtain g3 where 3: "consume (WriteCostPerByte cfg * gas_len (Some v)) ''WritePerByte'' g2 = Some (Inr (), g3)" "g_inv g3"
    "used g3 = used g2 + unat (WriteCostPerByte cfg * gas_len (Some v))" "lim g3 = lim g2"
    by (rule chargeE [OF 2(2)]) (use gas 1 2 in \<open>auto simp: set_cost_def\<close>)
  obtain s' where "kv_Set P (Some k) (Some v) s = Some (Inr (), s')" "inv s'" "contents s' = (contents s)(k \<mapsto> v)"
    using parent.Set [OF s(1,2,4)] by (auto elim!: wpE)
  with 1 2 3 s show ?thesis
    by (simp add: wp_def gaskv_Set_def gas_run set_cost_def)
qed

text \<open>A \<open>Set\<close> or \<open>Delete\<close> that runs out of gas has not touched the parent.\<close>

lemma Set_out:
  assumes s: "valid_key k" "valid_value v" and g: "g_inv g"
    and gas: "lim g < used g + set_cost cfg (Some k) (Some v)"
  shows "panics (gaskv_Set consume cfg P (Some k) (Some v)) (\<lambda>p (g', s'). s' = s \<and>
    (\<exists>d. p = ErrorOutOfGas d \<or> p = ErrorGasOverflow d)) (g, s)"
proof -
  let ?a = "WriteCostFlat cfg" and ?b = "WriteCostPerByte cfg * gas_len (Some k)" and ?c = "WriteCostPerByte cfg * gas_len (Some v)"
  note out = meter.consume_out
  show ?thesis
  proof (cases "used g + unat ?a \<le> lim g")
    case False
    with out [OF g, of ?a "''WriteFlat''"] s show ?thesis
      by (auto simp: panics_def gaskv_Set_def gas_run)
  next
    case True
    obtain g1 where 1: "consume ?a ''WriteFlat'' g = Some (Inr (), g1)" "g_inv g1" "used g1 = used g + unat ?a" "lim g1 = lim g"
      using chargeE [OF g True] .
    show ?thesis
    proof (cases "used g1 + unat ?b \<le> lim g1")
      case False
      with out [OF 1(2), of ?b "''WritePerByte''"] 1(1) s show ?thesis
        by (auto simp: panics_def gaskv_Set_def gas_run)
    next
      case True
      obtain g2 where 2: "consume ?b ''WritePerByte'' g1 = Some (Inr (), g2)" "g_inv g2" "used g2 = used g1 + unat ?b" "lim g2 = lim g1"
        using chargeE [OF 1(2) True] .
      have "lim g2 < used g2 + unat ?c"
        using 1 2 gas by (simp add: set_cost_def)
      with out [OF 2(2), of ?c "''WritePerByte''"] 1(1) 2(1) s show ?thesis
        by (auto simp: panics_def gaskv_Set_def gas_run)
    qed
  qed
qed

lemma Get_charges:
  assumes s: "inv s" "vk k" and g: "g_inv g"
    and gas: "used g + get_cost cfg (Some k) (contents s k) \<le> lim g"
  shows "wp (gaskv_Get consume cfg P (Some k)) (\<lambda>r (g', s'). r = contents s k \<and> inv s' \<and> contents s' = contents s \<and>
    g_inv g' \<and> used g' = used g + get_cost cfg (Some k) (contents s k) \<and> lim g' = lim g) (g, s)"
proof -
  let ?b = "ReadCostPerByte cfg * gas_len (Some k)" and ?c = "ReadCostPerByte cfg * gas_len (contents s k)"
  obtain g1 where 1: "consume (ReadCostFlat cfg) ''ReadFlat'' g = Some (Inr (), g1)" "g_inv g1"
    "used g1 = used g + unat (ReadCostFlat cfg)" "lim g1 = lim g"
    by (rule chargeE [OF g]) (use gas in \<open>auto simp: get_cost_def\<close>)
  obtain s' where s': "kv_Get P (Some k) s = Some (Inr (contents s k), s')" "inv s'" "contents s' = contents s"
    using parent.Get [OF s] by (auto elim!: wpE)
  obtain g2 where 2: "consume ?b ''ReadPerByte'' g1 = Some (Inr (), g2)" "g_inv g2" "used g2 = used g1 + unat ?b" "lim g2 = lim g1"
    by (rule chargeE [OF 1(2)]) (use gas 1 in \<open>auto simp: get_cost_def read_cost_def\<close>)
  obtain g3 where 3: "consume ?c ''ReadPerByte'' g2 = Some (Inr (), g3)" "g_inv g3" "used g3 = used g2 + unat ?c" "lim g3 = lim g2"
    by (rule chargeE [OF 2(2)]) (use gas 1 2 in \<open>auto simp: get_cost_def read_cost_def\<close>)
  show ?thesis
    using 1 2 3 s' by (simp add: wp_def gaskv_Get_def gas_run get_cost_def read_cost_def)
qed

lemma Delete_charges:
  assumes s: "inv s" "vk k" and g: "g_inv g"
  shows "used g + unat (DeleteCost cfg) \<le> lim g \<Longrightarrow>
      wp (gaskv_Delete consume cfg P (Some k)) (\<lambda>_ (g', s'). inv s' \<and> contents s' = (contents s)(k := None) \<and>
        g_inv g' \<and> used g' = used g + unat (DeleteCost cfg) \<and> lim g' = lim g) (g, s)"
    and "lim g < used g + unat (DeleteCost cfg) \<Longrightarrow>
      panics (gaskv_Delete consume cfg P (Some k)) (\<lambda>p (g', s'). s' = s) (g, s)"
proof -
  assume gas: "used g + unat (DeleteCost cfg) \<le> lim g"
  obtain g1 where 1: "consume (DeleteCost cfg) ''Delete'' g = Some (Inr (), g1)" "g_inv g1"
    "used g1 = used g + unat (DeleteCost cfg)" "lim g1 = lim g"
    by (rule chargeE [OF g gas])
  obtain s' where "kv_Delete P (Some k) s = Some (Inr (), s')" "inv s'" "contents s' = (contents s)(k := None)"
    using parent.Delete [OF s] by (auto elim!: wpE)
  with 1 show "wp (gaskv_Delete consume cfg P (Some k)) (\<lambda>_ (g', s'). inv s' \<and> contents s' = (contents s)(k := None) \<and>
        g_inv g' \<and> used g' = used g + unat (DeleteCost cfg) \<and> lim g' = lim g) (g, s)"
    by (simp add: wp_def gaskv_Delete_def gas_run)
next
  assume "lim g < used g + unat (DeleteCost cfg)"
  with meter.consume_out [OF g, of "DeleteCost cfg" "''Delete''"] show
    "panics (gaskv_Delete consume cfg P (Some k)) (\<lambda>p (g', s'). s' = s) (g, s)"
    by (auto simp: panics_def gaskv_Delete_def gas_run)
qed

text \<open>Iteration: every step charges for the entry in front.\<close>

lemma consumeSeekGas_run:
  assumes s: "inv s" "it_inv (s, i)" and g: "g_inv g"
    and gas: "used g + seek_cost cfg (it_items (s, i)) \<le> lim g"
  shows "\<exists>g' s' i'. consumeSeekGas consume cfg (kv_iter P) ((g, s), i) = Some (Inr (), ((g', s'), i')) \<and>
    inv s' \<and> contents s' = contents s \<and> it_inv (s', i') \<and> it_items (s', i') = it_items (s, i) \<and>
    g_inv g' \<and> used g' = used g + seek_cost cfg (it_items (s, i)) \<and> lim g' = lim g"
proof -
  note run = consumeSeekGas_def go_bind_apply aux_parent_apply it_aux_apply ret_def
  obtain s1 i1 where 1: "it_Valid (kv_iter P) (s, i) = Some (Inr (it_items (s, i) \<noteq> []), (s1, i1))"
      "inv s1" "it_inv (s1, i1)" "it_items (s1, i1) = it_items (s, i)" "contents s1 = contents s"
    using parent.itValidE [OF s] by metis
  show ?thesis
  proof (cases "it_items (s, i)")
    case Nil
    obtain g1 where "consume (IterNextCostFlat cfg) ''IterNextFlat'' g = Some (Inr (), g1)" "g_inv g1"
        "used g1 = used g + unat (IterNextCostFlat cfg)" "lim g1 = lim g"
      by (rule chargeE [OF g]) (use gas Nil in \<open>auto simp: seek_cost_def\<close>)
    with 1 Nil show ?thesis by (simp add: run seek_cost_def)
  next
    case (Cons e r)
    obtain k v where e: "e = (k, v)" by (cases e)
    let ?b = "ReadCostPerByte cfg * gas_len (Some k)" and ?c = "ReadCostPerByte cfg * gas_len v"
    obtain s2 i2 where 2: "it_Key (kv_iter P) (s1, i1) = Some (Inr (Some k), (s2, i2))"
        "inv s2" "it_inv (s2, i2)" "it_items (s2, i2) = it_items (s, i)" "contents s2 = contents s"
      using parent.itKeyE [OF 1(2,3), of k v r] 1(4,5) Cons e by metis
    obtain s3 i3 where 3: "it_Value (kv_iter P) (s2, i2) = Some (Inr v, (s3, i3))"
        "inv s3" "it_inv (s3, i3)" "it_items (s3, i3) = it_items (s, i)" "contents s3 = contents s"
      using parent.itValueE [OF 2(2,3), of k v r] 2(4,5) Cons e by metis
    have gas': "used g + (unat (IterNextCostFlat cfg) + (unat ?b + unat ?c)) \<le> lim g"
      using gas Cons e by (simp add: seek_cost_def read_cost_def)
    obtain g1 where 4: "consume ?b ''ValuePerByte'' g = Some (Inr (), g1)" "g_inv g1" "used g1 = used g + unat ?b" "lim g1 = lim g"
      by (rule chargeE [OF g]) (use gas' in auto)
    obtain g2 where 5: "consume ?c ''ValuePerByte'' g1 = Some (Inr (), g2)" "g_inv g2" "used g2 = used g1 + unat ?c" "lim g2 = lim g1"
      by (rule chargeE [OF 4(2)]) (use gas' 4 in auto)
    obtain g3 where 6: "consume (IterNextCostFlat cfg) ''IterNextFlat'' g2 = Some (Inr (), g3)" "g_inv g3"
        "used g3 = used g2 + unat (IterNextCostFlat cfg)" "lim g3 = lim g2"
      by (rule chargeE [OF 5(2)]) (use gas' 4 5 in auto)
    show ?thesis
      using 1(1) 2(1) 3 4 5 6 Cons e by (simp add: run seek_cost_def read_cost_def)
  qed
qed

lemma gas_loop:
  assumes "inv s" "it_inv (s, i)" "g_inv g" "used g + loop_cost cfg (it_items (s, i)) \<le> lim g"
  shows "\<exists>g' s' i'. iter_keys (gas_iter consume cfg (kv_iter P)) acc ((g, s), i) =
      Some (Inr (acc @ map fst (it_items (s, i))), ((g', s'), i')) \<and>
    inv s' \<and> contents s' = contents s \<and> g_inv g' \<and> used g' = used g + loop_cost cfg (it_items (s, i)) \<and> lim g' = lim g"
  using assms
proof (induction "it_items (s, i)" arbitrary: s i g acc)
  case Nil
  have nil: "it_items (s, i) = []" using Nil.hyps by simp
  obtain s1 i1 where 1: "it_Valid (kv_iter P) (s, i) = Some (Inr (it_items (s, i) \<noteq> []), (s1, i1))" "inv s1"
      "contents s1 = contents s"
    using parent.itValidE [OF Nil.prems(1,2)] by blast
  have "iter_keys (gas_iter consume cfg (kv_iter P)) acc ((g, s), i) = Some (Inr acc, ((g, s1), i1))"
    by (subst iter_keys.simps) (simp add: go_bind_apply gas_iter_def aux_parent_apply 1(1) nil ret_def)
  with 1(2,3) Nil.prems(3) nil show ?case by simp
next
  case (Cons e r)
  obtain k v where e: "e = (k, v)" by (cases e)
  have xs: "it_items (s, i) = (k, v) # r" using Cons.hyps(2) e by simp
  obtain s1 i1 where 1: "it_Valid (kv_iter P) (s, i) = Some (Inr (it_items (s, i) \<noteq> []), (s1, i1))" "inv s1"
      "it_inv (s1, i1)" "it_items (s1, i1) = it_items (s, i)" "contents s1 = contents s"
    using parent.itValidE [OF Cons.prems(1,2)] .
  obtain s2 i2 where 2: "it_Key (kv_iter P) (s1, i1) = Some (Inr (Some k), (s2, i2))"
      "inv s2" "it_inv (s2, i2)" "it_items (s2, i2) = (k, v) # r" "contents s2 = contents s"
    using parent.itKeyE [OF 1(2,3), of k v r] 1(4,5) xs by metis
  obtain g3 s3 i3 where 3: "consumeSeekGas consume cfg (kv_iter P) ((g, s2), i2) = Some (Inr (), ((g3, s3), i3))"
      "inv s3" "contents s3 = contents s" "it_inv (s3, i3)" "it_items (s3, i3) = (k, v) # r"
      "g_inv g3" "used g3 = used g + seek_cost cfg ((k, v) # r)" "lim g3 = lim g"
    using consumeSeekGas_run [OF 2(2,3) Cons.prems(3)] Cons.prems(4) unfolding 2(4,5) xs by auto
  obtain s4 i4 where 4: "it_Next (kv_iter P) (s3, i3) = Some (Inr (), (s4, i4))"
      "inv s4" "it_inv (s4, i4)" "it_items (s4, i4) = r" "contents s4 = contents s"
    using parent.itNextE [OF 3(2,4,5)] 3(3) by metis
  have "iter_keys (gas_iter consume cfg (kv_iter P)) acc ((g, s), i) =
      iter_keys (gas_iter consume cfg (kv_iter P)) (acc @ [k]) ((g3, s4), i4)"
    by (subst iter_keys.simps)
      (simp add: go_bind_apply gas_iter_def aux_parent_apply gasIterator_Next_def 1(1) 2(1) 3(1) 4(1) xs)
  moreover have "used g3 + loop_cost cfg (it_items (s4, i4)) \<le> lim g3"
    using Cons.prems(4) 3 4(4) xs by simp
  ultimately show ?case
    using Cons.hyps(1) [of s4 i4 g3 "acc @ [k]"] 3(6-8) 4(2-5) xs by (simp add: add.assoc)
qed

lemma iteration_charges:
  assumes s: "inv s" "ok_range start end" and g: "g_inv g" and xs: "covers (contents s) start end True xs"
    and gas: "used g + seek_cost cfg xs + loop_cost cfg xs \<le> lim g"
  shows "wp (with_iter (gaskv_Iterator consume cfg P start end) (iter_keys (gas_iter consume cfg (kv_iter P)) []))
    (\<lambda>ks (g', s'). ks = map fst xs \<and> inv s' \<and> contents s' = contents s \<and>
      used g' = used g + seek_cost cfg xs + loop_cost cfg xs) (g, s)"
proof -
  obtain i s1 where 1: "kv_Iterator P start end s = Some (Inr i, s1)" "inv s1" "contents s1 = contents s" "it_inv (s1, i)"
      "covers (contents s) start end True (it_items (s1, i))"
    using parent.Iterator [OF s] by (auto elim!: wpE)
  have x: "it_items (s1, i) = xs" using covers_unique [OF 1(5) xs] .
  obtain g2 s2 i2 where 2: "consumeSeekGas consume cfg (kv_iter P) ((g, s1), i) = Some (Inr (), ((g2, s2), i2))"
      "inv s2" "contents s2 = contents s" "it_inv (s2, i2)" "it_items (s2, i2) = xs"
      "g_inv g2" "used g2 = used g + seek_cost cfg xs" "lim g2 = lim g"
    using consumeSeekGas_run [OF 1(2,4) g] gas 1(3) x by auto
  obtain g3 s3 i3 where 3: "iter_keys (gas_iter consume cfg (kv_iter P)) [] ((g2, s2), i2) = Some (Inr (map fst xs), ((g3, s3), i3))"
      "inv s3" "contents s3 = contents s" "used g3 = used g + seek_cost cfg xs + loop_cost cfg xs"
    using gas_loop [OF 2(2,4,6), of "[]"] gas 2 by auto
  show ?thesis
    using 1(1) 2(1) 3 by (simp add: wp_def with_iter_def gaskv_Iterator_def gaskv_iterator_def go_bind_apply go_local_def
      on_store_apply ret_def)
qed

end

interpretation ref_gas: gaskv_env ref_kv valid_key ref_d_inv map_of "\<lambda>_. True" ref_di_items
  basic_ConsumeGas basic_inv basic_used "\<lambda>g. unat (gm_limit g)" KVGasConfig
  by (intro gaskv_env.intro ref_cache.parent.kvstore_axioms basic.gas_meter_axioms)

section \<open>Properties\<close>

text \<open>C29. \<open>Get\<close> through the gas store returns the parent's value, leaves the parent's contents alone and
  charges exactly the flat cost and the cost of every byte of the key and of the value.\<close>

theorem gaskv_Get_exact:
  assumes "gaskv_env P vk p_inv contents it_inv it_items consume g_inv used lim"
    and "p_inv s" "vk k" "g_inv g" "used g + get_cost cfg (Some k) (contents s k) \<le> lim g"
  shows "wp (gaskv_Get consume cfg P (Some k)) (\<lambda>r (g', s'). r = contents s k \<and> p_inv s' \<and> contents s' = contents s \<and>
    g_inv g' \<and> used g' = used g + get_cost cfg (Some k) (contents s k) \<and> lim g' = lim g) (g, s)"
  using gaskv_env.Get_charges [OF assms] .

definition demo_db :: ref_db_state where
  "demo_db = [([1], [10, 11]), ([2], [20])]"

lemma demo_db_inv: "ref_d_inv demo_db"
  by (simp add: ref_d_inv_def demo_db_def)

lemma demo_meter:
  "basic_inv (NewGasMeter n)" "basic_used (NewGasMeter n) = 0" "gm_limit (NewGasMeter n) = n"
  by (simp_all add: basic_load_def NewGasMeter_def slot_ok_def slot_used_def)

theorem gaskv_Get_exact_witness:
  "wp (gaskv_Get basic_ConsumeGas KVGasConfig ref_kv (Some [1])) (\<lambda>r (g', s'). r = Some [10, 11] \<and> ref_d_inv s' \<and>
    map_of s' = map_of demo_db \<and> basic_inv g' \<and> basic_used g' = 1009 \<and> unat (gm_limit g') = 2000) (NewGasMeter 2000, demo_db)"
  using gaskv_Get_exact [OF ref_gas.gaskv_env_axioms demo_db_inv, of "[1]" "NewGasMeter 2000" KVGasConfig]
  by (simp add: demo_meter valid_key_def MaxKeyLength_def get_cost_def read_cost_def gas_len_def KVGasConfig_def demo_db_def)

text \<open>C28. A \<open>Set\<close> either charges its exact cost and writes the pair, or, when the cost does not fit under
  the limit, panics with the parent store untouched.\<close>

theorem gaskv_Set_atomic:
  assumes "gaskv_env P vk p_inv contents it_inv it_items consume g_inv used lim"
    and "p_inv s" "vk k" "valid_key k" "valid_value v" "g_inv g"
  shows "if used g + set_cost cfg (Some k) (Some v) \<le> lim g
    then wp (gaskv_Set consume cfg P (Some k) (Some v)) (\<lambda>_ (g', s'). p_inv s' \<and> contents s' = (contents s)(k \<mapsto> v) \<and>
      g_inv g' \<and> used g' = used g + set_cost cfg (Some k) (Some v) \<and> lim g' = lim g) (g, s)
    else panics (gaskv_Set consume cfg P (Some k) (Some v)) (\<lambda>p (g', s'). s' = s \<and>
      (\<exists>d. p = ErrorOutOfGas d \<or> p = ErrorGasOverflow d)) (g, s)"
  using gaskv_env.Set_charges [OF assms] gaskv_env.Set_out [OF assms(1,4-6)] by (simp add: not_le)

theorem gaskv_Set_atomic_witness:
  "panics (gaskv_Set basic_ConsumeGas KVGasConfig ref_kv (Some [3]) (Some [30])) (\<lambda>p (g', s'). s' = demo_db \<and>
    (\<exists>d. p = ErrorOutOfGas d \<or> p = ErrorGasOverflow d)) (NewGasMeter 2059, demo_db)"
  using gaskv_Set_atomic [OF ref_gas.gaskv_env_axioms demo_db_inv, of "[3]" "[30]" "NewGasMeter 2059" KVGasConfig]
  by (simp add: demo_meter valid_key_def MaxKeyLength_def valid_value_def MaxValueLength_def set_cost_def gas_len_def KVGasConfig_def)

text \<open>C17. A complete iteration through the gas store ends and charges, beside one flat cost for opening
  and one for each entry, the bytes of every entry, those of the first entry twice.\<close>

theorem gaskv_iteration_exact:
  assumes "gaskv_env P vk p_inv contents it_inv it_items consume g_inv used lim"
    and "p_inv s" "ok_range start end" "g_inv g" "covers (contents s) start end True xs"
    and "used g + seek_cost cfg xs + loop_cost cfg xs \<le> lim g"
  shows "wp (with_iter (gaskv_Iterator consume cfg P start end) (iter_keys (gas_iter consume cfg (kv_iter P)) []))
    (\<lambda>ks (g', s'). ks = map fst xs \<and> p_inv s' \<and> contents s' = contents s \<and>
      used g' = used g + (length xs + 1) * unat (IterNextCostFlat cfg) +
        sum_list (map (\<lambda>e. read_cost cfg (Some (fst e)) (snd e)) (take 1 xs @ xs))) (g, s)"
  by (rule wp_mono [OF gaskv_env.iteration_charges [OF assms]])
    (cases xs; auto simp: loop_cost_eq seek_cost_def)

theorem gaskv_iteration_exact_witness:
  "wp (with_iter (gaskv_Iterator basic_ConsumeGas KVGasConfig ref_kv None None)
      (iter_keys (gas_iter basic_ConsumeGas KVGasConfig (kv_iter ref_kv)) []))
    (\<lambda>ks (g', s'). ks = [[1], [2]] \<and> ref_d_inv s' \<and> map_of s' = map_of demo_db \<and> basic_used g' = 114) (NewGasMeter 200, demo_db)"
proof -
  have c: "covers (map_of demo_db) None None True [([1], Some [10, 11]), ([2], Some [20])]"
    using ref_range_covers(1) [OF demo_db_inv, of None None]
    by (simp add: ref_range_def demo_db_def in_domain_def)
  show ?thesis
    by (rule wp_mono [OF gaskv_iteration_exact [OF ref_gas.gaskv_env_axioms demo_db_inv _ _ c]])
      (auto simp: ok_range_def ok_bound_def demo_meter seek_cost_def read_cost_def gas_len_def KVGasConfig_def)
qed

end
