(* ===== verification/Observed_KV.thy ===== *)
theory Observed_KV
  imports Ref_Libs
begin

text \<open>
  tracekv/store.go, listenkv/store.go and types/listening.go: the stores that report the operations on
  their parent, to a writer and to a listener. Both keep the \<open>KVStore\<close> contract of the parent, and
  what they report is exactly the sequence of operations.
\<close>

section \<open>tracekv.Store\<close>

datatype trace_op = writeOp | readOp | deleteOp | iterKeyOp | iterValueOp

text \<open>Standard base64 with padding, as \<open>base64.StdEncoding\<close>.\<close>

definition b64_alphabet :: string where
  "b64_alphabet = ''ABCDEFGHIJKLMNOPQRSTUVWXYZabcdefghijklmnopqrstuvwxyz0123456789+/''"

definition b64_digit :: "nat \<Rightarrow> char" where
  "b64_digit n = b64_alphabet ! (n mod 64)"

fun EncodeToString :: "bytes \<Rightarrow> string" where
  "EncodeToString [] = []"
| "EncodeToString [a] =
     (let n = unat a * 65536 in [b64_digit (n div 262144), b64_digit (n div 4096), CHR ''='', CHR ''=''])"
| "EncodeToString [a, b] =
     (let n = unat a * 65536 + unat b * 256 in
      [b64_digit (n div 262144), b64_digit (n div 4096), b64_digit (n div 64), CHR ''=''])"
| "EncodeToString (a # b # c # r) =
     (let n = unat a * 65536 + unat b * 256 + unat c in
      [b64_digit (n div 262144), b64_digit (n div 4096), b64_digit (n div 64), b64_digit n] @ EncodeToString r)"

record 'm traceOperation =
  to_Operation :: trace_op
  to_Key :: string
  to_Value :: string
  to_Metadata :: "'m option"

text \<open>
  The writer is an object of the caller: \<open>wr\<close> is its method \<open>Write\<close>, which returns nil or an error.
  \<open>marshal\<close> is \<open>json.Marshal\<close> on the record, whose metadata has values of any type.
\<close>

definition writeOperation ::
  "('m traceOperation \<Rightarrow> string + bytes) \<Rightarrow> (bytes \<Rightarrow> ('w, string option) go) \<Rightarrow> trace_op \<Rightarrow> 'm option \<Rightarrow>
   slice \<Rightarrow> slice \<Rightarrow> ('w, unit) go" where
  "writeOperation marshal wr opr tc k v =
     (let traceOp = \<lparr>to_Operation = opr, to_Key = EncodeToString (bs k), to_Value = EncodeToString (bs v),
        to_Metadata = tc\<rparr> in
      case marshal traceOp of
        Inl err \<Rightarrow> go_panic (Panic_err (''failed to serialize trace operation: '' @ err))
      | Inr raw \<Rightarrow>
          go_bind (wr raw) (\<lambda>e.
          case e of
            Some err \<Rightarrow> go_panic (Panic_err (''failed to write trace operation: '' @ err))
          | None \<Rightarrow>
              go_bind (wr [10]) (\<lambda>e'.
              case e' of
                Some err \<Rightarrow> go_panic (Panic_err (''failed to write newline: '' @ err))
              | None \<Rightarrow> ret ())))"

text \<open>The store calls \<open>writeOperation\<close> with its own writer and context; \<open>trace\<close> is that partial call.\<close>

type_synonym 'w tracer = "trace_op \<Rightarrow> slice \<Rightarrow> slice \<Rightarrow> ('w, unit) go"

definition tracekv_Get :: "'w tracer \<Rightarrow> ('s, 'i) kv_ops \<Rightarrow> slice \<Rightarrow> ('w \<times> 's, slice) go" where
  "tracekv_Get trace P k =
     go_bind (on_store (kv_Get P k)) (\<lambda>value.
     go_bind (on_aux (trace readOp k value)) (\<lambda>_. ret value))"

definition tracekv_Set :: "'w tracer \<Rightarrow> ('s, 'i) kv_ops \<Rightarrow> slice \<Rightarrow> slice \<Rightarrow> ('w \<times> 's, unit) go" where
  "tracekv_Set trace P k v =
     go_bind (AssertValidKey k) (\<lambda>_.
     go_bind (on_aux (trace writeOp k v)) (\<lambda>_. on_store (kv_Set P k v)))"

definition tracekv_Delete :: "'w tracer \<Rightarrow> ('s, 'i) kv_ops \<Rightarrow> slice \<Rightarrow> ('w \<times> 's, unit) go" where
  "tracekv_Delete trace P k =
     go_bind (on_aux (trace deleteOp k None)) (\<lambda>_. on_store (kv_Delete P k))"

definition tracekv_Has :: "('s, 'i) kv_ops \<Rightarrow> slice \<Rightarrow> ('w \<times> 's, bool) go" where
  "tracekv_Has P k = on_store (kv_Has P k)"

definition tracekv_iterator :: "('s, 'i) kv_ops \<Rightarrow> slice \<Rightarrow> slice \<Rightarrow> bool \<Rightarrow> ('w \<times> 's, 'i) go" where
  "tracekv_iterator P start end ascending =
     on_store (if ascending then kv_Iterator P start end else kv_ReverseIterator P start end)"

definition tracekv_Iterator :: "('s, 'i) kv_ops \<Rightarrow> slice \<Rightarrow> slice \<Rightarrow> ('w \<times> 's, 'i) go" where
  "tracekv_Iterator P start end = tracekv_iterator P start end True"

definition tracekv_ReverseIterator :: "('s, 'i) kv_ops \<Rightarrow> slice \<Rightarrow> slice \<Rightarrow> ('w \<times> 's, 'i) go" where
  "tracekv_ReverseIterator P start end = tracekv_iterator P start end False"

definition traceIterator_Key :: "'w tracer \<Rightarrow> ('s \<times> 'i) iter_ops \<Rightarrow> (('w \<times> 's) \<times> 'i, slice) go" where
  "traceIterator_Key trace it =
     go_bind (it_Key (aux_parent it)) (\<lambda>k.
     go_bind (it_aux (trace iterKeyOp k None)) (\<lambda>_. ret k))"

definition traceIterator_Value :: "'w tracer \<Rightarrow> ('s \<times> 'i) iter_ops \<Rightarrow> (('w \<times> 's) \<times> 'i, slice) go" where
  "traceIterator_Value trace it =
     go_bind (it_Value (aux_parent it)) (\<lambda>v.
     go_bind (it_aux (trace iterValueOp None v)) (\<lambda>_. ret v))"

text \<open>The other methods of the iterator delegate.\<close>

definition trace_iter :: "'w tracer \<Rightarrow> ('s \<times> 'i) iter_ops \<Rightarrow> (('w \<times> 's) \<times> 'i) iter_ops" where
  "trace_iter trace it = (aux_parent it)
     \<lparr>it_Key := traceIterator_Key trace it, it_Value := traceIterator_Value trace it\<rparr>"

definition tracekv_GetAllKeyStrsInRange :: "('s, 'i) kv_ops \<Rightarrow> slice \<Rightarrow> slice \<Rightarrow> ('w \<times> 's, bytes list) go" where
  "tracekv_GetAllKeyStrsInRange P start end = on_store (kv_GetAllKeyStrsInRange P start end)"

definition tracekv_CacheWrap :: "('w \<times> 's, 'c) go" where
  "tracekv_CacheWrap = go_panic (Panic_str ''cannot CacheWrap a TraceKVStore'')"

definition tracekv_CacheWrapWithTrace :: "('w \<times> 's, 'c) go" where
  "tracekv_CacheWrapWithTrace = go_panic (Panic_str ''cannot CacheWrapWithTrace a TraceKVStore'')"

definition tracekv_ops :: "'w tracer \<Rightarrow> ('s, 'i) kv_ops \<Rightarrow> ('w \<times> 's, 'i) kv_ops" where
  "tracekv_ops trace P = \<lparr>
     kv_GetStoreType = (\<lambda>x. kv_GetStoreType P (snd x)),
     kv_Get = tracekv_Get trace P,
     kv_Has = tracekv_Has P,
     kv_Set = tracekv_Set trace P,
     kv_Delete = tracekv_Delete trace P,
     kv_Iterator = tracekv_Iterator P,
     kv_ReverseIterator = tracekv_ReverseIterator P,
     kv_GetAllKeyStrsInRange = tracekv_GetAllKeyStrsInRange P,
     kv_iter = trace_iter trace (kv_iter P) \<rparr>"

text \<open>\<open>CacheWrapWithTrace\<close> of the stores: a cached store over a traced one.\<close>

definition cachekv_CacheWrapWithTrace :: "'w \<Rightarrow> 's \<Rightarrow> ('w \<times> 's, 't) cachekv" where
  "cachekv_CacheWrapWithTrace w s = cachekv_NewStore (w, s)"

section \<open>listenkv.Store\<close>

record StoreKVPair =
  kp_StoreKey :: string
  kp_Delete :: bool
  kp_Key :: slice
  kp_Value :: slice

type_synonym MemoryListener = "StoreKVPair list"

definition NewMemoryListener :: MemoryListener where
  "NewMemoryListener = []"

definition OnWrite :: "string \<Rightarrow> slice \<Rightarrow> slice \<Rightarrow> bool \<Rightarrow> (MemoryListener, unit) go" where
  "OnWrite storeKey k v del = go_modify (\<lambda>l. l @
     [\<lparr>kp_StoreKey = storeKey, kp_Delete = del, kp_Key = k, kp_Value = v\<rparr>])"

definition PopStateCache :: "(MemoryListener, StoreKVPair list) go" where
  "PopStateCache = go_bind (go_read (\<lambda>l. l)) (\<lambda>res. go_bind (go_modify (\<lambda>_. [])) (\<lambda>_. ret res))"

definition listenkv_Get :: "('s, 'i) kv_ops \<Rightarrow> slice \<Rightarrow> (MemoryListener \<times> 's, slice) go" where
  "listenkv_Get P k = on_store (kv_Get P k)"

definition listenkv_Set :: "string \<Rightarrow> ('s, 'i) kv_ops \<Rightarrow> slice \<Rightarrow> slice \<Rightarrow> (MemoryListener \<times> 's, unit) go" where
  "listenkv_Set sk P k v =
     go_bind (AssertValidKey k) (\<lambda>_.
     go_bind (on_store (kv_Set P k v)) (\<lambda>_. on_aux (OnWrite sk k v False)))"

definition listenkv_Delete :: "string \<Rightarrow> ('s, 'i) kv_ops \<Rightarrow> slice \<Rightarrow> (MemoryListener \<times> 's, unit) go" where
  "listenkv_Delete sk P k =
     go_bind (on_store (kv_Delete P k)) (\<lambda>_. on_aux (OnWrite sk k None True))"

definition listenkv_Has :: "('s, 'i) kv_ops \<Rightarrow> slice \<Rightarrow> (MemoryListener \<times> 's, bool) go" where
  "listenkv_Has P k = on_store (kv_Has P k)"

definition listenkv_iterator :: "('s, 'i) kv_ops \<Rightarrow> slice \<Rightarrow> slice \<Rightarrow> bool \<Rightarrow> (MemoryListener \<times> 's, 'i) go" where
  "listenkv_iterator P start end ascending =
     on_store (if ascending then kv_Iterator P start end else kv_ReverseIterator P start end)"

definition listenkv_Iterator :: "('s, 'i) kv_ops \<Rightarrow> slice \<Rightarrow> slice \<Rightarrow> (MemoryListener \<times> 's, 'i) go" where
  "listenkv_Iterator P start end = listenkv_iterator P start end True"

definition listenkv_ReverseIterator :: "('s, 'i) kv_ops \<Rightarrow> slice \<Rightarrow> slice \<Rightarrow> (MemoryListener \<times> 's, 'i) go" where
  "listenkv_ReverseIterator P start end = listenkv_iterator P start end False"

text \<open>All methods of \<open>listenIterator\<close> delegate.\<close>

definition listen_iter :: "('s \<times> 'i) iter_ops \<Rightarrow> ((MemoryListener \<times> 's) \<times> 'i) iter_ops" where
  "listen_iter it = aux_parent it"

definition listenkv_CacheWrap :: "(MemoryListener \<times> 's, 'c) go" where
  "listenkv_CacheWrap = go_panic (Panic_str ''cannot CacheWrap a ListenKVStore'')"

definition listenkv_CacheWrapWithTrace :: "(MemoryListener \<times> 's, 'c) go" where
  "listenkv_CacheWrapWithTrace = go_panic (Panic_str ''cannot CacheWrapWithTrace a ListenKVStore'')"

definition listenkv_GetAllKeyStrsInRange :: "('s, 'i) kv_ops \<Rightarrow> slice \<Rightarrow> slice \<Rightarrow> (MemoryListener \<times> 's, bytes list) go" where
  "listenkv_GetAllKeyStrsInRange P start end = on_store (kv_GetAllKeyStrsInRange P start end)"

definition listenkv_ops :: "string \<Rightarrow> ('s, 'i) kv_ops \<Rightarrow> (MemoryListener \<times> 's, 'i) kv_ops" where
  "listenkv_ops sk P = \<lparr>
     kv_GetStoreType = (\<lambda>x. kv_GetStoreType P (snd x)),
     kv_Get = listenkv_Get P,
     kv_Has = listenkv_Has P,
     kv_Set = listenkv_Set sk P,
     kv_Delete = listenkv_Delete sk P,
     kv_Iterator = listenkv_Iterator P,
     kv_ReverseIterator = listenkv_ReverseIterator P,
     kv_GetAllKeyStrsInRange = listenkv_GetAllKeyStrsInRange P,
     kv_iter = listen_iter (kv_iter P) \<rparr>"

text \<open>The listener that writes out length-prefixed records: \<open>marshal\<close> is the codec's
  \<open>MarshalLengthPrefixed\<close>.\<close>

definition StoreKVPairWriteListener_OnWrite ::
  "(StoreKVPair \<Rightarrow> string + bytes) \<Rightarrow> (bytes \<Rightarrow> ('w, string option) go) \<Rightarrow> string \<Rightarrow> slice \<Rightarrow> slice \<Rightarrow> bool \<Rightarrow>
   ('w, string option) go" where
  "StoreKVPairWriteListener_OnWrite marshal wr storeKey k v del =
     (case marshal \<lparr>kp_StoreKey = storeKey, kp_Delete = del, kp_Key = k, kp_Value = v\<rparr> of
        Inl err \<Rightarrow> ret (Some err)
      | Inr by \<Rightarrow> wr by)"

section \<open>Both keep the contract of the parent\<close>

text \<open>What the traced store relies on: a trace call returns and appends one line to the output.\<close>

locale trace_env = parent: kvstore P vk inv contents it_inv it_items
  for P :: "('s, 'i) kv_ops" and vk inv contents it_inv it_items +
  fixes trace :: "'w tracer" and out :: "'w \<Rightarrow> bytes" and line :: "trace_op \<Rightarrow> slice \<Rightarrow> slice \<Rightarrow> bytes"
  assumes trace: "\<exists>w'. trace opr k v w = Some (Inr (), w') \<and> out w' = out w @ line opr k v"
    and vk: "vk b \<Longrightarrow> valid_key b"

abbreviation snd_inv :: "('s \<Rightarrow> 'a) \<Rightarrow> 'g \<times> 's \<Rightarrow> 'a" where
  "snd_inv f x \<equiv> f (snd x)"

abbreviation aux_it :: "('s \<times> 'i \<Rightarrow> 'a) \<Rightarrow> ('g \<times> 's) \<times> 'i \<Rightarrow> 'a" where
  "aux_it f x \<equiv> f (snd (fst x), snd x)"

context trace_env
begin

lemmas trace_run = go_bind_apply on_aux_apply on_store_apply it_aux_apply aux_parent_apply ret_def

lemma Get_trace:
  assumes "inv s" "vk k"
  shows "wp (tracekv_Get trace P (Some k)) (\<lambda>r (w', s'). r = contents s k \<and> inv s' \<and> contents s' = contents s \<and>
    out w' = out w @ line readOp (Some k) (contents s k)) (w, s)"
proof -
  obtain s' where "kv_Get P (Some k) s = Some (Inr (contents s k), s')" "inv s'" "contents s' = contents s"
    using parent.Get [OF assms] by (auto elim!: wpE)
  with trace [of readOp "Some k" "contents s k" w] show ?thesis
    by (auto simp: wp_def tracekv_Get_def trace_run)
qed

lemma Set_trace:
  assumes "inv s" "vk k" "valid_value v"
  shows "wp (tracekv_Set trace P (Some k) (Some v)) (\<lambda>_ (w', s'). inv s' \<and> contents s' = (contents s)(k \<mapsto> v) \<and>
    out w' = out w @ line writeOp (Some k) (Some v)) (w, s)"
proof -
  obtain s' where "kv_Set P (Some k) (Some v) s = Some (Inr (), s')" "inv s'" "contents s' = (contents s)(k \<mapsto> v)"
    using parent.Set [OF assms] by (auto elim!: wpE)
  with trace [of writeOp "Some k" "Some v" w] vk [OF assms(2)] show ?thesis
    by (auto simp: wp_def tracekv_Set_def trace_run)
qed

lemma Delete_trace:
  assumes "inv s" "vk k"
  shows "wp (tracekv_Delete trace P (Some k)) (\<lambda>_ (w', s'). inv s' \<and> contents s' = (contents s)(k := None) \<and>
    out w' = out w @ line deleteOp (Some k) None) (w, s)"
proof -
  obtain s' where "kv_Delete P (Some k) s = Some (Inr (), s')" "inv s'" "contents s' = (contents s)(k := None)"
    using parent.Delete [OF assms] by (auto elim!: wpE)
  with trace [of deleteOp "Some k" None w] show ?thesis
    by (auto simp: wp_def tracekv_Delete_def trace_run)
qed

lemma trace_iterator:
  "iterator (trace_iter trace (kv_iter P)) (\<lambda>x. snd_inv inv (fst x) \<and> aux_it it_inv x) (aux_it it_items)
     (snd_inv contents \<circ> fst)"
proof
  fix x :: "('w \<times> 's) \<times> 'i"
  assume I: "snd_inv inv (fst x) \<and> aux_it it_inv x"
  obtain w s i where x: "x = ((w, s), i)" by (metis prod.collapse)
  show "wp (it_Valid (trace_iter trace (kv_iter P))) (\<lambda>b x'. b = (aux_it it_items x \<noteq> []) \<and>
      (snd_inv inv (fst x') \<and> aux_it it_inv x') \<and> aux_it it_items x' = aux_it it_items x \<and>
      (snd_inv contents \<circ> fst) x' = (snd_inv contents \<circ> fst) x) x"
    using parent.kvi.Valid [of "(s, i)"] I x by (auto simp: wp_def trace_iter_def trace_run)
next
  fix x :: "('w \<times> 's) \<times> 'i" and k v r
  assume I: "snd_inv inv (fst x) \<and> aux_it it_inv x" and front: "aux_it it_items x = (k, v) # r"
  obtain w s i where x: "x = ((w, s), i)" by (metis prod.collapse)
  have I': "inv s" "it_inv (s, i)" "it_items (s, i) = (k, v) # r" using I front x by auto
  show "wp (it_Key (trace_iter trace (kv_iter P))) (\<lambda>y x'. y = Some k \<and>
      (snd_inv inv (fst x') \<and> aux_it it_inv x') \<and> aux_it it_items x' = aux_it it_items x \<and>
      (snd_inv contents \<circ> fst) x' = (snd_inv contents \<circ> fst) x) x"
    using parent.kvi.Key [of "(s, i)" k v r] I' x trace [of iterKeyOp "Some k" None w]
    by (auto simp: wp_def trace_iter_def traceIterator_Key_def trace_run)
  show "wp (it_Value (trace_iter trace (kv_iter P))) (\<lambda>y x'. y = v \<and>
      (snd_inv inv (fst x') \<and> aux_it it_inv x') \<and> aux_it it_items x' = aux_it it_items x \<and>
      (snd_inv contents \<circ> fst) x' = (snd_inv contents \<circ> fst) x) x"
    using parent.kvi.Value [of "(s, i)" k v r] I' x trace [of iterValueOp None v w]
    by (auto simp: wp_def trace_iter_def traceIterator_Value_def trace_run)
  show "wp (it_Next (trace_iter trace (kv_iter P))) (\<lambda>_ x'.
      (snd_inv inv (fst x') \<and> aux_it it_inv x') \<and> aux_it it_items x' = r \<and>
      (snd_inv contents \<circ> fst) x' = (snd_inv contents \<circ> fst) x) x"
    using parent.kvi.Next [of "(s, i)" k v r] I' x by (auto simp: wp_def trace_iter_def trace_run)
qed

end

lemma wp_on_store: "wp m Q s \<Longrightarrow> (\<And>x s'. Q x s' \<Longrightarrow> R x (g, s')) \<Longrightarrow> wp (on_store m) R (g, s)"
  by (auto simp: wp_def on_store_apply)

sublocale trace_env \<subseteq> traced: kvstore "tracekv_ops trace P" vk "snd_inv inv" "snd_inv contents" "aux_it it_inv" "aux_it it_items"
proof (rule kvstore.intro)
  fix x :: "'w \<times> 's" and k v start "end"
  obtain w s where x: "x = (w, s)" by (cases x)
  assume "snd_inv inv x"
  then have s: "inv s" using x by simp
  { assume k: "vk k"
    show "wp (kv_Get (tracekv_ops trace P) (Some k)) (\<lambda>r x'. r = snd_inv contents x k \<and> snd_inv inv x' \<and> snd_inv contents x' = snd_inv contents x) x"
      unfolding x using Get_trace [OF s k, of w] by (auto simp: tracekv_ops_def elim!: wp_mono)
    show "wp (kv_Has (tracekv_ops trace P) (Some k)) (\<lambda>r x'. r = (snd_inv contents x k \<noteq> None) \<and> snd_inv inv x' \<and> snd_inv contents x' = snd_inv contents x) x"
      unfolding x tracekv_ops_def tracekv_Has_def kv_ops.simps by (rule wp_on_store [OF parent.Has [OF s k]]) auto
    show "wp (kv_Delete (tracekv_ops trace P) (Some k)) (\<lambda>_ x'. snd_inv inv x' \<and> snd_inv contents x' = (snd_inv contents x)(k := None)) x"
      unfolding x using Delete_trace [OF s k, of w] by (auto simp: tracekv_ops_def elim!: wp_mono)
    assume "valid_value v"
    then show "wp (kv_Set (tracekv_ops trace P) (Some k) (Some v)) (\<lambda>_ x'. snd_inv inv x' \<and> snd_inv contents x' = (snd_inv contents x)(k \<mapsto> v)) x"
      unfolding x using Set_trace [OF s k, of v w] by (auto simp: tracekv_ops_def elim!: wp_mono) }
  { assume r: "ok_range start end"
    show "wp (kv_Iterator (tracekv_ops trace P) start end) (\<lambda>i x'. snd_inv inv x' \<and> snd_inv contents x' = snd_inv contents x \<and>
        aux_it it_inv (x', i) \<and> covers (snd_inv contents x) start end True (aux_it it_items (x', i))) x"
      unfolding x tracekv_ops_def tracekv_Iterator_def tracekv_iterator_def kv_ops.simps if_True
      by (rule wp_on_store [OF parent.Iterator [OF s r]]) auto
    show "wp (kv_ReverseIterator (tracekv_ops trace P) start end) (\<lambda>i x'. snd_inv inv x' \<and> snd_inv contents x' = snd_inv contents x \<and>
        aux_it it_inv (x', i) \<and> covers (snd_inv contents x) start end False (aux_it it_items (x', i))) x"
      unfolding x tracekv_ops_def tracekv_ReverseIterator_def tracekv_iterator_def kv_ops.simps if_False
      by (rule wp_on_store [OF parent.ReverseIterator [OF s r]]) auto }
next
  show "iterator (kv_iter (tracekv_ops trace P)) (\<lambda>x. snd_inv inv (fst x) \<and> aux_it it_inv x) (aux_it it_items)
      (snd_inv contents \<circ> fst)"
    using trace_iterator by (simp add: tracekv_ops_def)
next
  fix x :: "'w \<times> 's" and i
  assume "snd_inv inv x" "aux_it it_inv (x, i)"
  then show "wp (it_Close (kv_iter (tracekv_ops trace P))) (\<lambda>_ x'. snd_inv inv (fst x') \<and>
      snd_inv contents (fst x') = snd_inv contents x) (x, i)"
    using parent.Close [of "snd x" i]
    by (cases x) (auto simp: wp_def tracekv_ops_def trace_iter_def aux_parent_apply)
qed

context trace_env
begin

lemma traced_kvstore:
  "kvstore (tracekv_ops trace P) vk (snd_inv inv) (snd_inv contents) (aux_it it_inv) (aux_it it_items)"
  by (rule traced.kvstore_axioms)

end

locale listen_env = parent: kvstore P vk inv contents it_inv it_items
  for P :: "('s, 'i) kv_ops" and vk inv contents it_inv it_items +
  fixes sk :: string
  assumes vk: "vk k \<Longrightarrow> valid_key k"

abbreviation set_event :: "string \<Rightarrow> bytes \<Rightarrow> bytes \<Rightarrow> StoreKVPair" where
  "set_event sk k v \<equiv> \<lparr>kp_StoreKey = sk, kp_Delete = False, kp_Key = Some k, kp_Value = Some v\<rparr>"

abbreviation delete_event :: "string \<Rightarrow> bytes \<Rightarrow> StoreKVPair" where
  "delete_event sk k \<equiv> \<lparr>kp_StoreKey = sk, kp_Delete = True, kp_Key = Some k, kp_Value = None\<rparr>"

context listen_env
begin

lemma Set_listen:
  assumes "inv s" "vk k" "valid_value v"
  shows "wp (listenkv_Set sk P (Some k) (Some v)) (\<lambda>_ (l', s'). inv s' \<and> contents s' = (contents s)(k \<mapsto> v) \<and>
    l' = l @ [set_event sk k v]) (l, s)"
  using parent.Set [OF assms] vk [OF assms(2)]
  by (auto simp: wp_def listenkv_Set_def OnWrite_def go_bind_apply on_aux_apply on_store_apply go_modify_def)

lemma Delete_listen:
  assumes "inv s" "vk k"
  shows "wp (listenkv_Delete sk P (Some k)) (\<lambda>_ (l', s'). inv s' \<and> contents s' = (contents s)(k := None) \<and>
    l' = l @ [delete_event sk k]) (l, s)"
  using parent.Delete [OF assms]
  by (auto simp: wp_def listenkv_Delete_def OnWrite_def go_bind_apply on_aux_apply on_store_apply go_modify_def)

end

sublocale listen_env \<subseteq> listened: kvstore "listenkv_ops sk P" vk "snd_inv inv" "snd_inv contents" "aux_it it_inv" "aux_it it_items"
proof (rule kvstore.intro)
  fix x :: "MemoryListener \<times> 's" and k v start "end"
  obtain l s where x: "x = (l, s)" by (cases x)
  assume "snd_inv inv x"
  then have s: "inv s" using x by simp
  { assume k: "vk k"
    show "wp (kv_Get (listenkv_ops sk P) (Some k)) (\<lambda>r x'. r = snd_inv contents x k \<and> snd_inv inv x' \<and> snd_inv contents x' = snd_inv contents x) x"
      unfolding x listenkv_ops_def listenkv_Get_def kv_ops.simps by (rule wp_on_store [OF parent.Get [OF s k]]) auto
    show "wp (kv_Has (listenkv_ops sk P) (Some k)) (\<lambda>r x'. r = (snd_inv contents x k \<noteq> None) \<and> snd_inv inv x' \<and> snd_inv contents x' = snd_inv contents x) x"
      unfolding x listenkv_ops_def listenkv_Has_def kv_ops.simps by (rule wp_on_store [OF parent.Has [OF s k]]) auto
    show "wp (kv_Delete (listenkv_ops sk P) (Some k)) (\<lambda>_ x'. snd_inv inv x' \<and> snd_inv contents x' = (snd_inv contents x)(k := None)) x"
      unfolding x using Delete_listen [OF s k, of l] by (auto simp: listenkv_ops_def elim!: wp_mono)
    assume "valid_value v"
    then show "wp (kv_Set (listenkv_ops sk P) (Some k) (Some v)) (\<lambda>_ x'. snd_inv inv x' \<and> snd_inv contents x' = (snd_inv contents x)(k \<mapsto> v)) x"
      unfolding x using Set_listen [OF s k, of v l] by (auto simp: listenkv_ops_def elim!: wp_mono) }
  { assume r: "ok_range start end"
    show "wp (kv_Iterator (listenkv_ops sk P) start end) (\<lambda>i x'. snd_inv inv x' \<and> snd_inv contents x' = snd_inv contents x \<and>
        aux_it it_inv (x', i) \<and> covers (snd_inv contents x) start end True (aux_it it_items (x', i))) x"
      unfolding x listenkv_ops_def listenkv_Iterator_def listenkv_iterator_def kv_ops.simps if_True
      by (rule wp_on_store [OF parent.Iterator [OF s r]]) auto
    show "wp (kv_ReverseIterator (listenkv_ops sk P) start end) (\<lambda>i x'. snd_inv inv x' \<and> snd_inv contents x' = snd_inv contents x \<and>
        aux_it it_inv (x', i) \<and> covers (snd_inv contents x) start end False (aux_it it_items (x', i))) x"
      unfolding x listenkv_ops_def listenkv_ReverseIterator_def listenkv_iterator_def kv_ops.simps if_False
      by (rule wp_on_store [OF parent.ReverseIterator [OF s r]]) auto }
next
  have "iterator (aux_parent (kv_iter P)) (\<lambda>x. snd_inv inv (fst x) \<and> aux_it it_inv x) (it_items \<circ> (\<lambda>x. (snd (fst x), snd x)))
      (snd_inv contents \<circ> fst)"
    unfolding aux_parent_def by (rule iterator_zoom [OF parent.iter]) auto
  then show "iterator (kv_iter (listenkv_ops sk P)) (\<lambda>x. snd_inv inv (fst x) \<and> aux_it it_inv x) (aux_it it_items)
      (snd_inv contents \<circ> fst)"
    by (simp add: listenkv_ops_def listen_iter_def comp_def)
next
  fix x :: "MemoryListener \<times> 's" and i
  assume "snd_inv inv x" "aux_it it_inv (x, i)"
  then show "wp (it_Close (kv_iter (listenkv_ops sk P))) (\<lambda>_ x'. snd_inv inv (fst x') \<and>
      snd_inv contents (fst x') = snd_inv contents x) (x, i)"
    using parent.Close [of "snd x" i]
    by (cases x) (auto simp: wp_def listenkv_ops_def listen_iter_def aux_parent_apply)
qed

section \<open>Replaying what a listener recorded\<close>

datatype kv_write = WSet bytes bytes | WDelete bytes

primrec run_write :: "('s, 'i) kv_ops \<Rightarrow> kv_write \<Rightarrow> ('s, unit) go" where
  "run_write ops (WSet k v) = kv_Set ops (Some k) (Some v)"
| "run_write ops (WDelete k) = kv_Delete ops (Some k)"

primrec ok_write :: "(bytes \<Rightarrow> bool) \<Rightarrow> kv_write \<Rightarrow> bool" where
  "ok_write vk (WSet k v) \<longleftrightarrow> vk k \<and> valid_value v"
| "ok_write vk (WDelete k) \<longleftrightarrow> vk k"

fun replay :: "(bytes \<rightharpoonup> bytes) \<Rightarrow> StoreKVPair list \<Rightarrow> bytes \<rightharpoonup> bytes" where
  "replay m [] = m"
| "replay m (e # es) = replay (m(bs (kp_Key e) := (if kp_Delete e then None else kp_Value e))) es"

lemma replay_append: "replay m (xs @ ys) = replay (replay m xs) ys"
  by (induction xs arbitrary: m) simp_all

context listen_env
begin

lemma listen_writes:
  "inv s \<Longrightarrow> list_all (ok_write vk) ws \<Longrightarrow>
     \<exists>evs s'. go_for ws (run_write (listenkv_ops sk P)) (l, s) = Some (Inr (), (l @ evs, s')) \<and> inv s' \<and>
       contents s' = replay (contents s) evs \<and> length evs = length ws \<and> list_all (\<lambda>e. kp_StoreKey e = sk) evs"
proof (induction ws arbitrary: l s)
  case Nil
  then show ?case by (simp add: ret_def)
next
  case (Cons w ws)
  obtain e s1 where 1: "run_write (listenkv_ops sk P) w (l, s) = Some (Inr (), (l @ [e], s1))" "inv s1"
      "contents s1 = replay (contents s) [e]" "kp_StoreKey e = sk"
  proof (cases w)
    case (WSet k v)
    with Set_listen [OF Cons.prems(1), of k v l] Cons.prems(2) show thesis
      by (auto simp: wp_def listenkv_ops_def intro!: that [of "set_event sk k v"])
  next
    case (WDelete k)
    with Delete_listen [OF Cons.prems(1), of k l] Cons.prems(2) show thesis
      by (auto simp: wp_def listenkv_ops_def intro!: that [of "delete_event sk k"])
  qed
  obtain evs s2 where 2: "go_for ws (run_write (listenkv_ops sk P)) (l @ [e], s1) = Some (Inr (), ((l @ [e]) @ evs, s2))"
      "inv s2" "contents s2 = replay (contents s1) evs" "length evs = length ws" "list_all (\<lambda>e. kp_StoreKey e = sk) evs"
    using Cons.IH [OF 1(2), of "l @ [e]"] Cons.prems(2) by auto
  have "go_for (w # ws) (run_write (listenkv_ops sk P)) (l, s) = Some (Inr (), (l @ (e # evs), s2))"
    using 1(1) 2(1) by (simp add: go_bind_apply)
  moreover have "contents s2 = replay (contents s) (e # evs)"
    using 1(3) 2(3) replay_append [of "contents s" "[e]" evs] by simp
  ultimately show ?case
    using 2 1(4) by (intro exI [of _ "e # evs"] exI [of _ s2]) simp
qed

end

section \<open>The stores on the reference libraries\<close>

text \<open>A writer that appends to a buffer, and an encoding of trace records without metadata.\<close>

definition buf_write :: "bytes \<Rightarrow> (bytes, string option) go" where
  "buf_write b = go_bind (go_modify (\<lambda>w. w @ b)) (\<lambda>_. ret None)"

primrec op_name :: "trace_op \<Rightarrow> string" where
  "op_name writeOp = ''write''"
| "op_name readOp = ''read''"
| "op_name deleteOp = ''delete''"
| "op_name iterKeyOp = ''iterKey''"
| "op_name iterValueOp = ''iterValue''"

definition json_trace :: "unit traceOperation \<Rightarrow> string + bytes" where
  "json_trace t = Inr (map of_char (''{operation:'' @ op_name (to_Operation t) @ '',key:'' @ to_Key t @
     '',value:'' @ to_Value t @ '',metadata:null}''))"

definition buf_trace :: "bytes tracer" where
  "buf_trace opr k v = writeOperation json_trace buf_write opr None k v"

definition buf_line :: "trace_op \<Rightarrow> slice \<Rightarrow> slice \<Rightarrow> bytes" where
  "buf_line opr k v =
     (case json_trace \<lparr>to_Operation = opr, to_Key = EncodeToString (bs k), to_Value = EncodeToString (bs v), to_Metadata = None\<rparr> of
        Inl _ \<Rightarrow> [] | Inr raw \<Rightarrow> raw @ [10])"

interpretation ref_trace: trace_env ref_kv valid_key ref_d_inv map_of "\<lambda>_. True" ref_di_items buf_trace "\<lambda>w. w" buf_line
proof (intro trace_env.intro trace_env_axioms.intro)
  show "kvstore ref_kv valid_key ref_d_inv map_of (\<lambda>_. True) ref_di_items"
    by (rule ref_cache.parent.kvstore_axioms)
qed (simp_all add: buf_trace_def buf_line_def writeOperation_def json_trace_def buf_write_def go_defs)

interpretation ref_listen: listen_env ref_kv valid_key ref_d_inv map_of "\<lambda>_. True" ref_di_items "''bank''"
  by (intro listen_env.intro listen_env_axioms.intro ref_cache.parent.kvstore_axioms)

section \<open>Properties\<close>

text \<open>C30. A listener records a stream of writes from which the state can be rebuilt: after any sequence
  of sets and deletes through the listening store, replaying the new records in order on the old
  contents gives the new contents, one record for each operation, all under the store's key.\<close>

theorem listenkv_records_replay:
  assumes "listen_env P vk p_inv contents it_inv it_items" "p_inv s" "list_all (ok_write vk) ws"
  shows "\<exists>evs s'. go_for ws (run_write (listenkv_ops sk P)) (l, s) = Some (Inr (), (l @ evs, s')) \<and> p_inv s' \<and>
    contents s' = replay (contents s) evs \<and> length evs = length ws \<and> list_all (\<lambda>e. kp_StoreKey e = sk) evs"
  by (rule listen_env.listen_writes [OF assms])

theorem listenkv_records_replay_witness:
  "\<exists>evs s'. go_for [WSet [1] [10], WDelete [1]] (run_write (listenkv_ops ''bank'' ref_kv)) ([], []) = Some (Inr (), ([] @ evs, s')) \<and>
    ref_d_inv s' \<and> map_of s' = replay (map_of []) evs \<and> length evs = length [WSet [1] [10], WDelete [1]] \<and>
    list_all (\<lambda>e. kp_StoreKey e = ''bank'') evs"
  by (rule listenkv_records_replay [OF ref_listen.listen_env_axioms])
    (simp_all add: ref_d_inv_def valid_key_def valid_value_def MaxKeyLength_def MaxValueLength_def)

text \<open>C18. Tracing is transparent: a traced store keeps the contract of its parent on the same contents.\<close>

theorem tracekv_transparent:
  assumes "trace_env P vk p_inv contents it_inv it_items trace out line"
  shows "kvstore (tracekv_ops trace P) vk (snd_inv p_inv) (snd_inv contents) (aux_it it_inv) (aux_it it_items)"
  by (rule trace_env.traced_kvstore [OF assms])

theorem tracekv_transparent_witness:
  "kvstore (tracekv_ops buf_trace ref_kv) valid_key (snd_inv ref_d_inv) (snd_inv map_of) (aux_it (\<lambda>_. True)) (aux_it ref_di_items)"
  by (rule tracekv_transparent [OF ref_trace.trace_env_axioms])

end
