(* ===== verification/MV_Item.thy ===== *)
theory MV_Item
  imports Go_Bytes
begin

text \<open>
  multiversion/data_structures.go and multiversion/data_list.go: the versions of one key, one per
  transaction index. A version is a value, a deletion or an estimate. The versions are kept in a tree
  of github.com/google/btree ordered by index, or in a slice with one slot per index. Locks are not
  modelled: each method is one step.
\<close>

section \<open>Versions\<close>

record valueItem =
  vi_index :: int
  vi_incarnation :: int
  vi_value :: slice
  vi_estimate :: bool

definition IsDeleted :: "valueItem \<Rightarrow> bool" where
  "IsDeleted v \<longleftrightarrow> vi_value v = None \<and> \<not> vi_estimate v"

definition IsEstimate :: "valueItem \<Rightarrow> bool" where
  "IsEstimate v = vi_estimate v"

definition valueItem_Less :: "valueItem \<Rightarrow> valueItem \<Rightarrow> bool" where
  "valueItem_Less i other \<longleftrightarrow> vi_index i < vi_index other"

definition NewValueItem :: "int \<Rightarrow> int \<Rightarrow> slice \<Rightarrow> valueItem" where
  "NewValueItem index incarnation v = \<lparr>vi_index = index, vi_incarnation = incarnation, vi_value = v, vi_estimate = False\<rparr>"

definition NewEstimateItem :: "int \<Rightarrow> int \<Rightarrow> valueItem" where
  "NewEstimateItem index incarnation = \<lparr>vi_index = index, vi_incarnation = incarnation, vi_value = None, vi_estimate = True\<rparr>"

definition NewDeletedItem :: "int \<Rightarrow> int \<Rightarrow> valueItem" where
  "NewDeletedItem index incarnation = \<lparr>vi_index = index, vi_incarnation = incarnation, vi_value = None, vi_estimate = False\<rparr>"

lemmas item_defs = NewValueItem_def NewEstimateItem_def NewDeletedItem_def IsDeleted_def IsEstimate_def

lemma new_item_simps [simp]:
  "vi_index (NewValueItem i n v) = i" "vi_index (NewEstimateItem i n) = i" "vi_index (NewDeletedItem i n) = i"
  "IsEstimate (NewEstimateItem i n)" "\<not> IsEstimate (NewValueItem i n v)" "\<not> IsEstimate (NewDeletedItem i n)"
  "IsDeleted (NewDeletedItem i n)" "\<not> IsDeleted (NewEstimateItem i n)" "IsDeleted (NewValueItem i n v) \<longleftrightarrow> v = None"
  "vi_value (NewValueItem i n v) = v" "vi_value (NewDeletedItem i n) = None"
  by (simp_all add: item_defs)

section \<open>The tree of versions\<close>

text \<open>
  The methods of \<open>btree.BTree\<close> that the code calls. \<open>Descend\<close> and \<open>DescendLessOrEqual\<close> call back for
  each item in descending order until the callback returns false; the callback updates the variables
  \<open>vItem, found\<close> of its caller, which are one optional item.
\<close>

type_synonym callback = "valueItem \<Rightarrow> valueItem option \<Rightarrow> bool \<times> valueItem option"

record 't gbtree_ops =
  gb_New :: 't
  gb_Max :: "'t \<Rightarrow> valueItem option"
  gb_Descend :: "callback \<Rightarrow> 't \<Rightarrow> valueItem option \<Rightarrow> valueItem option"
  gb_DescendLessOrEqual :: "valueItem \<Rightarrow> callback \<Rightarrow> 't \<Rightarrow> valueItem option \<Rightarrow> valueItem option"
  gb_ReplaceOrInsert :: "valueItem \<Rightarrow> 't \<Rightarrow> 't"
  gb_Delete :: "valueItem \<Rightarrow> 't \<Rightarrow> 't"

fun visit :: "callback \<Rightarrow> valueItem list \<Rightarrow> valueItem option \<Rightarrow> valueItem option" where
  "visit f [] a = a"
| "visit f (x # xs) a = (let (go_on, a') = f x a in if go_on then visit f xs a' else a')"

locale gbtree_lib =
  fixes lib :: "'t gbtree_ops"
    and t_ok :: "'t \<Rightarrow> bool"
    and elems :: "'t \<Rightarrow> valueItem list"
  assumes t_sorted: "t_ok t \<Longrightarrow> sorted_wrt valueItem_Less (elems t)"
    and t_New: "t_ok (gb_New lib) \<and> elems (gb_New lib) = []"
    and t_Max: "t_ok t \<Longrightarrow> gb_Max lib t = (if elems t = [] then None else Some (last (elems t)))"
    and t_Descend: "t_ok t \<Longrightarrow> gb_Descend lib f t a = visit f (rev (elems t)) a"
    and t_DescendLE: "t_ok t \<Longrightarrow>
      gb_DescendLessOrEqual lib pivot f t a = visit f (rev (filter (\<lambda>x. \<not> valueItem_Less pivot x) (elems t))) a"
    and t_Replace: "t_ok t \<Longrightarrow> t_ok (gb_ReplaceOrInsert lib x t) \<and>
      set (elems (gb_ReplaceOrInsert lib x t)) = insert x {y \<in> set (elems t). valueItem_Less x y \<or> valueItem_Less y x}"
    and t_Delete: "t_ok t \<Longrightarrow> t_ok (gb_Delete lib x t) \<and>
      set (elems (gb_Delete lib x t)) = {y \<in> set (elems t). valueItem_Less x y \<or> valueItem_Less y x}"

definition mvi_NewMultiVersionItem :: "'t gbtree_ops \<Rightarrow> 't" where
  "mvi_NewMultiVersionItem lib = gb_New lib"

definition mvi_GetLatest :: "'t gbtree_ops \<Rightarrow> ('t, valueItem option) go" where
  "mvi_GetLatest lib = go_read (gb_Max lib)"

definition mvi_GetLatestNonEstimate :: "'t gbtree_ops \<Rightarrow> ('t, valueItem option) go" where
  "mvi_GetLatestNonEstimate lib = go_read (\<lambda>t.
     gb_Descend lib (\<lambda>it a. if IsEstimate it then (True, a) else (False, Some it)) t None)"

definition mvi_GetLatestBeforeIndex :: "'t gbtree_ops \<Rightarrow> int \<Rightarrow> ('t, valueItem option) go" where
  "mvi_GetLatestBeforeIndex lib index = go_read (\<lambda>t.
     let pivot = \<lparr>vi_index = index - 1, vi_incarnation = 0, vi_value = None, vi_estimate = False\<rparr> in
     gb_DescendLessOrEqual lib pivot (\<lambda>it a. (False, Some it)) t None)"

definition mvi_GetLatestBeforeIndexExpansion :: "'t gbtree_ops \<Rightarrow> int \<Rightarrow> ('t, valueItem option) go" where
  "mvi_GetLatestBeforeIndexExpansion lib index = mvi_GetLatestBeforeIndex lib index"

definition mvi_Set :: "'t gbtree_ops \<Rightarrow> int \<Rightarrow> int \<Rightarrow> slice \<Rightarrow> ('t, unit) go" where
  "mvi_Set lib index incarnation v =
     go_bind (AssertValidValue v) (\<lambda>_. go_modify (gb_ReplaceOrInsert lib (NewValueItem index incarnation v)))"

definition mvi_Delete :: "'t gbtree_ops \<Rightarrow> int \<Rightarrow> int \<Rightarrow> ('t, unit) go" where
  "mvi_Delete lib index incarnation = go_modify (gb_ReplaceOrInsert lib (NewDeletedItem index incarnation))"

definition mvi_Remove :: "'t gbtree_ops \<Rightarrow> int \<Rightarrow> ('t, unit) go" where
  "mvi_Remove lib index = go_modify (gb_Delete lib
     \<lparr>vi_index = index, vi_incarnation = 0, vi_value = None, vi_estimate = False\<rparr>)"

definition mvi_SetEstimate :: "'t gbtree_ops \<Rightarrow> int \<Rightarrow> int \<Rightarrow> ('t, unit) go" where
  "mvi_SetEstimate lib index incarnation = go_modify (gb_ReplaceOrInsert lib (NewEstimateItem index incarnation))"

section \<open>The list of versions\<close>

text \<open>
  The slot of an index holds its version or nil. An index past the end is clamped to the last slot by
  the writers; a negative index, or an empty list, is an index out of range. The methods with a value
  receiver write through the shared backing array, so their writes are seen by the owner.
\<close>

type_synonym versions_list = "valueItem option list"

text \<open>\<open>make\<close> panics for a negative size.\<close>

abbreviation no_versions :: "int \<Rightarrow> versions_list" where
  "no_versions n \<equiv> replicate (nat n) None"

definition NewMultiVersionListItem :: "int \<Rightarrow> ('s, versions_list) go" where
  "NewMultiVersionListItem n = (if n < 0 then go_panic (Panic_runtime ''makeslice: len out of range'') else ret (no_versions n))"

lemma NewMultiVersionListItem_ret: "0 \<le> n \<Longrightarrow> NewMultiVersionListItem n = ret (no_versions n)"
  by (simp add: NewMultiVersionListItem_def)

text \<open>\<open>for i := range m.valueList\<close> from the last slot down.\<close>

fun last_some :: "(valueItem \<Rightarrow> bool) \<Rightarrow> versions_list \<Rightarrow> valueItem option" where
  "last_some ok [] = None"
| "last_some ok (x # rest) = (case x of Some v \<Rightarrow> if ok v then Some v else last_some ok rest | None \<Rightarrow> last_some ok rest)"

definition mvl_GetLatest :: "(versions_list, valueItem option) go" where
  "mvl_GetLatest = go_read (\<lambda>l. last_some (\<lambda>_. True) (rev l))"

definition mvl_GetLatestNonEstimate :: "(versions_list, valueItem option) go" where
  "mvl_GetLatestNonEstimate = go_read (\<lambda>l. last_some (\<lambda>v. \<not> IsEstimate v) (rev l))"

text \<open>\<open>for i := index - 1; i >= 0; i--\<close> over the slots below the index.\<close>

definition mvl_scan :: "int \<Rightarrow> versions_list \<Rightarrow> valueItem option" where
  "mvl_scan index l = last_some (\<lambda>v. vi_index v < index) (rev (take (nat index) l))"

definition mvl_GetLatestBeforeIndex :: "int \<Rightarrow> (versions_list, valueItem option) go" where
  "mvl_GetLatestBeforeIndex index = go_read (\<lambda>l. if index \<ge> int (length l) then None else mvl_scan index l)"

definition mvl_GetLatestBeforeIndexExpansion :: "int \<Rightarrow> (versions_list, valueItem option) go" where
  "mvl_GetLatestBeforeIndexExpansion index =
     go_bind (go_modify (\<lambda>l. if index \<ge> int (length l)
       then l @ replicate (nat ((index + 1 - int (length l)) * 2)) None else l)) (\<lambda>_.
     go_read (mvl_scan index))"

definition index_panic :: panic where
  "index_panic = Panic_runtime ''index out of range''"

definition mvl_assign :: "int \<Rightarrow> valueItem option \<Rightarrow> (versions_list, unit) go" where
  "mvl_assign index x = go_bind (go_read length) (\<lambda>n.
     if 0 \<le> index \<and> index < int n then go_modify (\<lambda>l. l[nat index := x]) else go_panic index_panic)"

definition mvl_clamp :: "int \<Rightarrow> (versions_list, int) go" where
  "mvl_clamp index = go_read (\<lambda>l. if index \<ge> int (length l) then int (length l) - 1 else index)"

definition mvl_setCommonValue :: "int \<Rightarrow> valueItem \<Rightarrow> (versions_list, unit) go" where
  "mvl_setCommonValue index v = go_bind (mvl_clamp index) (\<lambda>i. mvl_assign i (Some v))"

definition mvl_Set :: "int \<Rightarrow> int \<Rightarrow> slice \<Rightarrow> (versions_list, unit) go" where
  "mvl_Set index incarnation v =
     go_bind (AssertValidValue v) (\<lambda>_. mvl_setCommonValue index (NewValueItem index incarnation v))"

definition mvl_SetEstimate :: "int \<Rightarrow> int \<Rightarrow> (versions_list, unit) go" where
  "mvl_SetEstimate index incarnation = mvl_setCommonValue index (NewEstimateItem index incarnation)"

definition mvl_Delete :: "int \<Rightarrow> int \<Rightarrow> (versions_list, unit) go" where
  "mvl_Delete index incarnation =
     go_bind (mvl_clamp index) (\<lambda>i. mvl_setCommonValue i (NewDeletedItem i incarnation))"

definition mvl_Remove :: "int \<Rightarrow> (versions_list, unit) go" where
  "mvl_Remove index = go_bind (mvl_clamp index) (\<lambda>i. mvl_assign i None)"

section \<open>The interface of both\<close>

text \<open>\<open>MultiVersionValue\<close>: the object a key of the store maps to. \<open>Nil_value\<close> is the nil interface that
  \<open>Store.NewKey\<close> stores, on which the type assertion \<open>val.(MultiVersionValue)\<close> panics.\<close>

datatype 't mv_value = Tree_value 't | List_value versions_list | Nil_value

definition on_value :: "('t, 'a) go \<Rightarrow> (versions_list, 'a) go \<Rightarrow> ('t mv_value, 'a) go" where
  "on_value mt ml = (\<lambda>x. case x of
       Tree_value t \<Rightarrow> map_option (map_prod id Tree_value) (mt t)
     | List_value l \<Rightarrow> map_option (map_prod id List_value) (ml l)
     | Nil_value \<Rightarrow> Some (Inl (Panic_runtime ''interface conversion: interface is nil''), x))"

record 'v mv_ops =
  mv_GetLatest :: "('v, valueItem option) go"
  mv_GetLatestNonEstimate :: "('v, valueItem option) go"
  mv_GetLatestBeforeIndex :: "int \<Rightarrow> ('v, valueItem option) go"
  mv_GetLatestBeforeIndexExpansion :: "int \<Rightarrow> ('v, valueItem option) go"
  mv_Set :: "int \<Rightarrow> int \<Rightarrow> slice \<Rightarrow> ('v, unit) go"
  mv_SetEstimate :: "int \<Rightarrow> int \<Rightarrow> ('v, unit) go"
  mv_Delete :: "int \<Rightarrow> int \<Rightarrow> ('v, unit) go"
  mv_Remove :: "int \<Rightarrow> ('v, unit) go"

definition tree_ops :: "'t gbtree_ops \<Rightarrow> 't mv_ops" where
  "tree_ops lib = \<lparr>
     mv_GetLatest = mvi_GetLatest lib,
     mv_GetLatestNonEstimate = mvi_GetLatestNonEstimate lib,
     mv_GetLatestBeforeIndex = mvi_GetLatestBeforeIndex lib,
     mv_GetLatestBeforeIndexExpansion = mvi_GetLatestBeforeIndexExpansion lib,
     mv_Set = mvi_Set lib,
     mv_SetEstimate = mvi_SetEstimate lib,
     mv_Delete = mvi_Delete lib,
     mv_Remove = mvi_Remove lib \<rparr>"

definition list_ops :: "versions_list mv_ops" where
  "list_ops = \<lparr>
     mv_GetLatest = mvl_GetLatest,
     mv_GetLatestNonEstimate = mvl_GetLatestNonEstimate,
     mv_GetLatestBeforeIndex = mvl_GetLatestBeforeIndex,
     mv_GetLatestBeforeIndexExpansion = mvl_GetLatestBeforeIndexExpansion,
     mv_Set = mvl_Set,
     mv_SetEstimate = mvl_SetEstimate,
     mv_Delete = mvl_Delete,
     mv_Remove = mvl_Remove \<rparr>"

definition value_ops :: "'t gbtree_ops \<Rightarrow> 't mv_value mv_ops" where
  "value_ops lib = \<lparr>
     mv_GetLatest = on_value (mvi_GetLatest lib) mvl_GetLatest,
     mv_GetLatestNonEstimate = on_value (mvi_GetLatestNonEstimate lib) mvl_GetLatestNonEstimate,
     mv_GetLatestBeforeIndex = (\<lambda>i. on_value (mvi_GetLatestBeforeIndex lib i) (mvl_GetLatestBeforeIndex i)),
     mv_GetLatestBeforeIndexExpansion = (\<lambda>i.
       on_value (mvi_GetLatestBeforeIndexExpansion lib i) (mvl_GetLatestBeforeIndexExpansion i)),
     mv_Set = (\<lambda>i n v. on_value (mvi_Set lib i n v) (mvl_Set i n v)),
     mv_SetEstimate = (\<lambda>i n. on_value (mvi_SetEstimate lib i n) (mvl_SetEstimate i n)),
     mv_Delete = (\<lambda>i n. on_value (mvi_Delete lib i n) (mvl_Delete i n)),
     mv_Remove = (\<lambda>i. on_value (mvi_Remove lib i) (mvl_Remove i)) \<rparr>"

section \<open>The contract\<close>

text \<open>
  An object stands for a map from indices to versions, and takes writes at the indices \<open>idx\<close>. A read
  returns the version with the greatest index among those it asks for.
\<close>

definition latest :: "(int \<Rightarrow> valueItem \<Rightarrow> bool) \<Rightarrow> (int \<rightharpoonup> valueItem) \<Rightarrow> valueItem option \<Rightarrow> bool" where
  "latest P m r \<longleftrightarrow> (case r of
       None \<Rightarrow> \<forall>j v. m j = Some v \<longrightarrow> \<not> P j v
     | Some v \<Rightarrow> \<exists>j. m j = Some v \<and> P j v \<and> (\<forall>j' v'. j < j' \<longrightarrow> m j' = Some v' \<longrightarrow> \<not> P j' v'))"

lemma latest_unique: "latest P m r \<Longrightarrow> latest P m r' \<Longrightarrow> r = r'"
  by (auto simp: latest_def split: option.splits) (metis linorder_neqE option.inject)+

lemma latest_alt:
  "latest P m r \<longleftrightarrow> (case r of
       None \<Rightarrow> \<forall>j v. \<not> (m j = Some v \<and> P j v)
     | Some v \<Rightarrow> \<exists>j. (m j = Some v \<and> P j v) \<and> (\<forall>j' v'. j < j' \<longrightarrow> \<not> (m j' = Some v' \<and> P j' v')))"
  unfolding latest_def by (cases r) auto

lemma latest_cong:
  assumes "\<And>j v. (m j = Some v \<and> P j v) \<longleftrightarrow> (m' j = Some v \<and> P' j v)"
  shows "latest P m r \<longleftrightarrow> latest P' m' r"
  unfolding latest_alt assms ..

abbreviation below :: "int \<Rightarrow> int \<Rightarrow> valueItem \<Rightarrow> bool" where
  "below i \<equiv> \<lambda>j _. j < i"

locale mv_object =
  fixes ops :: "'v mv_ops"
    and inv :: "'v \<Rightarrow> bool"
    and vers :: "'v \<Rightarrow> int \<rightharpoonup> valueItem"
    and idx :: "'v \<Rightarrow> int \<Rightarrow> bool"
  assumes GetLatest: "inv x \<Longrightarrow> wp (mv_GetLatest ops) (\<lambda>r x'. x' = x \<and> latest (\<lambda>_ _. True) (vers x) r) x"
    and NonEstimate: "inv x \<Longrightarrow>
      wp (mv_GetLatestNonEstimate ops) (\<lambda>r x'. x' = x \<and> latest (\<lambda>_ v. \<not> IsEstimate v) (vers x) r) x"
    and Before: "inv x \<Longrightarrow> idx x i \<Longrightarrow>
      wp (mv_GetLatestBeforeIndex ops i) (\<lambda>r x'. x' = x \<and> latest (below i) (vers x) r) x"
    and Expansion: "inv x \<Longrightarrow> wp (mv_GetLatestBeforeIndexExpansion ops i) (\<lambda>r x'. inv x' \<and> vers x' = vers x \<and>
        (\<forall>j. idx x j \<longrightarrow> idx x' j) \<and> latest (below i) (vers x) r) x"
    and Set: "inv x \<Longrightarrow> idx x i \<Longrightarrow> valid_value w \<Longrightarrow> wp (mv_Set ops i n (Some w)) (\<lambda>_ x'. inv x' \<and> idx x' = idx x \<and>
        vers x' = (vers x)(i \<mapsto> NewValueItem i n (Some w))) x"
    and SetEstimate: "inv x \<Longrightarrow> idx x i \<Longrightarrow> wp (mv_SetEstimate ops i n) (\<lambda>_ x'. inv x' \<and> idx x' = idx x \<and>
        vers x' = (vers x)(i \<mapsto> NewEstimateItem i n)) x"
    and Delete: "inv x \<Longrightarrow> idx x i \<Longrightarrow> wp (mv_Delete ops i n) (\<lambda>_ x'. inv x' \<and> idx x' = idx x \<and>
        vers x' = (vers x)(i \<mapsto> NewDeletedItem i n)) x"
    and Remove: "inv x \<Longrightarrow> idx x i \<Longrightarrow> wp (mv_Remove ops i) (\<lambda>_ x'. inv x' \<and> idx x' = idx x \<and>
        vers x' = (vers x)(i := None)) x"
    and index: "inv x \<Longrightarrow> vers x j = Some v \<Longrightarrow> vi_index v = j"

subsection \<open>The tree keeps it\<close>

definition tree_vers :: "valueItem list \<Rightarrow> int \<rightharpoonup> valueItem" where
  "tree_vers xs = map_of (map (\<lambda>x. (vi_index x, x)) xs)"

lemma tree_vers_iff:
  assumes "sorted_wrt valueItem_Less xs"
  shows "tree_vers xs i = Some v \<longleftrightarrow> v \<in> set xs \<and> vi_index v = i"
proof -
  have "distinct (map vi_index xs)"
    using assms by (induction xs) (auto simp: valueItem_Less_def)
  then show ?thesis
    by (auto simp: tree_vers_def map_of_eq_Some_iff comp_def)
qed

lemma visit_find:
  "visit (\<lambda>it a. if P it then (False, Some it) else (True, a)) xs None = find P xs"
  by (induction xs) auto

text \<open>Searching a sorted list from its end finds the latest version.\<close>

lemma find_rev_latest:
  assumes "sorted_wrt valueItem_Less xs"
  shows "latest (\<lambda>_. P) (tree_vers xs) (find P (rev xs))"
  using assms
proof (induction xs rule: rev_induct)
  case Nil
  then show ?case by (simp add: latest_def tree_vers_def)
next
  case (snoc x xs)
  have s: "sorted_wrt valueItem_Less xs" and below: "\<forall>y \<in> set xs. vi_index y < vi_index x"
    using snoc.prems by (simp_all add: sorted_wrt_append, simp add: valueItem_Less_def)
  note iff = tree_vers_iff [OF snoc.prems] and iff' = tree_vers_iff [OF s]
  show ?case
  proof (cases "P x")
    case True
    then show ?thesis using below by (auto simp: latest_def iff)
  next
    case False
    then show ?thesis using snoc.IH [OF s]
      by (auto simp: latest_def iff iff' split: option.splits)
  qed
qed

abbreviation at_index :: "int \<Rightarrow> valueItem" where
  "at_index i \<equiv> \<lparr>vi_index = i, vi_incarnation = 0, vi_value = None, vi_estimate = False\<rparr>"

lemma map_eqI: "(\<And>j v. m j = Some v \<longleftrightarrow> m' j = Some v) \<Longrightarrow> m = m'"
  by (rule ext) (metis option.exhaust)

context gbtree_lib
begin

lemma replace_vers:
  assumes "t_ok t" "vi_index v = i"
  shows "t_ok (gb_ReplaceOrInsert lib v t)" "tree_vers (elems (gb_ReplaceOrInsert lib v t)) = (tree_vers (elems t))(i \<mapsto> v)"
proof -
  let ?t = "gb_ReplaceOrInsert lib v t"
  show ok: "t_ok ?t" using t_Replace [OF assms(1)] by simp
  have "y \<in> set (elems ?t) \<longleftrightarrow> y = v \<or> y \<in> set (elems t) \<and> vi_index y \<noteq> i" for y
    unfolding conjunct2 [OF t_Replace [OF assms(1)]] valueItem_Less_def assms(2) by (simp add: neq_iff disj_commute)
  then show "tree_vers (elems ?t) = (tree_vers (elems t))(i \<mapsto> v)"
    using tree_vers_iff [OF t_sorted [OF ok]] tree_vers_iff [OF t_sorted [OF assms(1)]] assms(2)
    by (intro map_eqI) (metis fun_upd_apply option.inject)
qed

lemma delete_vers:
  assumes "t_ok t"
  shows "t_ok (gb_Delete lib (at_index i) t)" "tree_vers (elems (gb_Delete lib (at_index i) t)) = (tree_vers (elems t))(i := None)"
proof -
  let ?t = "gb_Delete lib (at_index i) t"
  show ok: "t_ok ?t" using t_Delete [OF assms(1)] by simp
  have "y \<in> set (elems ?t) \<longleftrightarrow> y \<in> set (elems t) \<and> vi_index y \<noteq> i" for y
    unfolding conjunct2 [OF t_Delete [OF assms(1)]] valueItem_Less_def by (simp add: neq_iff disj_commute)
  then show "tree_vers (elems ?t) = (tree_vers (elems t))(i := None)"
    using tree_vers_iff [OF t_sorted [OF ok]] tree_vers_iff [OF t_sorted [OF assms(1)]]
    by (intro map_eqI) (metis fun_upd_apply option.distinct(1))
qed

lemma Descend_latest:
  assumes "t_ok t"
  shows "latest (\<lambda>_ v. \<not> IsEstimate v) (tree_vers (elems t))
    (gb_Descend lib (\<lambda>it a. if IsEstimate it then (True, a) else (False, Some it)) t None)"
proof -
  have "(\<lambda>it a. if IsEstimate it then (True, a) else (False, Some it)) =
      (\<lambda>it a. if \<not> IsEstimate it then (False, Some it) else (True, a))"
    by (intro ext) simp
  then show ?thesis
    using find_rev_latest [OF t_sorted [OF assms], of "\<lambda>v. \<not> IsEstimate v"]
    by (simp only: t_Descend [OF assms] visit_find)
qed

lemma DescendLE_latest:
  assumes "t_ok t"
  shows "latest (below i) (tree_vers (elems t))
    (gb_DescendLessOrEqual lib (at_index (i - 1)) (\<lambda>it a. (False, Some it)) t None)"
proof -
  have "visit (\<lambda>it a. (False, Some it)) xs None = find (\<lambda>_. True) xs" for xs
    by (cases xs) auto
  moreover have "find (\<lambda>_. True) (rev (filter P xs)) = find P (rev xs)" for P and xs :: "valueItem list"
    by (induction xs rule: rev_induct) auto
  ultimately have "gb_DescendLessOrEqual lib (at_index (i - 1)) (\<lambda>it a. (False, Some it)) t None =
      find (\<lambda>x. vi_index x < i) (rev (elems t))"
    by (simp add: t_DescendLE [OF assms] valueItem_Less_def not_less)
  moreover have "latest (\<lambda>_ v. vi_index v < i) (tree_vers (elems t)) r \<longleftrightarrow> latest (below i) (tree_vers (elems t)) r" for r
    by (auto simp: latest_def tree_vers_iff [OF t_sorted [OF assms]] split: option.splits)
  ultimately show ?thesis
    using find_rev_latest [OF t_sorted [OF assms], of "\<lambda>v. vi_index v < i"] by simp
qed

lemma Max_latest:
  assumes "t_ok t"
  shows "latest (\<lambda>_ _. True) (tree_vers (elems t)) (gb_Max lib t)"
proof -
  have "gb_Max lib t = find (\<lambda>_. True) (rev (elems t))"
    by (cases "elems t" rule: rev_cases) (simp_all add: t_Max [OF assms])
  then show ?thesis using find_rev_latest [OF t_sorted [OF assms], of "\<lambda>_. True"] by simp
qed

end

sublocale gbtree_lib \<subseteq> tree: mv_object "tree_ops lib" t_ok "\<lambda>t. tree_vers (elems t)" "\<lambda>_ _. True"
proof
  fix x j v
  assume x: "t_ok x" and "tree_vers (elems x) j = Some v"
  then show "vi_index v = j" using tree_vers_iff [OF t_sorted [OF x]] by simp
qed (simp_all add: tree_ops_def wp_simps mvi_GetLatest_def mvi_GetLatestNonEstimate_def mvi_GetLatestBeforeIndex_def
      mvi_GetLatestBeforeIndexExpansion_def mvi_Set_def mvi_SetEstimate_def mvi_Delete_def mvi_Remove_def
      Max_latest Descend_latest DescendLE_latest replace_vers delete_vers)

subsection \<open>The list keeps it, for the indices it has slots for\<close>

definition list_inv :: "versions_list \<Rightarrow> bool" where
  "list_inv l \<longleftrightarrow> (\<forall>i < length l. \<forall>v. l ! i = Some v \<longrightarrow> vi_index v = int i)"

definition list_vers :: "versions_list \<Rightarrow> int \<rightharpoonup> valueItem" where
  "list_vers l j = (if 0 \<le> j \<and> j < int (length l) then l ! nat j else None)"

abbreviation list_idx :: "versions_list \<Rightarrow> int \<Rightarrow> bool" where
  "list_idx l i \<equiv> 0 \<le> i \<and> i < int (length l)"

lemma list_vers_iff: "list_vers l j = Some v \<longleftrightarrow> (\<exists>i < length l. j = int i \<and> l ! i = Some v)"
proof -
  have "\<exists>i < length l. j = int i \<and> l ! i = Some v" if "0 \<le> j" "j < int (length l)" "l ! nat j = Some v"
    using that by (intro exI [of _ "nat j"]) auto
  then show ?thesis by (auto simp: list_vers_def)
qed

lemma last_some_latest:
  assumes "list_inv l"
  shows "latest (\<lambda>_. P) (list_vers l) (last_some P (rev l))"
  using assms
proof (induction l rule: rev_induct)
  case Nil
  then show ?case by (simp add: latest_def list_vers_iff)
next
  case (snoc x l)
  have inv: "list_inv l"
    using snoc.prems unfolding list_inv_def by (metis length_append_singleton less_SucI nth_append)
  have snoc_vers: "list_vers (l @ [y]) j = (if j = int (length l) then y else list_vers l j)" for j y
    unfolding list_vers_def by (simp add: nth_append nat_less_iff nth_Cons')
  have none: "list_vers l j = None" if "int (length l) \<le> j" for j
    using that by (simp add: list_vers_def)
  show ?case
  proof (cases "\<exists>v. x = Some v \<and> P v")
    case True
    then obtain v where v: "x = Some v" "P v" by blast
    then show ?thesis
      by (simp add: latest_def) (rule exI [of _ "int (length l)"], simp add: snoc_vers none)
  next
    case False
    then have "last_some P (rev (l @ [x])) = last_some P (rev l)" by (auto split: option.splits)
    moreover have "(list_vers (l @ [x]) j = Some v \<and> P v) \<longleftrightarrow> (list_vers l j = Some v \<and> P v)" for j v
      using False none [of "int (length l)"] unfolding snoc_vers by (cases "j = int (length l)") auto
    ultimately show ?thesis
      using snoc.IH [OF inv] latest_cong [of "list_vers (l @ [x])" "\<lambda>_. P" "list_vers l" "\<lambda>_. P"] by simp
  qed
qed

lemma list_inv_take: "list_inv l \<Longrightarrow> list_inv (take n l)"
  by (simp add: list_inv_def)

lemma mvl_scan_latest:
  assumes "list_inv l" "i \<le> int (length l)"
  shows "latest (below i) (list_vers l) (mvl_scan i l)"
proof -
  have "(list_vers (take (nat i) l) j = Some v \<and> vi_index v < i) \<longleftrightarrow> (list_vers l j = Some v \<and> j < i)" for j v
    using assms by (auto simp: list_vers_iff list_inv_def)
  from latest_cong [of "list_vers (take (nat i) l)" "\<lambda>_ v. vi_index v < i", OF this] show ?thesis
    using last_some_latest [OF list_inv_take [OF assms(1)], of "\<lambda>v. vi_index v < i" "nat i"]
    by (simp add: mvl_scan_def)
qed

lemma list_assign:
  assumes "list_inv l" "list_idx l i" "\<forall>v. x = Some v \<longrightarrow> vi_index v = i"
  shows "list_inv (l[nat i := x])" "list_vers (l[nat i := x]) = (list_vers l)(i := x)"
  using assms by (auto simp: list_inv_def list_vers_def nth_list_update fun_eq_iff split: if_splits)

lemma mvl_assign_wp [wp_simps]:
  "wp (mvl_assign i x) Q l \<longleftrightarrow> list_idx l i \<and> Q () (l[nat i := x])"
  by (auto simp: mvl_assign_def wp_simps)

lemma list_vers_extend: "list_vers (l @ replicate n None) = list_vers l"
proof (rule map_eqI)
  fix j v
  have "(l @ replicate n None) ! i = (if i < length l then l ! i else None)" if "i < length l + n" for i
    using that by (simp add: nth_append)
  then show "list_vers (l @ replicate n None) j = Some v \<longleftrightarrow> list_vers l j = Some v"
    by (auto simp: list_vers_iff split: if_splits)
qed

lemma list_inv_extend: "list_inv l \<Longrightarrow> list_inv (l @ replicate n None)"
  by (auto simp: list_inv_def nth_append split: if_splits)

lemma mvl_Expansion_wp:
  assumes "list_inv l"
  shows "wp (mvl_GetLatestBeforeIndexExpansion i) (\<lambda>r x'. list_inv x' \<and> list_vers x' = list_vers l \<and>
    length l \<le> length x' \<and> latest (below i) (list_vers l) r) l"
proof (cases "i \<ge> int (length l)")
  case True
  let ?e = "l @ replicate (nat ((i + 1 - int (length l)) * 2)) None"
  have "i \<le> int (length ?e)"
  proof -
    have "int (nat ((i + 1 - int (length l)) * 2)) = (i + 1 - int (length l)) * 2"
      using True by (intro nat_0_le) simp
    with True show ?thesis unfolding length_append length_replicate of_nat_add by simp
  qed
  with mvl_scan_latest [OF list_inv_extend [OF assms]] have "latest (below i) (list_vers l) (mvl_scan i ?e)"
    unfolding list_vers_extend .
  with True assms show ?thesis
    by (simp add: mvl_GetLatestBeforeIndexExpansion_def wp_simps list_vers_extend list_inv_extend)
next
  case False
  with assms mvl_scan_latest [of l i] show ?thesis
    by (simp add: mvl_GetLatestBeforeIndexExpansion_def wp_simps)
qed

lemma list_vers_index: "list_inv l \<Longrightarrow> list_vers l j = Some v \<Longrightarrow> vi_index v = j"
  by (auto simp: list_inv_def list_vers_iff)

lemma mvl_setCommonValue_wp:
  assumes "list_inv l" "list_idx l i" "vi_index v = i"
  shows "wp (mvl_setCommonValue i v) (\<lambda>_ l'. list_inv l' \<and> list_idx l' = list_idx l \<and> list_vers l' = (list_vers l)(i \<mapsto> v)) l"
  using list_assign [OF assms(1,2), of "Some v"] assms(2,3)
  by (simp add: mvl_setCommonValue_def mvl_clamp_def wp_simps)

lemma mvl_Remove_wp:
  assumes "list_inv l" "list_idx l i"
  shows "wp (mvl_Remove i) (\<lambda>_ l'. list_inv l' \<and> list_idx l' = list_idx l \<and> list_vers l' = (list_vers l)(i := None)) l"
  using list_assign [OF assms, of None] assms(2) by (simp add: mvl_Remove_def mvl_clamp_def wp_simps)

lemma mvl_Delete_eq: "list_idx l i \<Longrightarrow> mvl_Delete i n l = mvl_setCommonValue i (NewDeletedItem i n) l"
  by (simp add: mvl_Delete_def mvl_clamp_def go_bind_apply go_read_def)

interpretation list: mv_object list_ops list_inv list_vers list_idx
proof
  fix l i n w
  assume l: "list_inv l"
  show "wp (mv_GetLatestBeforeIndexExpansion list_ops i) (\<lambda>r x'. list_inv x' \<and> list_vers x' = list_vers l \<and>
        (\<forall>j. list_idx l j \<longrightarrow> list_idx x' j) \<and> latest (below i) (list_vers l) r) l"
    using mvl_Expansion_wp [OF l, of i] unfolding list_ops_def by simp (erule wp_mono, auto)
  show "wp (mv_GetLatest list_ops) (\<lambda>r x'. x' = l \<and> latest (\<lambda>_ _. True) (list_vers l) r) l"
    and "wp (mv_GetLatestNonEstimate list_ops) (\<lambda>r x'. x' = l \<and> latest (\<lambda>_ v. \<not> IsEstimate v) (list_vers l) r) l"
    using last_some_latest [OF l]
    by (simp_all add: list_ops_def wp_simps mvl_GetLatest_def mvl_GetLatestNonEstimate_def)
  assume i: "list_idx l i"
  show "wp (mv_GetLatestBeforeIndex list_ops i) (\<lambda>r x'. x' = l \<and> latest (below i) (list_vers l) r) l"
    using mvl_scan_latest [OF l, of i] i by (simp add: list_ops_def wp_simps mvl_GetLatestBeforeIndex_def)
  show "wp (mv_SetEstimate list_ops i n) (\<lambda>_ l'. list_inv l' \<and> list_idx l' = list_idx l \<and>
        list_vers l' = (list_vers l)(i \<mapsto> NewEstimateItem i n)) l"
    unfolding list_ops_def mv_ops.simps mvl_SetEstimate_def by (rule mvl_setCommonValue_wp [OF l i]) simp
  show "wp (mv_Delete list_ops i n) (\<lambda>_ l'. list_inv l' \<and> list_idx l' = list_idx l \<and>
        list_vers l' = (list_vers l)(i \<mapsto> NewDeletedItem i n)) l"
    using mvl_setCommonValue_wp [OF l i, of "NewDeletedItem i n"] i
    by (simp add: list_ops_def wp_def mvl_Delete_eq)
  show "wp (mv_Remove list_ops i) (\<lambda>_ l'. list_inv l' \<and> list_idx l' = list_idx l \<and> list_vers l' = (list_vers l)(i := None)) l"
    using mvl_Remove_wp [OF l i] by (simp add: list_ops_def)
  assume "valid_value w"
  then show "wp (mv_Set list_ops i n (Some w)) (\<lambda>_ l'. list_inv l' \<and> list_idx l' = list_idx l \<and>
        list_vers l' = (list_vers l)(i \<mapsto> NewValueItem i n (Some w))) l"
    using mvl_setCommonValue_wp [OF l i, of "NewValueItem i n (Some w)"] by (simp add: list_ops_def mvl_Set_def)
qed (rule list_vers_index)

subsection \<open>So does the object of either kind\<close>

primrec value_inv :: "('t \<Rightarrow> bool) \<Rightarrow> 't mv_value \<Rightarrow> bool" where
  "value_inv t_ok (Tree_value t) = t_ok t"
| "value_inv t_ok (List_value l) = list_inv l"
| "value_inv t_ok Nil_value = False"

primrec value_vers :: "('t \<Rightarrow> valueItem list) \<Rightarrow> 't mv_value \<Rightarrow> int \<rightharpoonup> valueItem" where
  "value_vers elems (Tree_value t) = tree_vers (elems t)"
| "value_vers elems (List_value l) = list_vers l"
| "value_vers elems Nil_value = Map.empty"

primrec value_idx :: "'t mv_value \<Rightarrow> int \<Rightarrow> bool" where
  "value_idx (Tree_value t) = (\<lambda>_. True)"
| "value_idx (List_value l) = list_idx l"
| "value_idx Nil_value = (\<lambda>_. False)"

lemma wp_on_value [simp]:
  "wp (on_value mt ml) Q (Tree_value t) \<longleftrightarrow> wp mt (\<lambda>r t'. Q r (Tree_value t')) t"
  "wp (on_value mt ml) Q (List_value l) \<longleftrightarrow> wp ml (\<lambda>r l'. Q r (List_value l')) l"
  by (auto simp: on_value_def wp_def)

lemmas value_simps = value_ops_def mv_ops.simps wp_on_value value_inv.simps value_vers.simps value_idx.simps mv_value.inject

sublocale gbtree_lib \<subseteq> either: mv_object "value_ops lib" "value_inv t_ok" "value_vers elems" value_idx
proof
  fix x i n w
  assume x: "value_inv t_ok x"
  note list = list.GetLatest list.NonEstimate list.Before list.Expansion list.Set list.SetEstimate list.Delete list.Remove
  note tree = tree.GetLatest tree.NonEstimate tree.Before tree.Expansion tree.Set tree.SetEstimate tree.Delete tree.Remove
  note laws = list [unfolded list_ops_def mv_ops.simps] tree [unfolded tree_ops_def mv_ops.simps]
  show "wp (mv_GetLatest (value_ops lib)) (\<lambda>r x'. x' = x \<and> latest (\<lambda>_ _. True) (value_vers elems x) r) x"
    and "wp (mv_GetLatestNonEstimate (value_ops lib)) (\<lambda>r x'. x' = x \<and> latest (\<lambda>_ v. \<not> IsEstimate v) (value_vers elems x) r) x"
    and "wp (mv_GetLatestBeforeIndexExpansion (value_ops lib) i) (\<lambda>r x'. value_inv t_ok x' \<and> value_vers elems x' = value_vers elems x \<and>
        (\<forall>j. value_idx x j \<longrightarrow> value_idx x' j) \<and> latest (below i) (value_vers elems x) r) x"
    using x by (cases x; simp only: value_simps laws)+
  assume i: "value_idx x i"
  show "wp (mv_GetLatestBeforeIndex (value_ops lib) i) (\<lambda>r x'. x' = x \<and> latest (below i) (value_vers elems x) r) x"
    and "wp (mv_SetEstimate (value_ops lib) i n) (\<lambda>_ x'. value_inv t_ok x' \<and> value_idx x' = value_idx x \<and>
        value_vers elems x' = (value_vers elems x)(i \<mapsto> NewEstimateItem i n)) x"
    and "wp (mv_Delete (value_ops lib) i n) (\<lambda>_ x'. value_inv t_ok x' \<and> value_idx x' = value_idx x \<and>
        value_vers elems x' = (value_vers elems x)(i \<mapsto> NewDeletedItem i n)) x"
    and "wp (mv_Remove (value_ops lib) i) (\<lambda>_ x'. value_inv t_ok x' \<and> value_idx x' = value_idx x \<and>
        value_vers elems x' = (value_vers elems x)(i := None)) x"
    using x i by (cases x; simp only: value_simps laws)+
  assume "valid_value w"
  with x i show "wp (mv_Set (value_ops lib) i n (Some w)) (\<lambda>_ x'. value_inv t_ok x' \<and> value_idx x' = value_idx x \<and>
        value_vers elems x' = (value_vers elems x)(i \<mapsto> NewValueItem i n (Some w))) x"
    by (cases x; simp only: value_simps laws)
next
  fix x j v
  assume "value_inv t_ok x" "value_vers elems x j = Some v"
  then show "vi_index v = j"
    using tree.index list.index by (cases x) auto
qed

context gbtree_lib
begin

lemma tree_object: "mv_object (tree_ops lib) t_ok (\<lambda>t. tree_vers (elems t)) (\<lambda>_ _. True)"
  by (rule tree.mv_object_axioms)

lemma value_object: "mv_object (value_ops lib) (value_inv t_ok) (value_vers elems) value_idx"
  by (rule either.mv_object_axioms)

end

section \<open>A reference tree\<close>

definition ref_gbtree :: "valueItem list gbtree_ops" where
  "ref_gbtree = \<lparr>
     gb_New = [],
     gb_Max = (\<lambda>t. if t = [] then None else Some (last t)),
     gb_Descend = (\<lambda>f t. visit f (rev t)),
     gb_DescendLessOrEqual = (\<lambda>p f t. visit f (rev (filter (\<lambda>x. \<not> valueItem_Less p x) t))),
     gb_ReplaceOrInsert = (\<lambda>x t. filter (\<lambda>y. valueItem_Less y x) t @ x # filter (\<lambda>y. valueItem_Less x y) t),
     gb_Delete = (\<lambda>x t. filter (\<lambda>y. valueItem_Less x y \<or> valueItem_Less y x) t) \<rparr>"

lemma ref_replace_sorted:
  assumes "sorted_wrt valueItem_Less t"
  shows "sorted_wrt valueItem_Less (filter (\<lambda>y. valueItem_Less y x) t @ x # filter (\<lambda>y. valueItem_Less x y) t)"
proof -
  have "valueItem_Less a b" if "valueItem_Less a x" "valueItem_Less x b" for a b
    using that by (simp add: valueItem_Less_def)
  then show ?thesis
    using assms by (simp add: sorted_wrt_append sorted_wrt_filter)
qed

interpretation ref_versions: gbtree_lib ref_gbtree "sorted_wrt valueItem_Less" "\<lambda>t. t"
proof
  fix t x
  assume t: "sorted_wrt valueItem_Less t"
  show "sorted_wrt valueItem_Less (gb_ReplaceOrInsert ref_gbtree x t) \<and>
      set (gb_ReplaceOrInsert ref_gbtree x t) = insert x {y \<in> set t. valueItem_Less x y \<or> valueItem_Less y x}"
    using ref_replace_sorted [OF t] by (simp add: ref_gbtree_def) blast
  show "sorted_wrt valueItem_Less (gb_Delete ref_gbtree x t) \<and>
      set (gb_Delete ref_gbtree x t) = {y \<in> set t. valueItem_Less x y \<or> valueItem_Less y x}"
    using t by (simp add: ref_gbtree_def sorted_wrt_filter)
qed (simp_all add: ref_gbtree_def)

section \<open>Sequences of writes\<close>

datatype version_write =
  W_Set int int bytes | W_Delete int int | W_Estimate int int | W_Remove int

primrec run_version :: "'v mv_ops \<Rightarrow> version_write \<Rightarrow> ('v, unit) go" where
  "run_version ops (W_Set i n w) = mv_Set ops i n (Some w)"
| "run_version ops (W_Delete i n) = mv_Delete ops i n"
| "run_version ops (W_Estimate i n) = mv_SetEstimate ops i n"
| "run_version ops (W_Remove i) = mv_Remove ops i"

primrec version_index :: "version_write \<Rightarrow> int" where
  "version_index (W_Set i n w) = i"
| "version_index (W_Delete i n) = i"
| "version_index (W_Estimate i n) = i"
| "version_index (W_Remove i) = i"

primrec version_ok :: "version_write \<Rightarrow> bool" where
  "version_ok (W_Set i n w) = valid_value w"
| "version_ok (W_Delete i n) = True"
| "version_ok (W_Estimate i n) = True"
| "version_ok (W_Remove i) = True"

primrec written :: "version_write \<Rightarrow> valueItem option" where
  "written (W_Set i n w) = Some (NewValueItem i n (Some w))"
| "written (W_Delete i n) = Some (NewDeletedItem i n)"
| "written (W_Estimate i n) = Some (NewEstimateItem i n)"
| "written (W_Remove i) = None"

fun written_vers :: "(int \<rightharpoonup> valueItem) \<Rightarrow> version_write list \<Rightarrow> int \<rightharpoonup> valueItem" where
  "written_vers m [] = m"
| "written_vers m (c # cs) = written_vers (m(version_index c := written c)) cs"

context mv_object
begin

lemma run_version:
  assumes "inv x" "idx x (version_index c)" "version_ok c"
  shows "wp (run_version ops c) (\<lambda>_ x'. inv x' \<and> idx x' = idx x \<and> vers x' = (vers x)(version_index c := written c)) x"
  using assms by (cases c) (simp_all add: Set Delete SetEstimate Remove)

lemma run_versions:
  assumes "inv x" "\<forall>c \<in> set cs. idx x (version_index c) \<and> version_ok c"
  shows "\<exists>x'. go_for cs (run_version ops) x = Some (Inr (), x') \<and> inv x' \<and> idx x' = idx x \<and> vers x' = written_vers (vers x) cs"
  using assms
proof (induction cs arbitrary: x)
  case Nil
  then show ?case by (simp add: ret_def)
next
  case (Cons c cs)
  obtain y where 1: "run_version ops c x = Some (Inr (), y)" "inv y" "idx y = idx x"
      "vers y = (vers x)(version_index c := written c)"
    using run_version [of x c] Cons.prems by (auto simp: wp_def)
  then obtain x' where x': "go_for cs (run_version ops) y = Some (Inr (), x')" "inv x'" "idx x' = idx y"
      "vers x' = written_vers (vers y) cs"
    using Cons.IH [of y] Cons.prems(2) by (metis list.set_intros(2))
  then show ?case
    unfolding 1(3,4) by (intro exI [of _ x']) (simp add: go_bind_apply 1(1))
qed

text \<open>The answers of an object are those of the map it stands for.\<close>

lemma answers:
  assumes "inv x"
  shows "\<exists>r. mv_GetLatest ops x = Some (Inr r, x) \<and> latest (\<lambda>_ _. True) (vers x) r"
    and "\<exists>r. mv_GetLatestNonEstimate ops x = Some (Inr r, x) \<and> latest (\<lambda>_ v. \<not> IsEstimate v) (vers x) r"
    and "idx x i \<Longrightarrow> \<exists>r. mv_GetLatestBeforeIndex ops i x = Some (Inr r, x) \<and> latest (below i) (vers x) r"
    and "\<exists>r x'. mv_GetLatestBeforeIndexExpansion ops i x = Some (Inr r, x') \<and> latest (below i) (vers x) r"
  using GetLatest [OF assms] NonEstimate [OF assms] Before [OF assms, of i] Expansion [OF assms, of i] by (auto simp: wp_def)

end

text \<open>Two objects that stand for the same versions answer every lookup alike.\<close>

definition same_answers :: "'v mv_ops \<Rightarrow> 'v \<Rightarrow> 'w mv_ops \<Rightarrow> 'w \<Rightarrow> int \<Rightarrow> bool" where
  "same_answers A x B y n \<longleftrightarrow>
     (\<exists>r. mv_GetLatest A x = Some (Inr r, x) \<and> mv_GetLatest B y = Some (Inr r, y)) \<and>
     (\<exists>r. mv_GetLatestNonEstimate A x = Some (Inr r, x) \<and> mv_GetLatestNonEstimate B y = Some (Inr r, y)) \<and>
     (\<forall>i. 0 \<le> i \<and> i < n \<longrightarrow> (\<exists>r. mv_GetLatestBeforeIndex A i x = Some (Inr r, x) \<and> mv_GetLatestBeforeIndex B i y = Some (Inr r, y))) \<and>
     (\<forall>i. \<exists>r x' y'. mv_GetLatestBeforeIndexExpansion A i x = Some (Inr r, x') \<and> mv_GetLatestBeforeIndexExpansion B i y = Some (Inr r, y'))"

lemma same_answersI:
  assumes A: "mv_object A invA versA idxA" "invA x" and B: "mv_object B invB versB idxB" "invB y"
    and "versA x = versB y" "\<And>i. 0 \<le> i \<Longrightarrow> i < n \<Longrightarrow> idxA x i \<and> idxB y i"
  shows "same_answers A x B y n"
proof -
  note a = mv_object.answers [OF A] and b = mv_object.answers [OF B, folded assms(5)]
  show ?thesis
    unfolding same_answers_def
  proof (intro conjI allI impI)
    show "\<exists>r. mv_GetLatest A x = Some (Inr r, x) \<and> mv_GetLatest B y = Some (Inr r, y)" using a(1) b(1) latest_unique by metis
    show "\<exists>r. mv_GetLatestNonEstimate A x = Some (Inr r, x) \<and> mv_GetLatestNonEstimate B y = Some (Inr r, y)" using a(2) b(2) latest_unique by metis
    show "\<exists>r. mv_GetLatestBeforeIndex A i x = Some (Inr r, x) \<and> mv_GetLatestBeforeIndex B i y = Some (Inr r, y)" if "0 \<le> i \<and> i < n" for i
      using a(3) b(3) assms(6) that latest_unique by metis
    show "\<exists>r x' y'. mv_GetLatestBeforeIndexExpansion A i x = Some (Inr r, x') \<and> mv_GetLatestBeforeIndexExpansion B i y = Some (Inr r, y')" for i
      using a(4) [of i] b(4) [of i] latest_unique by metis
  qed
qed

text \<open>C21. A slice of versions and a tree of versions answer alike: after any sequence of writes at indices
  the slice has slots for, both give the same answers to every lookup of the interface, namely the latest version, the latest version that is no estimate,
  the latest version before any of those indices, and, with \<open>GetLatestBeforeIndexExpansion\<close>, before any index at all.\<close>

theorem list_tree_agree:
  assumes "gbtree_lib lib t_ok elems" "0 \<le> totalTask"
    and "\<forall>c \<in> set cs. 0 \<le> version_index c \<and> version_index c < totalTask \<and> version_ok c"
  shows "\<exists>l0 l t. NewMultiVersionListItem totalTask s = Some (Inr l0, s) \<and> go_for cs (run_version list_ops) l0 = Some (Inr (), l) \<and>
    go_for cs (run_version (tree_ops lib)) (mvi_NewMultiVersionItem lib) = Some (Inr (), t) \<and> same_answers list_ops l (tree_ops lib) t totalTask"
proof -
  let ?l = "no_versions totalTask" and ?t = "mvi_NewMultiVersionItem lib"
  note lib = gbtree_lib.t_New [OF assms(1)]
  have tree: "mv_object (tree_ops lib) t_ok (\<lambda>t. tree_vers (elems t)) (\<lambda>_ _. True)"
    by (rule gbtree_lib.tree_object [OF assms(1)])
  have l: "list_inv ?l" "list_vers ?l = Map.empty" "list_idx ?l = (\<lambda>i. 0 \<le> i \<and> i < totalTask)"
    using assms(2) by (auto simp: list_inv_def list_vers_def fun_eq_iff)
  obtain l' where l': "go_for cs (run_version list_ops) ?l = Some (Inr (), l')" "list_inv l'" "list_idx l' = list_idx ?l"
      "list_vers l' = written_vers Map.empty cs"
    using list.run_versions [OF l(1), of cs] assms(2,3) unfolding l(2) by auto
  have t: "t_ok ?t" "tree_vers (elems ?t) = Map.empty"
    using lib by (simp_all add: mvi_NewMultiVersionItem_def tree_vers_def)
  obtain t' where t': "go_for cs (run_version (tree_ops lib)) ?t = Some (Inr (), t')" "t_ok t'"
      "tree_vers (elems t') = written_vers Map.empty cs"
    using mv_object.run_versions [OF tree t(1), of cs] assms(3) unfolding t(2) by auto
  have "list_idx l' i" if "0 \<le> i" "i < totalTask" for i using that l'(3) l(3) by metis
  then have "same_answers list_ops l' (tree_ops lib) t' totalTask"
    by (intro same_answersI [OF list.mv_object_axioms l'(2) tree t'(2)]) (simp_all add: l'(4) t'(3))
  then show ?thesis using l'(1) t'(1) assms(2) by (simp add: NewMultiVersionListItem_ret ret_def)
qed

theorem list_tree_agree_witness:
  "\<exists>l0 l t. NewMultiVersionListItem 4 () = Some (Inr l0, ()) \<and>
    go_for [W_Set 0 0 [1], W_Estimate 1 0, W_Delete 2 0] (run_version list_ops) l0 = Some (Inr (), l) \<and>
    go_for [W_Set 0 0 [1], W_Estimate 1 0, W_Delete 2 0] (run_version (tree_ops ref_gbtree)) (mvi_NewMultiVersionItem ref_gbtree) = Some (Inr (), t) \<and>
    same_answers list_ops l (tree_ops ref_gbtree) t 4"
  by (rule list_tree_agree [OF ref_versions.gbtree_lib_axioms]) (simp_all add: valid_value_def MaxValueLength_def)

end
