(* ===== verification/MV_Iter.thy ===== *)
theory MV_Iter
  imports MV_Item Ref_Libs
begin

text \<open>
  The iterators of the multiversion package: multiversion/mergeiterator.go, the validation iterator of
  multiversion/memiterator.go, the iteration tracker of multiversion/mvkv.go, and the replay of a
  tracked iteration that \<open>validateIterator\<close> of multiversion/store.go and multiversion/list_store.go
  runs. types/occ/types.go gives the abort values.
\<close>

section \<open>Aborts and sets\<close>

record Abort =
  DependentTxIdx :: int
  Abort_Err :: string

definition NewEstimateAbort :: "int \<Rightarrow> Abort" where
  "NewEstimateAbort dependentTxIdx = \<lparr>DependentTxIdx = dependentTxIdx,
     Abort_Err = ''multiversion store value contains estimate, cannot read, aborting''\<rparr>"

definition NewErrNextAccountNumber :: "int \<Rightarrow> Abort" where
  "NewErrNextAccountNumber dependentTxIdx = \<lparr>DependentTxIdx = dependentTxIdx,
     Abort_Err = ''next account number, cannot asynchronous, aborting''\<rparr>"

text \<open>Go maps are association lists; the loops over them run in the order of the list, so what is proved
  for every list holds for every order in which Go visits the map.\<close>

type_synonym WriteSet = "(bytes \<times> slice) list"
type_synonym ReadSet = "(bytes \<times> slice list) list"

record iterationTracker =
  trk_startKey :: slice
  trk_endKey :: slice
  trk_earlyStopKey :: slice
  trk_iteratedKeys :: "bytes list"
  trk_ascending :: bool
  trk_writeset :: WriteSet

definition NewIterationTracker :: "slice \<Rightarrow> slice \<Rightarrow> bool \<Rightarrow> WriteSet \<Rightarrow> iterationTracker" where
  "NewIterationTracker startKey endKey ascending writeset =
     \<lparr>trk_startKey = startKey, trk_endKey = endKey, trk_earlyStopKey = None, trk_iteratedKeys = [],
      trk_ascending = ascending, trk_writeset = writeset\<rparr>"

definition SetEarlyStopKey :: "slice \<Rightarrow> iterationTracker \<Rightarrow> iterationTracker" where
  "SetEarlyStopKey k t = t\<lparr>trk_earlyStopKey := k\<rparr>"

definition AddKey :: "slice \<Rightarrow> iterationTracker \<Rightarrow> iterationTracker" where
  "AddKey k t = SetEarlyStopKey k (t\<lparr>trk_iteratedKeys := List.insert (bs k) (trk_iteratedKeys t)\<rparr>)"

section \<open>mvsMergeIterator\<close>

text \<open>The two skipping loops and the step of \<open>Next\<close> are the ones of the cached store, line for line. The iterator keeps no
  validity of its own: every method skips first. \<open>upd\<close> is \<open>ReadsetHandler.UpdateReadSet\<close>.\<close>

definition mvs_skipCacheDeletes :: "'x iter_ops \<Rightarrow> bool \<Rightarrow> slice \<Rightarrow> ('x, unit) go" where
  "mvs_skipCacheDeletes = skipCacheDeletes"

definition mvs_skipUntilExistsOrInvalid :: "'x iter_ops \<Rightarrow> 'x iter_ops \<Rightarrow> bool \<Rightarrow> ('x, bool) go" where
  "mvs_skipUntilExistsOrInvalid = skipUntilExistsOrInvalid"

definition mvs_Domain :: "'x iter_ops \<Rightarrow> 'x iter_ops \<Rightarrow> bool \<Rightarrow> ('x, slice \<times> slice) go" where
  "mvs_Domain parent cache ascending =
     go_bind (it_Domain parent) (\<lambda>(startP, endP).
     go_bind (it_Domain cache) (\<lambda>(startC, endC).
     ret (if merge_compare ascending (bs startP) (bs startC) < 0 then startP else startC,
          if merge_compare ascending (bs endP) (bs endC) < 0 then endC else endP)))"

definition mvs_Valid :: "'x iter_ops \<Rightarrow> 'x iter_ops \<Rightarrow> bool \<Rightarrow> ('x, bool) go" where
  "mvs_Valid parent cache ascending = mvs_skipUntilExistsOrInvalid parent cache ascending"

definition mvs_Error :: "'x iter_ops \<Rightarrow> 'x iter_ops \<Rightarrow> bool \<Rightarrow> ('x, string option) go" where
  "mvs_Error parent cache ascending = go_bind (mvs_Valid parent cache ascending) (\<lambda>v.
     if \<not> v then ret (Some ''invalid mvsMergeIterator'') else ret None)"

definition mvs_assertValid :: "'x iter_ops \<Rightarrow> 'x iter_ops \<Rightarrow> bool \<Rightarrow> ('x, unit) go" where
  "mvs_assertValid parent cache ascending = go_bind (mvs_Error parent cache ascending) (\<lambda>err.
     case err of None \<Rightarrow> ret () | Some e \<Rightarrow> go_panic (Panic_err e))"

definition mvs_settle :: "'x iter_ops \<Rightarrow> 'x iter_ops \<Rightarrow> bool \<Rightarrow> ('x, unit) go" where
  "mvs_settle parent cache ascending =
     go_bind (mvs_skipUntilExistsOrInvalid parent cache ascending) (\<lambda>_. mvs_assertValid parent cache ascending)"

definition mvs_Next :: "'x iter_ops \<Rightarrow> 'x iter_ops \<Rightarrow> bool \<Rightarrow> ('x, unit) go" where
  "mvs_Next parent cache ascending =
     go_bind (mvs_settle parent cache ascending) (\<lambda>_. merge_advance parent cache ascending)"

definition mvs_Key_at :: "'x iter_ops \<Rightarrow> 'x iter_ops \<Rightarrow> bool \<Rightarrow> ('x, slice) go" where
  "mvs_Key_at parent cache ascending =
     go_bind (it_Valid parent) (\<lambda>pvalid.
     if \<not> pvalid then it_Key cache else
     go_bind (it_Valid cache) (\<lambda>cvalid.
     if \<not> cvalid then it_Key parent else
     go_bind (it_Key parent) (\<lambda>keyP.
     go_bind (it_Key cache) (\<lambda>keyC.
     let cmp = merge_compare ascending (bs keyP) (bs keyC) in
     if cmp = -1 then ret keyP
     else if cmp = 0 then ret keyP
     else if cmp = 1 then ret keyC
     else go_panic (Panic_str ''invalid compare result'')))))"

definition mvs_Key :: "'x iter_ops \<Rightarrow> 'x iter_ops \<Rightarrow> bool \<Rightarrow> ('x, slice) go" where
  "mvs_Key parent cache ascending =
     go_bind (mvs_settle parent cache ascending) (\<lambda>_. mvs_Key_at parent cache ascending)"

definition mvs_Value_at ::
  "(slice \<Rightarrow> slice \<Rightarrow> ('x, unit) go) \<Rightarrow> 'x iter_ops \<Rightarrow> 'x iter_ops \<Rightarrow> bool \<Rightarrow> ('x, slice) go" where
  "mvs_Value_at upd parent cache ascending =
     (let from_parent = go_bind (it_Value parent) (\<lambda>v.
        go_bind (it_Key parent) (\<lambda>k. go_bind (upd k v) (\<lambda>_. ret v))) in
     go_bind (it_Valid parent) (\<lambda>pvalid.
     if \<not> pvalid then it_Value cache else
     go_bind (it_Valid cache) (\<lambda>cvalid.
     if \<not> cvalid then from_parent else
     go_bind (it_Key parent) (\<lambda>keyP.
     go_bind (it_Key cache) (\<lambda>keyC.
     let cmp = merge_compare ascending (bs keyP) (bs keyC) in
     if cmp = -1 then from_parent
     else if cmp = 0 \<or> cmp = 1 then it_Value cache
     else go_panic (Panic_str ''invalid comparison result''))))))"

definition mvs_Value ::
  "(slice \<Rightarrow> slice \<Rightarrow> ('x, unit) go) \<Rightarrow> 'x iter_ops \<Rightarrow> 'x iter_ops \<Rightarrow> bool \<Rightarrow> ('x, slice) go" where
  "mvs_Value upd parent cache ascending =
     go_bind (mvs_settle parent cache ascending) (\<lambda>_. mvs_Value_at upd parent cache ascending)"

definition mvs_Close :: "'x iter_ops \<Rightarrow> 'x iter_ops \<Rightarrow> ('x, string option) go" where
  "mvs_Close parent cache =
     go_bind (it_Close parent) (\<lambda>err.
     if err \<noteq> None then go_bind (it_Close cache) (\<lambda>_. ret err) else it_Close cache)"

definition mvs_merge ::
  "(slice \<Rightarrow> slice \<Rightarrow> ('x, unit) go) \<Rightarrow> 'x iter_ops \<Rightarrow> 'x iter_ops \<Rightarrow> bool \<Rightarrow> 'x iter_ops" where
  "mvs_merge upd parent cache ascending = \<lparr>
     it_Domain = mvs_Domain parent cache ascending,
     it_Valid = mvs_Valid parent cache ascending,
     it_Next = mvs_Next parent cache ascending,
     it_Key = mvs_Key parent cache ascending,
     it_Value = mvs_Value upd parent cache ascending,
     it_Error = mvs_Error parent cache ascending,
     it_Close = mvs_Close parent cache \<rparr>"

section \<open>It is an overlay\<close>

locale mvs_overlay = overlay P C I pit cit pobs cobs asc obs
  for P C :: "'x iter_ops" and I pit cit and pobs :: "'x \<Rightarrow> 'p" and cobs :: "'x \<Rightarrow> 'c"
    and asc and obs :: "'x \<Rightarrow> 'o" +
  fixes upd :: "slice \<Rightarrow> slice \<Rightarrow> ('x, unit) go"
  assumes upd: "I x \<Longrightarrow> pit x = (k, v) # r \<Longrightarrow> \<forall>e \<in> set (cit x). fst e \<noteq> k \<Longrightarrow> wp (upd (Some k) v) (\<lambda>_ x'. same x x') x"

context mvs_overlay
begin

lemma mvs_settle_run:
  assumes "I x" "merged asc (pit x) (cit x) \<noteq> []"
  shows "\<exists>x'. mvs_settle P C asc x = Some (Inr (), x') \<and> I x' \<and> obs x' = obs x \<and> settled asc (pit x') (cit x') \<and>
    merged asc (pit x') (cit x') = merged asc (pit x) (cit x)"
proof -
  obtain x1 where 1: "skipUntilExistsOrInvalid P C asc x = Some (Inr True, x1)" "I x1" "obs x1 = obs x"
      "merged asc (pit x1) (cit x1) = merged asc (pit x) (cit x)"
    using skipUntilExistsOrInvalid_run [OF assms(1)] assms(2) by auto
  obtain x2 where "skipUntilExistsOrInvalid P C asc x1 = Some (Inr True, x2)" "I x2" "obs x2 = obs x1"
      "settled asc (pit x2) (cit x2)" "merged asc (pit x2) (cit x2) = merged asc (pit x1) (cit x1)"
    using skipUntilExistsOrInvalid_run [OF 1(2)] 1(4) assms(2) by auto
  with 1 show ?thesis
    by (simp add: mvs_settle_def mvs_assertValid_def mvs_Error_def mvs_Valid_def mvs_skipUntilExistsOrInvalid_def
      go_bind_apply ret_def)
qed

text \<open>After settling the methods do what those of the cached store's iterator do.\<close>

lemma merge_Key_at: "merge_Key P C asc (x, True) = map_option (\<lambda>(r, x'). (r, (x', True))) (mvs_Key_at P C asc x)"
  by (auto simp: merge_Key_def mvs_Key_at_def go_bind_apply on_fst_apply merge_assertValid_True Let_def ret_def go_panic_def
    split: option.splits sum.splits)

lemma mvs_Key_at_run:
  assumes "I x" "settled asc (pit x) (cit x)" "merged asc (pit x) (cit x) = (k, v) # r"
  shows "\<exists>x'. mvs_Key_at P C asc x = Some (Inr (Some k), x') \<and> same x x'"
  using merge_Key_run [OF assms] unfolding merge_Key_at by auto

lemma mvs_Value_at_run:
  assumes x: "I x" "settled asc (pit x) (cit x)" "merged asc (pit x) (cit x) = (k, v) # r"
  shows "\<exists>x'. mvs_Value_at upd P C asc x = Some (Inr v, x') \<and> same x x'"
proof -
  obtain x1 x2 where V: "it_Valid P x = Some (Inr (pit x \<noteq> []), x1)" "same x x1"
    "it_Valid C x1 = Some (Inr (cit x \<noteq> []), x2)" "same x x2"
    using validE [OF x(1)] .
  note run = mvs_Value_at_def merge_run V(1,3)
  have from_parent: "\<exists>y1 y2 y3. it_Value P y = Some (Inr vp, y1) \<and> it_Key P y1 = Some (Inr (Some kp), y2) \<and>
      upd (Some kp) vp y2 = Some (Inr (), y3) \<and> same x y3"
    if y: "same x y" "pit x = (kp, vp) # ps" "\<forall>e \<in> set (cit x). fst e \<noteq> kp" for y kp vp ps
  proof -
    obtain y1 where 1: "it_Value P y = Some (Inr vp, y1)" "same x y1"
      using pValueE [of y kp vp ps] y by (metis same_def)
    obtain y2 where 2: "it_Key P y1 = Some (Inr (Some kp), y2)" "same x y2"
      using pKeyE [of y1 kp vp ps] 1(2) y(2) by (metis same_def)
    have "wp (upd (Some kp) vp) (\<lambda>_ x'. same y2 x') y2"
      using upd [of y2 kp vp ps] 2(2) y by (simp add: same_def)
    then obtain y3 where "upd (Some kp) vp y2 = Some (Inr (), y3)" "same y2 y3"
      by (auto simp: wp_def)
    with 1 2 show ?thesis by (auto simp: same_def)
  qed
  consider kp vp ps where "pit x = (kp, vp) # ps" "cit x = []"
    | kc vc cs where "pit x = []" "cit x = (kc, vc) # cs"
    | kp vp ps kc vc cs where "pit x = (kp, vp) # ps" "cit x = (kc, vc) # cs"
    using x(3) by (cases "pit x"; cases "cit x"; auto)
  then show ?thesis
  proof cases
    case (1 kp vp ps)
    with from_parent [OF V(4), of kp vp ps] x(3) show ?thesis by (auto simp: run)
  next
    case (2 kc vc cs)
    with cValueE [of x1 kc vc cs] V(2) obtain x3 where "it_Value C x1 = Some (Inr vc, x3)" "same x x3"
      by (metis same_def)
    with 2 x(2,3) show ?thesis by (simp add: run)
  next
    case (3 kp vp ps kc vc cs)
    obtain x3 x4 where 4: "it_Key P x2 = Some (Inr (Some kp), x3)" "it_Key C x3 = Some (Inr (Some kc), x4)"
      "same x x4"
      using keysE [of x2 kp vp ps kc vc cs] V(4) 3 by (metis same_def)
    obtain x6 where 6: "it_Value C x4 = Some (Inr vc, x6)" "same x x6"
      using cValueE [of x4 kc vc cs] 3 4(3) by (metis same_def)
    show ?thesis
    proof (cases "before asc kp kc")
      case True
      have "\<forall>e \<in> set (cit x). fst e \<noteq> kp"
        using csorted [OF x(1)] True 3(2) before_trans [OF True] by (auto dest: before_asym)
      with from_parent [OF 4(3) 3(1)] True 3 4(1,2) x(3) show ?thesis by (auto simp: run)
    next
      case False
      with 3 4(1,2) 6 x(2,3) before_linear [of asc kp kc] show ?thesis
        by (auto simp: run split: if_splits)
    qed
  qed
qed

lemma merge_is_iterator:
  "iterator (mvs_merge upd P C asc) I (\<lambda>x. merged asc (pit x) (cit x)) obs"
proof
  fix x
  assume x: "I x"
  show "wp (it_Valid (mvs_merge upd P C asc)) (\<lambda>b x'. b = (merged asc (pit x) (cit x) \<noteq> []) \<and> I x' \<and>
      merged asc (pit x') (cit x') = merged asc (pit x) (cit x) \<and> obs x' = obs x) x"
    using skipUntilExistsOrInvalid_run [OF x]
    by (auto simp: mvs_merge_def mvs_Valid_def mvs_skipUntilExistsOrInvalid_def wp_def)
next
  fix x k v r
  assume x: "I x" and m: "merged asc (pit x) (cit x) = (k, v) # r"
  obtain x1 where 1: "mvs_settle P C asc x = Some (Inr (), x1)" "I x1" "obs x1 = obs x"
      "settled asc (pit x1) (cit x1)" "merged asc (pit x1) (cit x1) = (k, v) # r"
    using mvs_settle_run [OF x] m by auto
  show "wp (it_Key (mvs_merge upd P C asc)) (\<lambda>y x'. y = Some k \<and> I x' \<and>
      merged asc (pit x') (cit x') = merged asc (pit x) (cit x) \<and> obs x' = obs x) x"
    using mvs_Key_at_run [OF 1(2,4,5)] 1 m
    by (auto simp: mvs_merge_def mvs_Key_def go_bind_apply wp_def same_def)
  show "wp (it_Value (mvs_merge upd P C asc)) (\<lambda>y x'. y = v \<and> I x' \<and>
      merged asc (pit x') (cit x') = merged asc (pit x) (cit x) \<and> obs x' = obs x) x"
    using mvs_Value_at_run [OF 1(2,4,5)] 1 m
    by (auto simp: mvs_merge_def mvs_Value_def go_bind_apply wp_def same_def)
  show "wp (it_Next (mvs_merge upd P C asc)) (\<lambda>_ x'. I x' \<and> merged asc (pit x') (cit x') = r \<and> obs x' = obs x) x"
    using merge_advance_run [OF 1(2,4,5)] 1
    by (auto simp: mvs_merge_def mvs_Next_def go_bind_apply wp_def advanced_def)
qed

end

section \<open>Replaying a tracked iteration\<close>

text \<open>
  The keys to merge with the parent's are collected in a \<open>MemDB\<close>, a database of cosmos-db. \<open>newMVSValidationIterator\<close>
  and \<open>newMemIterator\<close> open an iterator on it and panic when that fails.
\<close>

definition open_items :: "('d, 'j) db_ops \<Rightarrow> slice \<Rightarrow> slice \<Rightarrow> bool \<Rightarrow> ('d, 'j) go" where
  "open_items db start end ascending =
     go_bind (if ascending then db_Iterator db start end else db_ReverseIterator db start end) or_panic"

definition open_parent :: "('s, 'i) kv_ops \<Rightarrow> slice \<Rightarrow> slice \<Rightarrow> bool \<Rightarrow> ('s, 'i) go" where
  "open_parent P start end ascending =
     (if ascending then kv_Iterator P start end else kv_ReverseIterator P start end)"

text \<open>\<open>sortedItems.Set([]byte(key), []byte{})\<close> for each key; the error is dropped.\<close>

definition add_items :: "('d, 'j) db_ops \<Rightarrow> bytes list \<Rightarrow> ('d, unit) go" where
  "add_items db keys = go_for keys (\<lambda>k. go_bind (db_Set db (Some k) (Some [])) (\<lambda>_. ret ()))"

text \<open>Run a program on an object of its own, next to the state of the caller.\<close>

definition on_own :: "'d \<Rightarrow> ('d, 'a) go \<Rightarrow> ('s, 'a \<times> 'd) go" where
  "on_own d m = go_local d (go_zoom snd (\<lambda>d' x. (fst x, d')) m)"

text \<open>The iterators of one replay: the parent's, the one over the collected keys, the read cache of the
  validation iterator, and the aborts sent. The state around them is the multiversion store and the
  parent store.\<close>

record ('i, 'd, 'j) replay =
  rp_parent :: 'i
  rp_items :: 'd
  rp_iter :: 'j
  rp_readCache :: "(bytes \<times> slice) list"
  rp_aborts :: "Abort list"

type_synonym ('m, 's, 'i, 'd, 'j) replaying = "('m \<times> 's) \<times> ('i, 'd, 'j) replay"

definition replay_parent :: "('s, 'i) kv_ops \<Rightarrow> ('m, 's, 'i, 'd, 'j) replaying iter_ops" where
  "replay_parent P = zoom_iter (\<lambda>x. (snd (fst x), rp_parent (snd x)))
     (\<lambda>y x. ((fst (fst x), fst y), (snd x)\<lparr>rp_parent := snd y\<rparr>)) (kv_iter P)"

definition replay_items :: "('d, 'j) db_ops \<Rightarrow> ('m, 's, 'i, 'd, 'j) replaying iter_ops" where
  "replay_items db = zoom_iter (\<lambda>x. (rp_items (snd x), rp_iter (snd x)))
     (\<lambda>y x. (fst x, (snd x)\<lparr>rp_items := fst y, rp_iter := snd y\<rparr>)) (db_iter db)"

definition read_cache :: "bytes \<Rightarrow> slice \<Rightarrow> ('m, 's, 'i, 'd, 'j) replaying \<Rightarrow> ('m, 's, 'i, 'd, 'j) replaying" where
  "read_cache k v x = (fst x, (snd x)\<lparr>rp_readCache := AList.update k v (rp_readCache (snd x))\<rparr>)"

text \<open>\<open>validationIterator.Value\<close>; \<open>latest_before\<close> is \<open>mvStore.GetLatestBeforeIndex\<close>, whose nil result is
  dereferenced. Sends on the abort channel are recorded.\<close>

definition validationIterator_Value ::
  "('d, 'j) db_ops \<Rightarrow> (int \<Rightarrow> slice \<Rightarrow> ('m, valueItem option) go) \<Rightarrow> int \<Rightarrow> WriteSet \<Rightarrow>
   (('m, 's, 'i, 'd, 'j) replaying, slice) go" where
  "validationIterator_Value db latest_before index writeset =
     go_bind (it_Key (replay_items db)) (\<lambda>key.
     case map_of writeset (bs key) of Some v \<Rightarrow> ret v | None \<Rightarrow>
     go_bind (go_read (\<lambda>x. map_of (rp_readCache (snd x)) (bs key))) (\<lambda>cached.
     case cached of Some v \<Rightarrow> ret v | None \<Rightarrow>
     go_bind (go_zoom (\<lambda>x. fst (fst x)) (\<lambda>m x. ((m, snd (fst x)), snd x)) (latest_before index key)) (\<lambda>r.
     case r of None \<Rightarrow> go_panic nil_deref | Some item \<Rightarrow>
     go_bind (if IsEstimate item
       then go_modify (\<lambda>x. (fst x, (snd x)\<lparr>rp_aborts := rp_aborts (snd x) @ [NewEstimateAbort (vi_index item)]\<rparr>))
       else ret ()) (\<lambda>_.
     if IsDeleted item then go_bind (go_modify (read_cache (bs key) None)) (\<lambda>_. ret None)
     else go_bind (go_modify (read_cache (bs key) (vi_value item))) (\<lambda>_. ret (vi_value item))))))"

definition replay_cache ::
  "('d, 'j) db_ops \<Rightarrow> (int \<Rightarrow> slice \<Rightarrow> ('m, valueItem option) go) \<Rightarrow> int \<Rightarrow> WriteSet \<Rightarrow>
   ('m, 's, 'i, 'd, 'j) replaying iter_ops" where
  "replay_cache db latest_before index writeset =
     (replay_items db)\<lparr>it_Value := validationIterator_Value db latest_before index writeset\<rparr>"

text \<open>The loop of the goroutine: every key the merge iterator visits must be expected, and all expected
  keys must be visited, up to the key at which the tracked iteration stopped.\<close>

partial_function (option) validate_loop :: "'x iter_ops \<Rightarrow> bytes list \<Rightarrow> slice \<Rightarrow> nat \<Rightarrow> ('x, bool) go" where
  "validate_loop merge expected earlyStop found x =
     go_bind (it_Valid merge) (\<lambda>ok.
     if \<not> ok then ret (\<not> int (length expected) - int found > 0)
     else if int (length expected) - int found = 0 then ret False
     else go_bind (it_Key merge) (\<lambda>key.
     if bs key \<notin> set expected then ret False
     else if bs key = bs earlyStop then ret (\<not> int (length expected) - int (Suc found) > 0)
     else go_bind (it_Next merge) (\<lambda>_. validate_loop merge expected earlyStop (Suc found)))) x"

definition run_replay ::
  "('s, 'i) kv_ops \<Rightarrow> ('d, 'j) db_ops \<Rightarrow> (int \<Rightarrow> slice \<Rightarrow> ('m, valueItem option) go) \<Rightarrow> int \<Rightarrow> iterationTracker \<Rightarrow>
   'd \<Rightarrow> ('m \<times> 's, bool \<times> Abort list) go" where
  "run_replay P db latest_before index tracker items =
     go_bind (on_own items (open_items db (trk_startKey tracker) (trk_endKey tracker) (trk_ascending tracker))) (\<lambda>(iter, items').
     go_bind (on_store (open_parent P (trk_startKey tracker) (trk_endKey tracker) (trk_ascending tracker))) (\<lambda>parentIter.
     let merge = mvs_merge (\<lambda>_ _. ret ()) (replay_parent P)
       (replay_cache db latest_before index (trk_writeset tracker)) (trk_ascending tracker) in
     go_bind (go_local \<lparr>rp_parent = parentIter, rp_items = items', rp_iter = iter, rp_readCache = [], rp_aborts = []\<rparr>
       (go_bind (validate_loop merge (trk_iteratedKeys tracker) (trk_earlyStopKey tracker) 0) (\<lambda>valid.
        go_bind (it_Close merge) (\<lambda>_. ret valid)))) (\<lambda>(valid, rp).
     ret (valid, rp_aborts rp))))"

text \<open>
  The caller waits for the abort channel or the result. With no abort it gets the result. With one, both
  may be ready and Go chooses: \<open>abort_first\<close> is that choice. With two the goroutine waits on the full
  channel until the caller has taken the first, so the answer is false.
\<close>

definition select_result :: "bool \<Rightarrow> bool \<times> Abort list \<Rightarrow> bool" where
  "select_result abort_first r =
     (case snd r of [] \<Rightarrow> fst r | [_] \<Rightarrow> (if abort_first then False else fst r) | _ \<Rightarrow> False)"

definition validate_tracker ::
  "(iterationTracker \<Rightarrow> bool) \<Rightarrow> ('s, 'i) kv_ops \<Rightarrow> ('d, 'j) db_ops \<Rightarrow> (int \<Rightarrow> slice \<Rightarrow> ('m, valueItem option) go) \<Rightarrow>
   (int \<Rightarrow> ('m, 'd) go) \<Rightarrow> int \<Rightarrow> iterationTracker \<Rightarrow> ('m \<times> 's, bool) go" where
  "validate_tracker abort_first P db latest_before collect index tracker =
     go_bind (on_aux (collect index)) (\<lambda>sortedItems.
     go_bind (on_own sortedItems (add_items db (map fst (trk_writeset tracker)))) (\<lambda>(_, items).
     go_bind (run_replay P db latest_before index tracker items) (\<lambda>r.
     ret (select_result (abort_first tracker) r))))"

section \<open>Checking a read set\<close>

text \<open>
  The loop of \<open>checkReadsetAtIndex\<close> over the recorded reads: whether all are still valid, and the indices
  of the transactions in conflict. The printing of conflicts is left out.
\<close>

definition check_read ::
  "('s, 'i) kv_ops \<Rightarrow> (int \<Rightarrow> slice \<Rightarrow> ('m, valueItem option) go) \<Rightarrow> int \<Rightarrow> bytes \<times> slice list \<Rightarrow>
   ('m \<times> 's, bool \<times> int list) go" where
  "check_read P latest_before index e =
     (if length (snd e) \<noteq> 1 then ret (False, [])
      else let key = Some (fst e); v = hd (snd e) in
      go_bind (on_aux (latest_before index key)) (\<lambda>latestValue.
      case latestValue of
        None \<Rightarrow> go_bind (on_store (kv_Get P key)) (\<lambda>parentVal. ret (bs parentVal = bs v, []))
      | Some item \<Rightarrow> ret
          (if IsEstimate item then (True, [vi_index item])
           else if IsDeleted item then (if v \<noteq> None then (False, [vi_index item]) else (True, []))
           else if bs (vi_value item) \<noteq> bs v then (False, [vi_index item]) else (True, []))))"

fun check_reads ::
  "('s, 'i) kv_ops \<Rightarrow> (int \<Rightarrow> slice \<Rightarrow> ('m, valueItem option) go) \<Rightarrow> int \<Rightarrow> ReadSet \<Rightarrow> bool \<Rightarrow> int list \<Rightarrow>
   ('m \<times> 's, bool \<times> int list) go" where
  "check_reads P latest_before index [] valid conflicts = ret (valid, sort (remdups conflicts))"
| "check_reads P latest_before index (e # es) valid conflicts =
     go_bind (check_read P latest_before index e) (\<lambda>(ok, cs).
     check_reads P latest_before index es (valid \<and> ok) (conflicts @ cs))"

end
