(* ===== verification/MV_Store.thy ===== *)
theory MV_Store
  imports MV_Iter
begin

text \<open>
  multiversion/store.go: the store that keeps, per key, the versions written by the transactions of a
  block, and per transaction its write, read and iterate sets. The tree library and the in-memory
  database are parameters; \<open>versionList\<close> is the environment variable of that name. The parent store
  is next to the store in the state of the operations that use it.
\<close>

section \<open>The interface\<close>

text \<open>The methods of \<open>MultiVersionStore\<close> that the per-transaction view calls.\<close>

record ('m, 'd) mvs_ops =
  ms_GetLatestBeforeIndex :: "int \<Rightarrow> slice \<Rightarrow> ('m, valueItem option) go"
  ms_GetLatestBeforeIndexExpansion :: "int \<Rightarrow> slice \<Rightarrow> ('m, valueItem option) go"
  ms_NewKey :: "bytes \<Rightarrow> int \<Rightarrow> ('m, unit) go"
  ms_CollectIteratorItems :: "int \<Rightarrow> ('m, 'd) go"
  ms_SetWriteset :: "int \<Rightarrow> int \<Rightarrow> WriteSet \<Rightarrow> int \<Rightarrow> ('m, unit) go"
  ms_SetEstimatedWriteset :: "int \<Rightarrow> int \<Rightarrow> WriteSet \<Rightarrow> ('m, unit) go"
  ms_SetReadset :: "int \<Rightarrow> ReadSet \<Rightarrow> ('m, unit) go"
  ms_SetIterateset :: "int \<Rightarrow> iterationTracker list \<Rightarrow> ('m, unit) go"

section \<open>The store\<close>

record 't mvStore =
  multiVersionMap :: "(bytes \<times> 't mv_value) list"
  txWritesetKeys :: "(int \<times> bytes list) list"
  txReadSets :: "(int \<times> ReadSet) list"
  txIterateSets :: "(int \<times> iterationTracker list) list"

definition NewMultiVersionStore :: "'t mvStore" where
  "NewMultiVersionStore = \<lparr>multiVersionMap = [], txWritesetKeys = [], txReadSets = [], txIterateSets = []\<rparr>"

definition mvs_load :: "bytes \<Rightarrow> ('t mvStore, 't mv_value option) go" where
  "mvs_load k = go_read (\<lambda>s. map_of (multiVersionMap s) k)"

definition mvs_store :: "bytes \<Rightarrow> 't mv_value \<Rightarrow> ('t mvStore, unit) go" where
  "mvs_store k v = go_modify (\<lambda>s. s\<lparr>multiVersionMap := AList.update k v (multiVersionMap s)\<rparr>)"

text \<open>A method of the object of a key, which writes through the pointer in the map.\<close>

definition on_item :: "bytes \<Rightarrow> ('t mv_value, 'a) go \<Rightarrow> ('t mvStore, 'a) go" where
  "on_item k = go_zoom (\<lambda>s. the (map_of (multiVersionMap s) k))
     (\<lambda>v s. s\<lparr>multiVersionMap := AList.update k v (multiVersionMap s)\<rparr>)"

definition mvs_GetLatest :: "'t gbtree_ops \<Rightarrow> slice \<Rightarrow> ('t mvStore, valueItem option) go" where
  "mvs_GetLatest lib k =
     go_bind (mvs_load (bs k)) (\<lambda>mvVal.
     if mvVal = None then ret None else on_item (bs k) (mv_GetLatest (value_ops lib)))"

definition mvs_GetLatestBeforeIndex :: "'t gbtree_ops \<Rightarrow> int \<Rightarrow> slice \<Rightarrow> ('t mvStore, valueItem option) go" where
  "mvs_GetLatestBeforeIndex lib index k =
     go_bind (mvs_load (bs k)) (\<lambda>mvVal.
     if mvVal = None then ret None else on_item (bs k) (mv_GetLatestBeforeIndex (value_ops lib) index))"

definition mvs_GetLatestBeforeIndexExpansion ::
  "'t gbtree_ops \<Rightarrow> int \<Rightarrow> slice \<Rightarrow> ('t mvStore, valueItem option) go" where
  "mvs_GetLatestBeforeIndexExpansion lib index k = mvs_GetLatestBeforeIndex lib index k"

definition mvs_Has :: "'t gbtree_ops \<Rightarrow> int \<Rightarrow> slice \<Rightarrow> ('t mvStore, bool) go" where
  "mvs_Has lib index k =
     go_bind (mvs_load (bs k)) (\<lambda>mvVal.
     if mvVal = None then ret False
     else go_bind (on_item (bs k) (mv_GetLatestBeforeIndex (value_ops lib) index)) (\<lambda>r. ret (r \<noteq> None)))"

text \<open>\<open>LoadAndDelete\<close> of the old keys, then the removal of those the new write set does not write.\<close>

definition mvs_removeOldWriteset :: "'t gbtree_ops \<Rightarrow> int \<Rightarrow> WriteSet \<Rightarrow> ('t mvStore, unit) go" where
  "mvs_removeOldWriteset lib index writeset =
     go_bind (go_read (\<lambda>s. map_of (txWritesetKeys s) index)) (\<lambda>oldKeys.
     go_bind (go_modify (\<lambda>s. s\<lparr>txWritesetKeys := AList.delete index (txWritesetKeys s)\<rparr>)) (\<lambda>_.
     case oldKeys of None \<Rightarrow> ret () | Some keys \<Rightarrow>
       go_for keys (\<lambda>k.
         if map_of writeset k \<noteq> None then ret ()
         else go_bind (mvs_load k) (\<lambda>mvVal.
           if mvVal = None then ret () else on_item k (mv_Remove (value_ops lib) index)))))"

definition new_list :: "int \<Rightarrow> ('t mvStore, 't mv_value) go" where
  "new_list n = go_bind (NewMultiVersionListItem n) (\<lambda>l. ret (List_value l))"

text \<open>A missing key gets a new object, which is made only then; the argument of \<open>LoadOrStore\<close> is made in any case.\<close>

definition mvs_ensure :: "('t mvStore, 't mv_value) go \<Rightarrow> bytes \<Rightarrow> ('t mvStore, unit) go" where
  "mvs_ensure new k =
     go_bind (mvs_load k) (\<lambda>loadVal. if loadVal = None then go_bind new (mvs_store k) else ret ())"

definition mvs_LoadOrStore :: "('t mvStore, 't mv_value) go \<Rightarrow> bytes \<Rightarrow> ('t mvStore, unit) go" where
  "mvs_LoadOrStore new k = go_bind new (\<lambda>v. mvs_ensure (ret v) k)"

definition write_version :: "'t gbtree_ops \<Rightarrow> int \<Rightarrow> int \<Rightarrow> bytes \<times> slice \<Rightarrow> ('t mvStore, unit) go" where
  "write_version lib index incarnation kv =
     on_item (fst kv) (if snd kv = None then mv_Delete (value_ops lib) index incarnation
                       else mv_Set (value_ops lib) index incarnation (snd kv))"

definition mvs_SetWriteset ::
  "'t gbtree_ops \<Rightarrow> string \<Rightarrow> int \<Rightarrow> int \<Rightarrow> WriteSet \<Rightarrow> int \<Rightarrow> ('t mvStore, unit) go" where
  "mvs_SetWriteset lib versionList index incarnation writeset totalTask =
     go_bind (mvs_removeOldWriteset lib index writeset) (\<lambda>_.
     go_bind (go_for writeset (\<lambda>kv.
       go_bind (mvs_ensure (if versionList = '''' then new_list totalTask
                            else ret (Tree_value (mvi_NewMultiVersionItem lib))) (fst kv)) (\<lambda>_.
       write_version lib index incarnation kv))) (\<lambda>_.
     go_modify (\<lambda>s. s\<lparr>txWritesetKeys := AList.update index (sort (map fst writeset)) (txWritesetKeys s)\<rparr>)))"

definition mvs_InvalidateWriteset :: "'t gbtree_ops \<Rightarrow> int \<Rightarrow> int \<Rightarrow> int \<Rightarrow> ('t mvStore, unit) go" where
  "mvs_InvalidateWriteset lib index incarnation totalTask =
     go_bind (go_read (\<lambda>s. map_of (txWritesetKeys s) index)) (\<lambda>keys.
     case keys of None \<Rightarrow> ret () | Some ks \<Rightarrow>
       go_for ks (\<lambda>k.
         go_bind (mvs_LoadOrStore (new_list totalTask) k) (\<lambda>_.
         on_item k (mv_SetEstimate (value_ops lib) index incarnation))))"

definition mvs_SetEstimatedWriteset :: "'t gbtree_ops \<Rightarrow> int \<Rightarrow> int \<Rightarrow> WriteSet \<Rightarrow> ('t mvStore, unit) go" where
  "mvs_SetEstimatedWriteset lib index incarnation writeset =
     go_bind (mvs_removeOldWriteset lib index writeset) (\<lambda>_.
     go_bind (go_for (map fst writeset) (\<lambda>k.
       go_bind (mvs_LoadOrStore (new_list 10000) k) (\<lambda>_.
       on_item k (mv_SetEstimate (value_ops lib) index incarnation)))) (\<lambda>_.
     go_modify (\<lambda>s. s\<lparr>txWritesetKeys := AList.update index (sort (map fst writeset)) (txWritesetKeys s)\<rparr>)))"

definition mvs_GetAllWritesetKeys :: "('t mvStore, (int \<times> bytes list) list) go" where
  "mvs_GetAllWritesetKeys = go_read txWritesetKeys"

definition mvs_SetReadset :: "int \<Rightarrow> ReadSet \<Rightarrow> ('t mvStore, unit) go" where
  "mvs_SetReadset index readset = go_modify (\<lambda>s. s\<lparr>txReadSets := AList.update index readset (txReadSets s)\<rparr>)"

definition mvs_GetReadset :: "int \<Rightarrow> ('t mvStore, ReadSet option) go" where
  "mvs_GetReadset index = go_read (\<lambda>s. map_of (txReadSets s) index)"

definition mvs_SetIterateset :: "int \<Rightarrow> iterationTracker list \<Rightarrow> ('t mvStore, unit) go" where
  "mvs_SetIterateset index iterateset =
     go_modify (\<lambda>s. s\<lparr>txIterateSets := AList.update index iterateset (txIterateSets s)\<rparr>)"

definition mvs_GetIterateset :: "int \<Rightarrow> ('t mvStore, iterationTracker list option) go" where
  "mvs_GetIterateset index = go_read (\<lambda>s. map_of (txIterateSets s) index)"

definition mvs_ClearReadset :: "int \<Rightarrow> ('t mvStore, unit) go" where
  "mvs_ClearReadset index = go_modify (\<lambda>s. s\<lparr>txReadSets := AList.delete index (txReadSets s)\<rparr>)"

definition mvs_ClearIterateset :: "int \<Rightarrow> ('t mvStore, unit) go" where
  "mvs_ClearIterateset index = go_modify (\<lambda>s. s\<lparr>txIterateSets := AList.delete index (txIterateSets s)\<rparr>)"

text \<open>The keys written by the transactions before the index, added to an empty database.\<close>

definition keys_before :: "int \<Rightarrow> 't mvStore \<Rightarrow> bytes list" where
  "keys_before index s =
     concat (map (\<lambda>i. case map_of (txWritesetKeys s) (int i) of None \<Rightarrow> [] | Some ks \<Rightarrow> ks) [0..<nat index])"

definition mvs_CollectIteratorItems :: "('d, 'j) db_ops \<Rightarrow> 'd \<Rightarrow> int \<Rightarrow> ('t mvStore, 'd) go" where
  "mvs_CollectIteratorItems db newMemDB index =
     go_bind (go_read (keys_before index)) (\<lambda>keys.
     go_bind (on_own newMemDB (add_items db keys)) (\<lambda>(_, d). ret d))"

definition mvs_NewKey :: "'t gbtree_ops \<Rightarrow> string \<Rightarrow> bytes \<Rightarrow> int \<Rightarrow> ('t mvStore, unit) go" where
  "mvs_NewKey lib versionList k totalTask =
     go_bind (mvs_load k) (\<lambda>v.
     if v = None then mvs_store k (if versionList = '''' then Nil_value else Tree_value (mvi_NewMultiVersionItem lib))
     else ret ())"

definition store_ops ::
  "'t gbtree_ops \<Rightarrow> string \<Rightarrow> ('d, 'j) db_ops \<Rightarrow> 'd \<Rightarrow> ('t mvStore, 'd) mvs_ops" where
  "store_ops lib versionList db newMemDB = \<lparr>
     ms_GetLatestBeforeIndex = mvs_GetLatestBeforeIndex lib,
     ms_GetLatestBeforeIndexExpansion = mvs_GetLatestBeforeIndexExpansion lib,
     ms_NewKey = mvs_NewKey lib versionList,
     ms_CollectIteratorItems = mvs_CollectIteratorItems db newMemDB,
     ms_SetWriteset = mvs_SetWriteset lib versionList,
     ms_SetEstimatedWriteset = mvs_SetEstimatedWriteset lib,
     ms_SetReadset = mvs_SetReadset,
     ms_SetIterateset = mvs_SetIterateset \<rparr>"

section \<open>Validation\<close>

definition mvs_validateIterator ::
  "(iterationTracker \<Rightarrow> bool) \<Rightarrow> ('s, 'i) kv_ops \<Rightarrow> 't gbtree_ops \<Rightarrow> ('d, 'j) db_ops \<Rightarrow> 'd \<Rightarrow> int \<Rightarrow> iterationTracker \<Rightarrow>
   ('t mvStore \<times> 's, bool) go" where
  "mvs_validateIterator abort_first P lib db newMemDB index tracker =
     validate_tracker abort_first P db (mvs_GetLatestBeforeIndex lib) (mvs_CollectIteratorItems db newMemDB) index tracker"

fun all_valid :: "('a \<Rightarrow> ('s, bool) go) \<Rightarrow> 'a list \<Rightarrow> bool \<Rightarrow> ('s, bool) go" where
  "all_valid f [] valid = ret valid"
| "all_valid f (x # xs) valid = go_bind (f x) (\<lambda>ok. all_valid f xs (valid \<and> ok))"

definition mvs_checkIteratorAtIndex ::
  "(iterationTracker \<Rightarrow> bool) \<Rightarrow> ('s, 'i) kv_ops \<Rightarrow> 't gbtree_ops \<Rightarrow> ('d, 'j) db_ops \<Rightarrow> 'd \<Rightarrow> int \<Rightarrow>
   ('t mvStore \<times> 's, bool) go" where
  "mvs_checkIteratorAtIndex abort_first P lib db newMemDB index =
     go_bind (on_aux (mvs_GetIterateset index)) (\<lambda>iterateset.
     case iterateset of None \<Rightarrow> ret True | Some trackers \<Rightarrow>
       all_valid (mvs_validateIterator abort_first P lib db newMemDB index) trackers True)"

definition mvs_checkReadsetAtIndex ::
  "('s, 'i) kv_ops \<Rightarrow> 't gbtree_ops \<Rightarrow> int \<Rightarrow> ('t mvStore \<times> 's, bool \<times> int list) go" where
  "mvs_checkReadsetAtIndex P lib index =
     go_bind (on_aux (mvs_GetReadset index)) (\<lambda>readset.
     case readset of None \<Rightarrow> ret (True, []) | Some rs \<Rightarrow>
       check_reads P (mvs_GetLatestBeforeIndex lib) index rs True [])"

definition mvs_ValidateTransactionState ::
  "(iterationTracker \<Rightarrow> bool) \<Rightarrow> ('s, 'i) kv_ops \<Rightarrow> 't gbtree_ops \<Rightarrow> ('d, 'j) db_ops \<Rightarrow> 'd \<Rightarrow> int \<Rightarrow>
   ('t mvStore \<times> 's, bool \<times> int list) go" where
  "mvs_ValidateTransactionState abort_first P lib db newMemDB index =
     go_bind (mvs_checkIteratorAtIndex abort_first P lib db newMemDB index) (\<lambda>iteratorValid.
     go_bind (mvs_checkReadsetAtIndex P lib index) (\<lambda>(readsetValid, conflictIndices).
     ret (iteratorValid \<and> readsetValid, conflictIndices)))"

section \<open>Writing to the parent\<close>

definition write_latest ::
  "('s, 'i) kv_ops \<Rightarrow> 't gbtree_ops \<Rightarrow> bytes \<Rightarrow> ('t mvStore \<times> 's, unit) go" where
  "write_latest P lib k =
     go_bind (on_aux (mvs_load k)) (\<lambda>v.
     if v = None then ret () else
     go_bind (on_aux (on_item k (mv_GetLatestNonEstimate (value_ops lib)))) (\<lambda>r.
     case r of None \<Rightarrow> ret () | Some mvValue \<Rightarrow>
       if IsEstimate mvValue
       then go_panic (Panic_str ''should not have any estimate values when writing to parent store'')
       else if IsDeleted mvValue then on_store (kv_Delete P (Some k))
       else if vi_value mvValue \<noteq> None then on_store (kv_Set P (Some k) (vi_value mvValue))
       else ret ()))"

definition mvs_WriteLatestToStore :: "('s, 'i) kv_ops \<Rightarrow> 't gbtree_ops \<Rightarrow> ('t mvStore \<times> 's, unit) go" where
  "mvs_WriteLatestToStore P lib =
     go_bind (go_read (\<lambda>x. sort (map fst (multiVersionMap (fst x))))) (\<lambda>keys.
     go_for keys (write_latest P lib))"

end
