(* ===== verification/MV_StoreLaws.thy ===== *)
theory MV_StoreLaws
  imports MV_Store
begin

text \<open>
  What the multiversion store computes. A store stands for a version map: per key and transaction index,
  the version that transaction wrote. Setting a write set replaces the versions of its index, reads
  return the version of the greatest index below the reader's, and writing the latest versions to the
  parent is running the write sets in the order of their indices.
\<close>

section \<open>The version map\<close>

definition versions_of :: "('t \<Rightarrow> valueItem list) \<Rightarrow> 't mvStore \<Rightarrow> bytes \<Rightarrow> int \<rightharpoonup> valueItem" where
  "versions_of elems s k = (case map_of (multiVersionMap s) k of None \<Rightarrow> Map.empty | Some v \<Rightarrow> value_vers elems v)"

text \<open>Every object is well formed and takes writes at the indices of the block's \<open>n\<close> transactions.\<close>

definition items_ok :: "('t \<Rightarrow> bool) \<Rightarrow> int \<Rightarrow> 't mvStore \<Rightarrow> bool" where
  "items_ok t_ok n s \<longleftrightarrow> (\<forall>k v. map_of (multiVersionMap s) k = Some v \<longrightarrow>
     value_inv t_ok v \<and> (\<forall>i. 0 \<le> i \<and> i < n \<longrightarrow> value_idx v i))"

text \<open>Every version is recorded in the write-set keys of its transaction.\<close>

definition keys_recorded :: "('t \<Rightarrow> valueItem list) \<Rightarrow> int \<Rightarrow> 't mvStore \<Rightarrow> bool" where
  "keys_recorded elems n s \<longleftrightarrow> (\<forall>k i. versions_of elems s k i \<noteq> None \<longrightarrow>
     0 \<le> i \<and> i < n \<and> (\<exists>ks. map_of (txWritesetKeys s) i = Some ks \<and> k \<in> set ks))"

definition mvs_inv :: "('t \<Rightarrow> bool) \<Rightarrow> ('t \<Rightarrow> valueItem list) \<Rightarrow> int \<Rightarrow> 't mvStore \<Rightarrow> bool" where
  "mvs_inv t_ok elems n s \<longleftrightarrow> items_ok t_ok n s \<and> keys_recorded elems n s \<and> distinct (map fst (multiVersionMap s))"

lemma go_for_step: "f x s = Some (Inr (), s1) \<Longrightarrow> go_for (x # xs) f s = go_for xs f s1"
  by (simp add: go_bind_apply)

lemma update_same: "map_of al k = Some v \<Longrightarrow> AList.update k v al = al"
  by (induction al) auto

lemma on_item_read:
  assumes "map_of (multiVersionMap s) k = Some x" "wp m (\<lambda>r x'. x' = x \<and> Q r) x"
  shows "wp (on_item k m) (\<lambda>r s'. s' = s \<and> Q r) s"
  using assms by (simp add: on_item_def wp_zoom) (erule wp_mono, simp add: update_same)

context gbtree_lib
begin

lemma on_item_step:
  assumes "items_ok t_ok n s" "distinct (map fst (multiVersionMap s))" "map_of (multiVersionMap s) k = Some x"
    and "wp m (\<lambda>_ x'. value_inv t_ok x' \<and> value_idx x' = value_idx x \<and> value_vers elems x' = (value_vers elems x)(i := w)) x"
  shows "\<exists>s'. on_item k m s = Some (Inr (), s') \<and> items_ok t_ok n s' \<and> distinct (map fst (multiVersionMap s')) \<and>
    versions_of elems s' = (versions_of elems s)(k := (versions_of elems s k)(i := w)) \<and>
    txWritesetKeys s' = txWritesetKeys s \<and> (\<forall>k'. map_of (multiVersionMap s') k' = None \<longleftrightarrow> map_of (multiVersionMap s) k' = None)"
proof -
  obtain x' where x': "m x = Some (Inr (), x')" "value_inv t_ok x'" "value_idx x' = value_idx x"
      "value_vers elems x' = (value_vers elems x)(i := w)"
    using assms(4) by (auto simp: wp_def)
  let ?s = "s\<lparr>multiVersionMap := AList.update k x' (multiVersionMap s)\<rparr>"
  have "on_item k m s = Some (Inr (), ?s)"
    using x'(1) assms(3) by (simp add: on_item_def go_zoom_def)
  moreover have "items_ok t_ok n ?s"
    using assms(1,3) x'(2,3) by (auto simp: items_ok_def update_conv' split: if_splits)
  moreover have "versions_of elems ?s = (versions_of elems s)(k := (versions_of elems s k)(i := w))"
    using assms(3) x'(4) by (auto simp: versions_of_def update_conv' fun_eq_iff)
  ultimately show ?thesis
    using assms(2,3) by (intro exI [of _ ?s]) (simp add: distinct_update update_conv')
qed

lemma ensure_step:
  assumes "items_ok t_ok n s" "distinct (map fst (multiVersionMap s))"
    and "value_inv t_ok new" "value_vers elems new = Map.empty" "\<forall>i. 0 \<le> i \<and> i < n \<longrightarrow> value_idx new i"
  shows "\<exists>s'. mvs_ensure (ret new) k s = Some (Inr (), s') \<and> items_ok t_ok n s' \<and> distinct (map fst (multiVersionMap s')) \<and>
    versions_of elems s' = versions_of elems s \<and> txWritesetKeys s' = txWritesetKeys s \<and>
    map_of (multiVersionMap s') k \<noteq> None"
proof (cases "map_of (multiVersionMap s) k")
  case None
  let ?s = "s\<lparr>multiVersionMap := AList.update k new (multiVersionMap s)\<rparr>"
  have "mvs_ensure (ret new) k s = Some (Inr (), ?s)"
    using None by (simp add: mvs_ensure_def mvs_load_def mvs_store_def go_bind_apply go_read_def go_modify_def)
  moreover have "items_ok t_ok n ?s"
    using assms by (auto simp: items_ok_def update_conv' split: if_splits)
  moreover have "versions_of elems ?s = versions_of elems s"
    using None assms(4) by (auto simp: versions_of_def update_conv' fun_eq_iff)
  ultimately show ?thesis
    using assms(2) by (intro exI [of _ ?s]) (simp add: distinct_update update_conv')
next
  case (Some x)
  then show ?thesis
    using assms by (intro exI [of _ s]) (simp add: mvs_ensure_def mvs_load_def go_bind_apply go_read_def ret_def)
qed

lemma new_item_ok:
  "value_inv t_ok (Tree_value (mvi_NewMultiVersionItem lib))"
  "value_vers elems (Tree_value (mvi_NewMultiVersionItem lib)) = Map.empty"
  "value_inv t_ok (List_value (no_versions n))"
  "value_vers elems (List_value (no_versions n)) = Map.empty"
  "0 \<le> i \<and> i < n \<Longrightarrow> value_idx (List_value (no_versions n)) i"
  using t_New
  by (auto simp: mvi_NewMultiVersionItem_def tree_vers_def list_inv_def list_vers_def fun_eq_iff)

definition shape :: "int \<Rightarrow> 't mvStore \<Rightarrow> bool" where
  "shape n s \<longleftrightarrow> items_ok t_ok n s \<and> distinct (map fst (multiVersionMap s))"

text \<open>A loop that writes, for each of some keys, one version at the index \<open>i\<close>.\<close>

lemma write_loop:
  assumes "shape n s" "0 \<le> i" "i < n"
    and new: "value_inv t_ok new" "value_vers elems new = Map.empty" "\<forall>i. 0 \<le> i \<and> i < n \<longrightarrow> value_idx new i"
    and m: "\<And>k x. k \<in> set ks \<Longrightarrow> value_inv t_ok x \<Longrightarrow> value_idx x i \<Longrightarrow> wp (m k) (\<lambda>_ x'. value_inv t_ok x' \<and>
      value_idx x' = value_idx x \<and> value_vers elems x' = (value_vers elems x)(i := w k)) x"
  shows "\<exists>s'. go_for ks (\<lambda>k. go_bind (mvs_ensure (ret new) k) (\<lambda>_. on_item k (m k))) s = Some (Inr (), s') \<and> shape n s' \<and>
    txWritesetKeys s' = txWritesetKeys s \<and>
    versions_of elems s' = (\<lambda>k. if k \<in> set ks then (versions_of elems s k)(i := w k) else versions_of elems s k)"
  using assms(1) m
proof (induction ks arbitrary: s)
  case Nil
  then show ?case by (simp add: ret_def)
next
  case (Cons k ks)
  obtain s1 where 1: "mvs_ensure (ret new) k s = Some (Inr (), s1)" "shape n s1" "versions_of elems s1 = versions_of elems s"
      "txWritesetKeys s1 = txWritesetKeys s" "map_of (multiVersionMap s1) k \<noteq> None"
    using ensure_step [of n s new k, OF _ _ new] Cons.prems(1) unfolding shape_def by blast
  then obtain x where x: "map_of (multiVersionMap s1) k = Some x" by blast
  have "value_inv t_ok x" "value_idx x i"
    using 1(2) x assms(2,3) by (auto simp: shape_def items_ok_def)
  note mk = Cons.prems(2) [OF list.set_intros(1) this]
  have "items_ok t_ok n s1" "distinct (map fst (multiVersionMap s1))" using 1(2) by (simp_all add: shape_def)
  from on_item_step [OF this x mk] obtain s2 where 2: "on_item k (m k) s1 = Some (Inr (), s2)" "shape n s2"
      "versions_of elems s2 = (versions_of elems s1)(k := (versions_of elems s1 k)(i := w k))"
      "txWritesetKeys s2 = txWritesetKeys s1"
    unfolding shape_def by blast
  have "\<exists>s'. go_for ks (\<lambda>k. go_bind (mvs_ensure (ret new) k) (\<lambda>_. on_item k (m k))) s2 = Some (Inr (), s') \<and> shape n s' \<and>
      txWritesetKeys s' = txWritesetKeys s2 \<and>
      versions_of elems s' = (\<lambda>k. if k \<in> set ks then (versions_of elems s2 k)(i := w k) else versions_of elems s2 k)"
    by (rule Cons.IH [OF 2(2)], rule Cons.prems(2)) simp_all
  then obtain s3 where 3: "go_for ks (\<lambda>k. go_bind (mvs_ensure (ret new) k) (\<lambda>_. on_item k (m k))) s2 = Some (Inr (), s3)" "shape n s3"
      "txWritesetKeys s3 = txWritesetKeys s2"
      "versions_of elems s3 = (\<lambda>k. if k \<in> set ks then (versions_of elems s2 k)(i := w k) else versions_of elems s2 k)"
    by blast
  have "versions_of elems s3 =
      (\<lambda>k'. if k' \<in> set (k # ks) then (versions_of elems s k')(i := w k') else versions_of elems s k')"
    unfolding 3(4) 2(3) 1(3) by (auto simp: fun_eq_iff)
  moreover have "go_bind (mvs_ensure (ret new) k) (\<lambda>_. on_item k (m k)) s = Some (Inr (), s2)"
    using 1(1) 2(1) by (simp add: go_bind_apply)
  ultimately show ?case
    using 1(4) 2(4) 3(1-3) by (subst go_for_step) (assumption, simp)
qed

lemma removal_loop:
  assumes "shape n s" "0 \<le> i" "i < n"
  shows "\<exists>s'. go_for ks (\<lambda>k. if map_of ws k \<noteq> None then ret () else go_bind (mvs_load k) (\<lambda>v.
      if v = None then ret () else on_item k (mv_Remove (value_ops lib) i))) s = Some (Inr (), s') \<and> shape n s' \<and>
    txWritesetKeys s' = txWritesetKeys s \<and>
    versions_of elems s' = (\<lambda>k. if k \<in> set ks \<and> map_of ws k = None then (versions_of elems s k)(i := None) else versions_of elems s k)"
  using assms(1)
proof (induction ks arbitrary: s)
  case Nil
  then show ?case by (simp add: ret_def)
next
  case (Cons k ks)
  let ?f = "\<lambda>k. if map_of ws k \<noteq> None then ret () else go_bind (mvs_load k) (\<lambda>v.
      if v = None then ret () else on_item k (mv_Remove (value_ops lib) i))"
  have "\<exists>s1. ?f k s = Some (Inr (), s1) \<and> shape n s1 \<and> txWritesetKeys s1 = txWritesetKeys s \<and>
      versions_of elems s1 = (\<lambda>k'. if k' = k \<and> map_of ws k = None then (versions_of elems s k)(i := None) else versions_of elems s k')"
  proof (cases "map_of ws k = None")
    case False
    with Cons.prems show ?thesis by (intro exI [of _ s]) (auto simp: ret_def fun_eq_iff)
  next
    case ws: True
    show ?thesis
    proof (cases "map_of (multiVersionMap s) k")
      case None
      with Cons.prems ws show ?thesis
        by (intro exI [of _ s]) (auto simp: ret_def fun_eq_iff mvs_load_def go_bind_apply go_read_def versions_of_def)
    next
      case (Some x)
      have "value_inv t_ok x" "value_idx x i"
        using Cons.prems Some assms(2,3) by (auto simp: shape_def items_ok_def)
      from either.Remove [OF this] on_item_step [of n s k x "mv_Remove (value_ops lib) i" i None] Cons.prems Some
      obtain s2 where "on_item k (mv_Remove (value_ops lib) i) s = Some (Inr (), s2)" "shape n s2"
          "versions_of elems s2 = (versions_of elems s)(k := (versions_of elems s k)(i := None))"
          "txWritesetKeys s2 = txWritesetKeys s"
        by (auto simp: shape_def)
      with ws Some show ?thesis
        by (intro exI [of _ s2]) (auto simp: mvs_load_def go_bind_apply go_read_def fun_eq_iff)
    qed
  qed
  then obtain s1 where 1: "?f k s = Some (Inr (), s1)" "shape n s1" "txWritesetKeys s1 = txWritesetKeys s"
      "versions_of elems s1 = (\<lambda>k'. if k' = k \<and> map_of ws k = None then (versions_of elems s k)(i := None) else versions_of elems s k')"
    by blast
  obtain s2 where 2: "go_for ks ?f s1 = Some (Inr (), s2)" "shape n s2" "txWritesetKeys s2 = txWritesetKeys s1"
      "versions_of elems s2 = (\<lambda>k. if k \<in> set ks \<and> map_of ws k = None then (versions_of elems s1 k)(i := None) else versions_of elems s1 k)"
    using Cons.IH [OF 1(2)] by blast
  have "versions_of elems s2 = (\<lambda>k'. if k' \<in> set (k # ks) \<and> map_of ws k' = None then (versions_of elems s k')(i := None)
      else versions_of elems s k')"
    unfolding 2(4) 1(4) by (auto simp: fun_eq_iff)
  with 1(1,3) 2(1-3) show ?case by (subst go_for_step) (assumption, simp del: not_None_eq)
qed

lemma removeOld_run:
  assumes "mvs_inv t_ok elems n s" "0 \<le> i" "i < n"
  shows "\<exists>s'. mvs_removeOldWriteset lib i ws s = Some (Inr (), s') \<and> shape n s' \<and>
    txWritesetKeys s' = AList.delete i (txWritesetKeys s) \<and>
    versions_of elems s' = (\<lambda>k. if map_of ws k = None then (versions_of elems s k)(i := None) else versions_of elems s k)"
proof -
  let ?s = "s\<lparr>txWritesetKeys := AList.delete i (txWritesetKeys s)\<rparr>"
  have s: "shape n ?s" "versions_of elems ?s = versions_of elems s" "txWritesetKeys ?s = AList.delete i (txWritesetKeys s)"
    using assms(1) by (simp_all add: mvs_inv_def shape_def items_ok_def versions_of_def fun_eq_iff)
  have rec: "versions_of elems s k i = None" if "\<forall>ks. map_of (txWritesetKeys s) i = Some ks \<longrightarrow> k \<notin> set ks" for k
    using assms(1) that unfolding mvs_inv_def keys_recorded_def by metis
  note run = mvs_removeOldWriteset_def go_bind_apply go_read_def go_modify_def
  show ?thesis
  proof (cases "map_of (txWritesetKeys s) i")
    case None
    have "mvs_removeOldWriteset lib i ws s = Some (Inr (), ?s)"
      using None by (simp add: run ret_def)
    with s rec None show ?thesis by (intro exI [of _ ?s]) (auto simp: fun_eq_iff)
  next
    case (Some ks)
    obtain s' where s': "go_for ks (\<lambda>k. if map_of ws k \<noteq> None then ret () else go_bind (mvs_load k) (\<lambda>v.
        if v = None then ret () else on_item k (mv_Remove (value_ops lib) i))) ?s = Some (Inr (), s')" "shape n s'"
        "txWritesetKeys s' = txWritesetKeys ?s" "versions_of elems s' = (\<lambda>k. if k \<in> set ks \<and> map_of ws k = None
          then (versions_of elems ?s k)(i := None) else versions_of elems ?s k)"
      using removal_loop [OF s(1) assms(2,3), of ks ws] by blast
    have "mvs_removeOldWriteset lib i ws s = Some (Inr (), s')"
      unfolding mvs_removeOldWriteset_def using Some s'(1)
      by (simp add: go_bind_read go_bind_modify del: not_None_eq)
    with s' s(2) rec Some show ?thesis
      by (intro exI [of _ s']) (auto simp: fun_eq_iff)
  qed
qed

end

definition new_version :: "int \<Rightarrow> int \<Rightarrow> slice \<Rightarrow> valueItem" where
  "new_version i n v = (if v = None then NewDeletedItem i n else NewValueItem i n v)"

definition writeset_ok :: "WriteSet \<Rightarrow> bool" where
  "writeset_ok ws \<longleftrightarrow> distinct (map fst ws) \<and> (\<forall>k v. (k, Some v) \<in> set ws \<longrightarrow> valid_value v)"

lemma go_for_map_of:
  assumes "distinct (map fst ws)"
  shows "go_for ws f = go_for (map fst ws) (\<lambda>k. f (k, the (map_of ws k)))"
proof -
  have "go_for ys f = go_for (map fst ys) (\<lambda>k. f (k, the (map_of ws k)))" if "set ys \<subseteq> set ws" for ys
    using that assms by (induction ys) auto
  then show ?thesis by simp
qed

lemma go_for_cong: "(\<And>x. x \<in> set xs \<Longrightarrow> f x = g x) \<Longrightarrow> go_for xs f = go_for xs g"
  by (induction xs) simp_all

context gbtree_lib
begin

text \<open>Recording the keys of the loop's index restores the invariant.\<close>

lemma record_keys:
  assumes "mvs_inv t_ok elems n s" "0 \<le> i" "i < n" "shape n s'"
    and "txWritesetKeys s' = AList.delete i (txWritesetKeys s)"
    and "\<And>k j. j \<noteq> i \<Longrightarrow> versions_of elems s' k j = versions_of elems s k j"
    and "\<And>k. versions_of elems s' k i \<noteq> None \<Longrightarrow> k \<in> set ks"
  shows "mvs_inv t_ok elems n (s'\<lparr>txWritesetKeys := AList.update i ks (txWritesetKeys s')\<rparr>)"
proof -
  let ?s = "s'\<lparr>txWritesetKeys := AList.update i ks (txWritesetKeys s')\<rparr>"
  have v: "versions_of elems ?s = versions_of elems s'" by (simp add: versions_of_def fun_eq_iff)
  have "0 \<le> j \<and> j < n \<and> (\<exists>ks. map_of (txWritesetKeys ?s) j = Some ks \<and> k \<in> set ks)"
    if "versions_of elems s' k j \<noteq> None" for k j
  proof (cases "j = i")
    case True
    with assms(2,3,7) that show ?thesis by (simp add: update_conv')
  next
    case False
    with assms(1,5,6) that show ?thesis
      by (auto simp: mvs_inv_def keys_recorded_def update_conv' delete_conv')
  qed
  with assms(4) v show ?thesis
    by (simp add: mvs_inv_def shape_def keys_recorded_def items_ok_def)
qed

lemma SetWriteset_run:
  assumes "mvs_inv t_ok elems n s" "0 \<le> i" "i < n" "writeset_ok ws"
  shows "\<exists>s'. mvs_SetWriteset lib versionList i inc ws n s = Some (Inr (), s') \<and> mvs_inv t_ok elems n s' \<and>
    versions_of elems s' = (\<lambda>k. (versions_of elems s k)(i := map_option (new_version i inc) (map_of ws k)))"
proof -
  let ?new = "if versionList = '''' then List_value (no_versions n) else Tree_value (mvi_NewMultiVersionItem lib)"
  let ?m = "\<lambda>k. if the (map_of ws k) = None then mv_Delete (value_ops lib) i inc
      else mv_Set (value_ops lib) i inc (the (map_of ws k))"
  let ?w = "\<lambda>k. map_option (new_version i inc) (map_of ws k)"
  obtain s1 where 1: "mvs_removeOldWriteset lib i ws s = Some (Inr (), s1)" "shape n s1"
      "txWritesetKeys s1 = AList.delete i (txWritesetKeys s)"
      "versions_of elems s1 = (\<lambda>k. if map_of ws k = None then (versions_of elems s k)(i := None) else versions_of elems s k)"
    using removeOld_run [OF assms(1-3)] by blast
  have d: "distinct (map fst ws)" using assms(4) by (simp add: writeset_ok_def)
  have m: "wp (?m k) (\<lambda>_ x'. value_inv t_ok x' \<and> value_idx x' = value_idx x \<and> value_vers elems x' = (value_vers elems x)(i := ?w k)) x"
    if "k \<in> set (map fst ws)" "value_inv t_ok x" "value_idx x i" for k x
  proof -
    have "map_of ws k \<noteq> None" using that(1) unfolding map_of_eq_None_iff by simp
    then obtain v where v: "map_of ws k = Some v" by blast
    then have "\<forall>b. v = Some b \<longrightarrow> valid_value b"
      using assms(4) by (auto simp: writeset_ok_def dest: map_of_SomeD)
    with v either.Delete [OF that(2,3)] either.Set [OF that(2,3)] show ?thesis
      by (cases v) (simp_all add: new_version_def)
  qed
  have new: "value_inv t_ok ?new" "value_vers elems ?new = Map.empty" "\<forall>i. 0 \<le> i \<and> i < n \<longrightarrow> value_idx ?new i"
    by (simp_all add: new_item_ok [simplified])
  obtain s2 where 2: "go_for (map fst ws) (\<lambda>k. go_bind (mvs_ensure (ret ?new) k) (\<lambda>_. on_item k (?m k))) s1 = Some (Inr (), s2)"
      "shape n s2" "txWritesetKeys s2 = txWritesetKeys s1" "versions_of elems s2 =
        (\<lambda>k. if k \<in> set (map fst ws) then (versions_of elems s1 k)(i := ?w k) else versions_of elems s1 k)"
    using write_loop [where ks = "map fst ws" and m = ?m and w = ?w, OF 1(2) assms(2,3) new m] by blast
  have loop: "go_for ws (\<lambda>kv. go_bind (mvs_ensure (ret ?new) (fst kv)) (\<lambda>_. write_version lib i inc kv)) =
      go_for (map fst ws) (\<lambda>k. go_bind (mvs_ensure (ret ?new) k) (\<lambda>_. on_item k (?m k)))"
    unfolding go_for_map_of [OF d] write_version_def fst_conv snd_conv ..
  let ?s = "s2\<lparr>txWritesetKeys := AList.update i (sort (map fst ws)) (txWritesetKeys s2)\<rparr>"
  have v: "versions_of elems s2 = (\<lambda>k. (versions_of elems s k)(i := ?w k))"
    unfolding 2(4) 1(4) by (auto simp: fun_eq_iff map_of_eq_None_iff)
  have fresh: "(if versionList = '''' then new_list n else ret (Tree_value (mvi_NewMultiVersionItem lib))) = ret ?new"
    using assms(2,3) by (simp add: new_list_def NewMultiVersionListItem_ret)
  have "mvs_SetWriteset lib versionList i inc ws n s = Some (Inr (), ?s)"
    unfolding mvs_SetWriteset_def fresh loop
    by (simp add: go_bind_Inr [of "mvs_removeOldWriteset lib i ws" s, OF 1(1)]
      go_bind_Inr [of "go_for (map fst ws) _" s1, OF 2(1)] go_modify_def)
  moreover have "mvs_inv t_ok elems n ?s"
    using 2(3) 1(3) d by (intro record_keys [OF assms(1-3) 2(2)]) (auto simp: v map_of_eq_None_iff split: option.splits)
  moreover have "versions_of elems ?s = versions_of elems s2" by (simp add: versions_of_def fun_eq_iff)
  ultimately show ?thesis using v by auto
qed

end

section \<open>Reads\<close>

context gbtree_lib
begin

lemma GetLatestBeforeIndex_wp:
  assumes "items_ok t_ok n s" "0 \<le> i" "i < n"
  shows "wp (mvs_GetLatestBeforeIndex lib i (Some k)) (\<lambda>r s'. s' = s \<and> latest (below i) (versions_of elems s k) r) s"
proof (cases "map_of (multiVersionMap s) k")
  case None
  then show ?thesis
    by (simp add: mvs_GetLatestBeforeIndex_def mvs_load_def wp_simps versions_of_def latest_def)
next
  case (Some x)
  then have "value_inv t_ok x" "value_idx x i" using assms by (auto simp: items_ok_def)
  from on_item_read [OF Some either.Before [OF this]] Some show ?thesis
    by (simp add: mvs_GetLatestBeforeIndex_def mvs_load_def wp_simps versions_of_def)
qed

end

section \<open>Writing to the parent\<close>

definition apply_writeset :: "(bytes \<rightharpoonup> bytes) \<Rightarrow> WriteSet \<Rightarrow> bytes \<rightharpoonup> bytes" where
  "apply_writeset c ws = (\<lambda>k. case map_of ws k of None \<Rightarrow> c k | Some v \<Rightarrow> v)"

abbreviation committed :: "slice \<Rightarrow> valueItem option \<Rightarrow> slice" where
  "committed old r \<equiv> (case r of None \<Rightarrow> old | Some v \<Rightarrow> vi_value v)"

abbreviation final_latest :: "(int \<rightharpoonup> valueItem) \<Rightarrow> valueItem option \<Rightarrow> bool" where
  "final_latest \<equiv> latest (\<lambda>_ v. \<not> IsEstimate v)"

locale mvstore_env =
  versions: gbtree_lib lib t_ok elems + parent: kvstore P vk inv contents it_inv it_items
  for lib :: "'t gbtree_ops" and t_ok elems
    and P :: "('s, 'i) kv_ops" and vk inv contents it_inv it_items

context mvstore_env
begin

definition writable :: "'t mvStore \<Rightarrow> bool" where
  "writable m \<longleftrightarrow> (\<forall>k i v. versions_of elems m k i = Some v \<longrightarrow> vk k \<and> (\<forall>w. vi_value v = Some w \<longrightarrow> valid_value w))"

lemma write_latest_run:
  assumes "items_ok t_ok n m" "writable m" "inv s" "final_latest (versions_of elems m k) r"
  shows "\<exists>s'. write_latest P lib k (m, s) = Some (Inr (), (m, s')) \<and> inv s' \<and>
    contents s' = (contents s)(k := committed (contents s k) r)"
proof (cases "map_of (multiVersionMap m) k")
  case None
  then have "r = None" using assms(4) by (auto simp: versions_of_def latest_def split: option.splits)
  with None assms(3) show ?thesis
    by (auto simp: write_latest_def on_aux_apply mvs_load_def go_bind_apply go_read_def ret_def)
next
  case (Some x)
  then have x: "value_inv t_ok x" "versions_of elems m k = value_vers elems x"
    using assms(1) by (auto simp: items_ok_def versions_of_def)
  have "wp (on_item k (mv_GetLatestNonEstimate (value_ops lib))) (\<lambda>r' m'. m' = m \<and> final_latest (value_vers elems x) r') m"
    by (rule on_item_read [OF Some versions.either.NonEstimate [OF x(1)]])
  then have load: "on_item k (mv_GetLatestNonEstimate (value_ops lib)) m = Some (Inr r, m)"
    using latest_unique assms(4) unfolding x(2) wp_def by blast
  note run = write_latest_def on_aux_apply mvs_load_def go_bind_apply go_read_def ret_def Some load on_store_apply
  show ?thesis
  proof (cases r)
    case None
    with assms(3) show ?thesis by (simp add: run)
  next
    case (Some v)
    then have v: "\<not> IsEstimate v" "vk k" "\<forall>w. vi_value v = Some w \<longrightarrow> valid_value w"
      using assms(2,4) by (auto simp: latest_def writable_def)
    show ?thesis
    proof (cases "vi_value v")
      case None
      obtain s' where "kv_Delete P (Some k) s = Some (Inr (), s')" "inv s'" "contents s' = (contents s)(k := None)"
        using parent.Delete [OF assms(3) v(2)] by (auto simp: wp_def)
      with v(1) None \<open>r = Some v\<close> show ?thesis by (simp add: run IsDeleted_def IsEstimate_def)
    next
      case w: (Some w)
      obtain s' where "kv_Set P (Some k) (Some w) s = Some (Inr (), s')" "inv s'" "contents s' = (contents s)(k \<mapsto> w)"
        using parent.Set [OF assms(3) v(2), of w] v(3) w by (auto simp: wp_def)
      with v(1) w \<open>r = Some v\<close> show ?thesis by (simp add: run IsDeleted_def IsEstimate_def)
    qed
  qed
qed

lemma write_loop_run:
  assumes "items_ok t_ok n m" "writable m" "inv s" "\<And>k. final_latest (versions_of elems m k) (r k)" "distinct ks"
  shows "\<exists>s'. go_for ks (write_latest P lib) (m, s) = Some (Inr (), (m, s')) \<and> inv s' \<and>
    contents s' = (\<lambda>k. if k \<in> set ks then committed (contents s k) (r k) else contents s k)"
  using assms(3,5)
proof (induction ks arbitrary: s)
  case Nil
  then show ?case by (simp add: ret_def)
next
  case (Cons k ks)
  obtain s1 where 1: "write_latest P lib k (m, s) = Some (Inr (), (m, s1))" "inv s1"
      "contents s1 = (contents s)(k := committed (contents s k) (r k))"
    using write_latest_run [OF assms(1,2) Cons.prems(1) assms(4)] by blast
  obtain s2 where 2: "go_for ks (write_latest P lib) (m, s1) = Some (Inr (), (m, s2))" "inv s2"
      "contents s2 = (\<lambda>k. if k \<in> set ks then committed (contents s1 k) (r k) else contents s1 k)"
    using Cons.IH [OF 1(2)] Cons.prems(2) by auto
  have "contents s2 = (\<lambda>k'. if k' \<in> set (k # ks) then committed (contents s k') (r k') else contents s k')"
    unfolding 2(3) 1(3) using Cons.prems(2) by (auto simp: fun_eq_iff split: option.splits)
  with 2 show ?case using go_for_step [of "write_latest P lib" k, OF 1(1)] by auto
qed

lemma WriteLatest_run:
  assumes "mvs_inv t_ok elems n m" "writable m" "inv s" "\<And>k. final_latest (versions_of elems m k) (r k)"
  shows "\<exists>s'. mvs_WriteLatestToStore P lib (m, s) = Some (Inr (), (m, s')) \<and> inv s' \<and>
    contents s' = (\<lambda>k. committed (contents s k) (r k))"
proof -
  let ?ks = "sort (map fst (multiVersionMap m))"
  have ok: "items_ok t_ok n m" "distinct ?ks" using assms(1) by (simp_all add: mvs_inv_def)
  obtain s' where s': "go_for ?ks (write_latest P lib) (m, s) = Some (Inr (), (m, s'))" "inv s'"
      "contents s' = (\<lambda>k. if k \<in> set ?ks then committed (contents s k) (r k) else contents s k)"
    using write_loop_run [OF ok(1) assms(2-4) ok(2)] by blast
  have none: "r k = None" if "k \<notin> set ?ks" for k
  proof -
    have "map_of (multiVersionMap m) k = None" using that by (simp add: map_of_eq_None_iff)
    with assms(4) [of k] show ?thesis by (auto simp: versions_of_def latest_def split: option.splits)
  qed
  have "contents s' = (\<lambda>k. committed (contents s k) (r k))"
    unfolding s'(3) using none by (auto simp: fun_eq_iff)
  with s' show ?thesis by (auto simp: mvs_WriteLatestToStore_def go_bind_read)
qed

end

section \<open>Serial equivalence\<close>

text \<open>The write set a transaction ends up with: the last one set at its index.\<close>

definition final_writeset :: "(int \<times> int \<times> WriteSet) list \<Rightarrow> int \<Rightarrow> (int \<times> WriteSet) option" where
  "final_writeset seq i = map_of (rev seq) i"

lemma final_writeset_snoc: "final_writeset (seq @ [(i, e)]) = (final_writeset seq)(i \<mapsto> e)"
  by (auto simp: final_writeset_def fun_eq_iff)

text \<open>The versions of a key after the write sets have been set.\<close>

definition final_versions :: "(int \<times> int \<times> WriteSet) list \<Rightarrow> bytes \<Rightarrow> int \<rightharpoonup> valueItem" where
  "final_versions seq k i = (case final_writeset seq i of None \<Rightarrow> None
     | Some (inc, ws) \<Rightarrow> map_option (new_version i inc) (map_of ws k))"

definition serial :: "(int \<times> int \<times> WriteSet) list \<Rightarrow> nat \<Rightarrow> (bytes \<rightharpoonup> bytes) \<Rightarrow> bytes \<rightharpoonup> bytes" where
  "serial seq n c = foldl (\<lambda>c i. case final_writeset seq (int i) of None \<Rightarrow> c | Some (_, ws) \<Rightarrow> apply_writeset c ws) c [0..<n]"

lemma new_version_simps [simp]:
  "vi_value (new_version i n v) = v" "\<not> IsEstimate (new_version i n v)"
  by (auto simp: new_version_def)

lemma serial_latest:
  assumes "\<And>i. final_writeset seq i \<noteq> None \<Longrightarrow> 0 \<le> i"
  shows "\<exists>r. final_latest (\<lambda>j. if j < int n then final_versions seq k j else None) r \<and> serial seq n c k = committed (c k) r"
proof (induction n)
  case 0
  have "final_versions seq k j = None" if "j < 0" for j
    using assms [of j] that by (auto simp: final_versions_def split: option.splits)
  then show ?case by (intro exI [of _ None]) (auto simp: latest_def serial_def)
next
  case (Suc n)
  let ?V = "\<lambda>n j. if j < int n then final_versions seq k j else None"
  obtain r where r: "final_latest (?V n) r" "serial seq n c k = committed (c k) r" using Suc by blast
  have step: "serial seq (Suc n) c k = (case final_versions seq k (int n) of None \<Rightarrow> serial seq n c k | Some v \<Rightarrow> vi_value v)"
    by (auto simp: serial_def final_versions_def apply_writeset_def split: option.splits)
  show ?case
  proof (cases "final_versions seq k (int n)")
    case None
    then have "?V (Suc n) = ?V n" by (auto simp: fun_eq_iff not_less le_less)
    with r step None show ?thesis by auto
  next
    case (Some v)
    then have "\<not> IsEstimate v" by (auto simp: final_versions_def split: option.splits)
    with Some have "final_latest (?V (Suc n)) (Some v)"
      by (auto simp: latest_def intro!: exI [of _ "int n"])
    with step Some show ?thesis by (intro exI [of _ "Some v"]) simp
  qed
qed

context gbtree_lib
begin

lemma new_store_inv: "mvs_inv t_ok elems n NewMultiVersionStore" "versions_of elems NewMultiVersionStore k = Map.empty"
  by (auto simp: mvs_inv_def items_ok_def keys_recorded_def versions_of_def NewMultiVersionStore_def)

lemma SetWritesets_run:
  assumes "\<forall>(i, inc, ws) \<in> set seq. 0 \<le> i \<and> i < n \<and> writeset_ok ws"
  shows "\<exists>m. go_for seq (\<lambda>(i, inc, ws). mvs_SetWriteset lib versionList i inc ws n) NewMultiVersionStore = Some (Inr (), m) \<and>
    mvs_inv t_ok elems n m \<and> versions_of elems m = final_versions seq"
  using assms
proof (induction seq rule: rev_induct)
  case Nil
  then show ?case
    using new_store_inv by (auto simp: ret_def final_versions_def final_writeset_def fun_eq_iff)
next
  case (snoc e seq)
  obtain i inc ws where e: "e = (i, inc, ws)" by (cases e)
  obtain m where m: "go_for seq (\<lambda>(i, inc, ws). mvs_SetWriteset lib versionList i inc ws n) NewMultiVersionStore = Some (Inr (), m)"
      "mvs_inv t_ok elems n m" "versions_of elems m = final_versions seq"
    using snoc by auto
  obtain m' where m': "mvs_SetWriteset lib versionList i inc ws n m = Some (Inr (), m')" "mvs_inv t_ok elems n m'"
      "versions_of elems m' = (\<lambda>k. (versions_of elems m k)(i := map_option (new_version i inc) (map_of ws k)))"
    using SetWriteset_run [OF m(2)] snoc.prems e by force
  have "versions_of elems m' = final_versions (seq @ [e])"
    unfolding m'(3) m(3) e by (auto simp: fun_eq_iff final_versions_def final_writeset_snoc)
  with m(1) m'(1,2) show ?case
    unfolding go_for_append e by (simp add: go_bind_apply ret_def)
qed

end

context mvstore_env
begin

lemma on_aux_loop: "go_for xs (\<lambda>x. on_aux (f x)) (m, s) = map_option (\<lambda>(r, m'). (r, (m', s))) (go_for xs f m)"
  by (induction xs arbitrary: m) (auto simp: ret_def go_bind_apply on_aux_apply split: option.splits sum.splits)

lemma serial_run:
  assumes seq: "\<forall>(i, inc, ws) \<in> set seq. 0 \<le> i \<and> i < int n \<and> writeset_ok ws \<and> (\<forall>k \<in> fst ` set ws. vk k)" and s: "inv s"
  shows "\<exists>m s'. go_bind (go_for seq (\<lambda>(i, inc, ws). on_aux (mvs_SetWriteset lib versionList i inc ws (int n))))
      (\<lambda>_. mvs_WriteLatestToStore P lib) (NewMultiVersionStore, s) = Some (Inr (), (m, s')) \<and>
    inv s' \<and> contents s' = serial seq n (contents s)"
proof -
  have "\<forall>(i, inc, ws) \<in> set seq. 0 \<le> i \<and> i < int n \<and> writeset_ok ws" using seq by auto
  then obtain m where m: "go_for seq (\<lambda>(i, inc, ws). mvs_SetWriteset lib versionList i inc ws (int n)) NewMultiVersionStore = Some (Inr (), m)"
      "mvs_inv t_ok elems (int n) m" "versions_of elems m = final_versions seq"
    using versions.SetWritesets_run by blast
  have mem: "(i, inc, ws) \<in> set seq" if "final_writeset seq i = Some (inc, ws)" for i inc ws
    using that by (auto simp: final_writeset_def dest!: map_of_SomeD)
  then have range: "0 \<le> i \<and> i < int n" if "final_writeset seq i \<noteq> None" for i
    using that seq by fastforce
  have V: "(\<lambda>j. if j < int n then final_versions seq k j else None) = final_versions seq k" for k
    using range by (auto simp: fun_eq_iff final_versions_def split: option.splits)
  obtain r where r: "\<And>k. final_latest (versions_of elems m k) (r k)" "\<And>k. serial seq n (contents s) k = committed (contents s k) (r k)"
    using serial_latest [of seq n _ "contents s"] range unfolding V m(3) by metis
  have "writable m"
  proof -
    have "vk k \<and> (\<forall>w. vi_value v = Some w \<longrightarrow> valid_value w)" if v: "final_versions seq k i = Some v" for k i v
    proof -
      obtain inc ws x where x: "final_writeset seq i = Some (inc, ws)" "map_of ws k = Some x" "v = new_version i inc x"
        using v by (auto simp: final_versions_def split: option.splits)
      have "writeset_ok ws" "\<forall>k \<in> fst ` set ws. vk k" using mem [OF x(1)] seq by auto
      with x(2,3) show ?thesis by (auto simp: writeset_ok_def dest!: map_of_SomeD)
    qed
    then show ?thesis by (simp add: writable_def m(3))
  qed
  from WriteLatest_run [OF m(2) this s r(1)] obtain s' where
      s': "mvs_WriteLatestToStore P lib (m, s) = Some (Inr (), (m, s'))" "inv s'"
        "contents s' = (\<lambda>k. committed (contents s k) (r k))"
    by blast
  have "go_for seq (\<lambda>(i, inc, ws). on_aux (mvs_SetWriteset lib versionList i inc ws (int n))) (NewMultiVersionStore, s) =
      Some (Inr (), (m, s))"
    using on_aux_loop [of seq "\<lambda>(i, inc, ws). mvs_SetWriteset lib versionList i inc ws (int n)" NewMultiVersionStore s] m(1)
    by (simp add: case_prod_unfold)
  with s' r(2) show ?thesis by (auto simp: go_bind_apply fun_eq_iff)
qed

end

section \<open>Read validation\<close>

text \<open>What a reader would read now, where \<open>r\<close> is the latest version before it and \<open>old\<close> the parent's value: nothing when that version is an estimate, on
  which the read aborts.\<close>

definition reads_now :: "slice \<Rightarrow> valueItem option \<Rightarrow> slice option" where
  "reads_now old r = (case r of None \<Rightarrow> Some old | Some item \<Rightarrow> if IsEstimate item then None else Some (vi_value item))"

text \<open>
  The comparison with \<open>bytes.Equal\<close> takes nil for an empty value. A key that was read as absent and now has an empty value passes, and so does a key
  that was read as empty and is absent now, unless a version that deletes it says so.
\<close>

definition nil_taken_for_empty :: "valueItem option \<Rightarrow> slice \<Rightarrow> slice \<Rightarrow> bool" where
  "nil_taken_for_empty r v w \<longleftrightarrow> v = None \<and> w = Some [] \<or> v = Some [] \<and> w = None \<and> r = None"

definition read_unchanged :: "slice \<Rightarrow> valueItem option \<Rightarrow> slice list \<Rightarrow> bool" where
  "read_unchanged old r vs \<longleftrightarrow> (\<exists>v w. vs = [v] \<and> reads_now old r = Some w \<and> (w = v \<or> nil_taken_for_empty r v w))"

lemma bs_eq_iff: "bs w = bs v \<longleftrightarrow> w = v \<or> v = None \<and> w = Some [] \<or> v = Some [] \<and> w = None"
  by (cases v; cases w) auto

lemma read_unchanged_iff:
  "read_unchanged old r [v] \<longleftrightarrow> (case r of
       None \<Rightarrow> bs old = bs v
     | Some item \<Rightarrow> \<not> IsEstimate item \<and> (if IsDeleted item then v = None else bs (vi_value item) = bs v))"
  by (auto simp: read_unchanged_def reads_now_def nil_taken_for_empty_def bs_eq_iff IsDeleted_def IsEstimate_def split: option.splits)

context mvstore_env
begin

lemma check_read_run:
  assumes "items_ok t_ok n m" "0 \<le> i" "i < n" "inv s" "vk (fst e)" "latest (below i) (versions_of elems m (fst e)) r"
  shows "\<exists>ok cs s'. check_read P (mvs_GetLatestBeforeIndex lib) i e (m, s) = Some (Inr (ok, cs), (m, s')) \<and> inv s' \<and>
    contents s' = contents s \<and> (ok \<and> cs = [] \<longleftrightarrow> (read_unchanged (contents s (fst e)) r (snd e)))"
proof (cases "length (snd e) = 1")
  case False
  then show ?thesis using assms(4) by (auto simp: check_read_def ret_def read_unchanged_def)
next
  case True
  then obtain v where v: "snd e = [v]" by (cases "snd e") auto
  have get: "mvs_GetLatestBeforeIndex lib i (Some (fst e)) m = Some (Inr r, m)"
    using versions.GetLatestBeforeIndex_wp [OF assms(1-3), of "fst e"] latest_unique [OF assms(6)] by (auto simp: wp_def)
  show ?thesis
  proof (cases r)
    case None
    obtain s' where "kv_Get P (Some (fst e)) s = Some (Inr (contents s (fst e)), s')" "inv s'" "contents s' = contents s"
      using parent.Get [OF assms(4,5)] by (auto simp: wp_def)
    with None v get show ?thesis
      by (simp add: check_read_def Let_def go_bind_apply on_aux_apply on_store_apply ret_def read_unchanged_iff)
  next
    case (Some item)
    with v get assms(4) show ?thesis
      by (auto simp: check_read_def Let_def go_bind_apply on_aux_apply ret_def read_unchanged_iff)
  qed
qed

lemma check_reads_run:
  assumes "items_ok t_ok n m" "0 \<le> i" "i < n" "inv s" "\<forall>e \<in> set rs. vk (fst e)"
    and r: "\<And>k. latest (below i) (versions_of elems m k) (r k)"
  shows "\<exists>valid cs s'. check_reads P (mvs_GetLatestBeforeIndex lib) i rs ok acc (m, s) = Some (Inr (valid, cs), (m, s')) \<and> inv s' \<and>
    contents s' = contents s \<and> (valid \<and> cs = [] \<longleftrightarrow> ok \<and> acc = [] \<and>
      (\<forall>e \<in> set rs. read_unchanged (contents s (fst e)) (r (fst e)) (snd e)))"
  using assms(4,5)
proof (induction rs arbitrary: ok acc s)
  case Nil
  have "sort (remdups acc) = [] \<longleftrightarrow> acc = []"
    by (metis remdups_eq_nil_iff set_empty set_sort)
  with Nil show ?case by (simp add: ret_def)
next
  case (Cons e rs)
  obtain ok1 cs1 s1 where 1: "check_read P (mvs_GetLatestBeforeIndex lib) i e (m, s) = Some (Inr (ok1, cs1), (m, s1))" "inv s1"
      "contents s1 = contents s" "ok1 \<and> cs1 = [] \<longleftrightarrow> (read_unchanged (contents s (fst e)) (r (fst e)) (snd e))"
    using check_read_run [OF assms(1-3) Cons.prems(1) _ r, of e] Cons.prems(2) by auto
  have "\<forall>e \<in> set rs. vk (fst e)" using Cons.prems(2) by simp
  from Cons.IH [OF 1(2) this, of "ok \<and> ok1" "acc @ cs1"]
  obtain valid cs s2 where 2: "check_reads P (mvs_GetLatestBeforeIndex lib) i rs (ok \<and> ok1) (acc @ cs1) (m, s1) =
        Some (Inr (valid, cs), (m, s2))" "inv s2" "contents s2 = contents s1"
      "valid \<and> cs = [] \<longleftrightarrow> (ok \<and> ok1) \<and> acc @ cs1 = [] \<and>
        (\<forall>e \<in> set rs. read_unchanged (contents s1 (fst e)) (r (fst e)) (snd e))"
    by blast
  have "valid \<and> cs = [] \<longleftrightarrow> ok \<and> acc = [] \<and>
      (\<forall>e \<in> set (e # rs). read_unchanged (contents s (fst e)) (r (fst e)) (snd e))"
    unfolding 2(4) 1(3) using 1(4) by auto
  with 1 2(1-3) show ?case by (simp add: go_bind_apply)
qed

end

end
