(* ===== verification/MV_KV.thy ===== *)
theory MV_KV
  imports MV_StoreLaws
begin

text \<open>
  multiversion/mvkv.go: the view of the multiversion store that one transaction runs on, with its read
  set, write set and iterate set; \<open>memIterator\<close> of multiversion/memiterator.go and multiversion/trackediterator.go.
  The operations of the multiversion store and of the parent are the arguments \<open>M\<close> and \<open>P\<close>, and both states are
  fields of the view's state.
\<close>

section \<open>The view\<close>

text \<open>\<open>vs_abortChannel\<close> is what the buffered channel holds and \<open>vs_abortCap\<close> its capacity.\<close>

record ('m, 's) VersionIndexedStore =
  vs_readset :: ReadSet
  vs_Writeset :: WriteSet
  vs_iterateset :: "iterationTracker list"
  vs_multiVersionStore :: 'm
  vs_parent :: 's
  vs_transactionIndex :: int
  vs_incarnation :: int
  vs_abortChannel :: "Abort list"
  vs_abortCap :: nat
  vs_totalTask :: int

definition NewVersionIndexedStore ::
  "'s \<Rightarrow> 'm \<Rightarrow> int \<Rightarrow> int \<Rightarrow> nat \<Rightarrow> int \<Rightarrow> ('m, 's) VersionIndexedStore" where
  "NewVersionIndexedStore parent multiVersionStore transactionIndex incarnation abortCap totalTask = \<lparr>
     vs_readset = [], vs_Writeset = [], vs_iterateset = [], vs_multiVersionStore = multiVersionStore, vs_parent = parent,
     vs_transactionIndex = transactionIndex, vs_incarnation = incarnation, vs_abortChannel = [], vs_abortCap = abortCap,
     vs_totalTask = totalTask \<rparr>"

definition on_mvs :: "('m, 'a) go \<Rightarrow> (('m, 's) VersionIndexedStore, 'a) go" where
  "on_mvs = go_zoom vs_multiVersionStore (\<lambda>m s. s\<lparr>vs_multiVersionStore := m\<rparr>)"

definition view_parent :: "('s, 'a) go \<Rightarrow> (('m, 's) VersionIndexedStore, 'a) go" where
  "view_parent = go_zoom vs_parent (\<lambda>p s. s\<lparr>vs_parent := p\<rparr>)"

text \<open>A send with a default branch: a full channel drops the value.\<close>

definition WriteAbort :: "Abort \<Rightarrow> (('m, 's) VersionIndexedStore, unit) go" where
  "WriteAbort abort = go_modify (\<lambda>s.
     if length (vs_abortChannel s) < vs_abortCap s then s\<lparr>vs_abortChannel := vs_abortChannel s @ [abort]\<rparr> else s)"

definition reads_of :: "ReadSet \<Rightarrow> bytes \<Rightarrow> slice list" where
  "reads_of rs k = (case map_of rs k of None \<Rightarrow> [] | Some vs \<Rightarrow> vs)"

definition add_read :: "bytes \<Rightarrow> slice \<Rightarrow> ReadSet \<Rightarrow> ReadSet" where
  "add_read k v rs =
     (if \<exists>r \<in> set (reads_of rs k). bs v = bs r then AList.update k (reads_of rs k) rs
      else AList.update k (reads_of rs k @ [v]) rs)"

definition UpdateReadSet :: "slice \<Rightarrow> slice \<Rightarrow> (('m, 's) VersionIndexedStore, unit) go" where
  "UpdateReadSet k v = go_modify (\<lambda>s. s\<lparr>vs_readset := add_read (bs k) v (vs_readset s)\<rparr>)"

definition parseValueAndUpdateReadset :: "slice \<Rightarrow> valueItem \<Rightarrow> (('m, 's) VersionIndexedStore, slice) go" where
  "parseValueAndUpdateReadset k mvsValue =
     (let v = if IsDeleted mvsValue then None else vi_value mvsValue in
      go_bind (UpdateReadSet k v) (\<lambda>_. ret v))"

definition mvkv_Get :: "('m, 'd) mvs_ops \<Rightarrow> ('s, 'i) kv_ops \<Rightarrow> slice \<Rightarrow> (('m, 's) VersionIndexedStore, slice) go" where
  "mvkv_Get M P k =
     go_bind (AssertValidKey k) (\<lambda>_.
     go_bind (go_read (\<lambda>s. map_of (vs_Writeset s) (bs k))) (\<lambda>cacheValue.
     case cacheValue of Some v \<Rightarrow> ret v | None \<Rightarrow>
     go_bind (go_read (\<lambda>s. map_of (vs_readset s) (bs k))) (\<lambda>readsetVal.
     case readsetVal of Some vs \<Rightarrow> (if vs = [] then go_panic index_panic else ret (hd vs)) | None \<Rightarrow>
     go_bind (go_read vs_transactionIndex) (\<lambda>index.
     go_bind (on_mvs (ms_GetLatestBeforeIndexExpansion M index k)) (\<lambda>mvsValue.
     case mvsValue of
       Some item \<Rightarrow>
         if IsEstimate item then
           let abort = NewEstimateAbort (vi_index item) in
           go_bind (WriteAbort abort) (\<lambda>_. go_panic (Panic_abort (DependentTxIdx abort) (Abort_Err abort)))
         else parseValueAndUpdateReadset k item
     | None \<Rightarrow>
         go_bind (view_parent (kv_Get P k)) (\<lambda>parentValue.
         go_bind (UpdateReadSet k parentValue) (\<lambda>_. ret parentValue)))))))"

definition mvkv_setValue :: "slice \<Rightarrow> slice \<Rightarrow> (('m, 's) VersionIndexedStore, unit) go" where
  "mvkv_setValue k v =
     go_bind (AssertValidKey k) (\<lambda>_. go_modify (\<lambda>s. s\<lparr>vs_Writeset := AList.update (bs k) v (vs_Writeset s)\<rparr>))"

definition mvkv_Delete :: "slice \<Rightarrow> (('m, 's) VersionIndexedStore, unit) go" where
  "mvkv_Delete k = go_bind (AssertValidKey k) (\<lambda>_. mvkv_setValue k None)"

definition mvkv_Has :: "('m, 'd) mvs_ops \<Rightarrow> ('s, 'i) kv_ops \<Rightarrow> slice \<Rightarrow> (('m, 's) VersionIndexedStore, bool) go" where
  "mvkv_Has M P k = go_bind (mvkv_Get M P k) (\<lambda>v. ret (v \<noteq> None))"

definition mvkv_Set :: "slice \<Rightarrow> slice \<Rightarrow> (('m, 's) VersionIndexedStore, unit) go" where
  "mvkv_Set k v = go_bind (AssertValidKey k) (\<lambda>_. mvkv_setValue k v)"

text \<open>The loop of \<open>ValidateReadset\<close> over the sorted keys; a conflict with the parent panics.\<close>

fun validate_readset ::
  "('m, 'd) mvs_ops \<Rightarrow> ('s, 'i) kv_ops \<Rightarrow> bytes list \<Rightarrow> (('m, 's) VersionIndexedStore, bool) go" where
  "validate_readset M P [] = ret True"
| "validate_readset M P (k # ks) =
     go_bind (go_read (\<lambda>s. (reads_of (vs_readset s) k, vs_transactionIndex s))) (\<lambda>(valueArr, index).
     if length valueArr \<noteq> 1 then ret False
     else let v = hd valueArr in
     go_bind (on_mvs (ms_GetLatestBeforeIndex M index (Some k))) (\<lambda>mvsValue.
     case mvsValue of
       Some item \<Rightarrow>
         if IsEstimate item then go_bind (WriteAbort (NewEstimateAbort (vi_index item))) (\<lambda>_. ret False)
         else if IsDeleted item then (if v \<noteq> None then ret False else validate_readset M P ks)
         else if bs v \<noteq> bs (vi_value item) then ret False
         else validate_readset M P ks
     | None \<Rightarrow>
         go_bind (view_parent (kv_Get P (Some k))) (\<lambda>parentValue.
         if bs parentValue \<noteq> bs v
         then go_panic (Panic_str ''we shouldn't ever have a readset conflict in parent store'')
         else validate_readset M P ks)))"

definition ValidateReadset :: "('m, 'd) mvs_ops \<Rightarrow> ('s, 'i) kv_ops \<Rightarrow> (('m, 's) VersionIndexedStore, bool) go" where
  "ValidateReadset M P =
     go_bind (go_read (\<lambda>s. sort (map fst (vs_readset s)))) (\<lambda>readsetKeys. validate_readset M P readsetKeys)"

section \<open>Iterators\<close>

text \<open>What an iterator holds: the parent's iterator, the database of collected keys and the iterator on it,
  and the position of its tracker in the iterate set, which is what the pointer to it identifies.\<close>

record ('i, 'd, 'j) mvkv_it =
  mk_parent :: 'i
  mk_items :: 'd
  mk_iter :: 'j
  mk_tracker :: nat
  mk_ascending :: bool

type_synonym ('m, 's, 'i, 'd, 'j) iterating = "('m, 's) VersionIndexedStore \<times> ('i, 'd, 'j) mvkv_it"

definition on_view :: "(('m, 's) VersionIndexedStore, 'a) go \<Rightarrow> (('m, 's, 'i, 'd, 'j) iterating, 'a) go" where
  "on_view = go_zoom fst (\<lambda>s x. (s, snd x))"

definition mvkv_parent_it :: "('s, 'i) kv_ops \<Rightarrow> ('m, 's, 'i, 'd, 'j) iterating iter_ops" where
  "mvkv_parent_it P = zoom_iter (\<lambda>x. (vs_parent (fst x), mk_parent (snd x)))
     (\<lambda>y x. ((fst x)\<lparr>vs_parent := fst y\<rparr>, (snd x)\<lparr>mk_parent := snd y\<rparr>)) (kv_iter P)"

definition mvkv_items_it :: "('d, 'j) db_ops \<Rightarrow> ('m, 's, 'i, 'd, 'j) iterating iter_ops" where
  "mvkv_items_it db = zoom_iter (\<lambda>x. (mk_items (snd x), mk_iter (snd x)))
     (\<lambda>y x. (fst x, (snd x)\<lparr>mk_items := fst y, mk_iter := snd y\<rparr>)) (db_iter db)"

definition memIterator_Value ::
  "('m, 'd) mvs_ops \<Rightarrow> ('s, 'i) kv_ops \<Rightarrow> ('d, 'j) db_ops \<Rightarrow> (('m, 's, 'i, 'd, 'j) iterating, slice) go" where
  "memIterator_Value M P db =
     go_bind (it_Key (mvkv_items_it db)) (\<lambda>k. on_view (mvkv_Get M P k))"

definition mvkv_cache_it ::
  "('m, 'd) mvs_ops \<Rightarrow> ('s, 'i) kv_ops \<Rightarrow> ('d, 'j) db_ops \<Rightarrow> ('m, 's, 'i, 'd, 'j) iterating iter_ops" where
  "mvkv_cache_it M P db = (mvkv_items_it db)\<lparr>it_Value := memIterator_Value M P db\<rparr>"

definition mvkv_merge ::
  "('m, 'd) mvs_ops \<Rightarrow> ('s, 'i) kv_ops \<Rightarrow> ('d, 'j) db_ops \<Rightarrow> bool \<Rightarrow> ('m, 's, 'i, 'd, 'j) iterating iter_ops" where
  "mvkv_merge M P db ascending =
     mvs_merge (\<lambda>k v. on_view (UpdateReadSet k v)) (mvkv_parent_it P) (mvkv_cache_it M P db) ascending"

text \<open>A method of the tracker that the iterator points to.\<close>

definition on_tracker :: "(iterationTracker \<Rightarrow> iterationTracker) \<Rightarrow> (('m, 's, 'i, 'd, 'j) iterating, unit) go" where
  "on_tracker f = go_modify (\<lambda>x. let n = mk_tracker (snd x); s = fst x in
     (s\<lparr>vs_iterateset := (vs_iterateset s)[n := f (vs_iterateset s ! n)]\<rparr>, snd x))"

definition tracked_Valid :: "('m, 's, 'i, 'd, 'j) iterating iter_ops \<Rightarrow> (('m, 's, 'i, 'd, 'j) iterating, bool) go" where
  "tracked_Valid it =
     go_bind (it_Valid it) (\<lambda>valid.
     go_bind (if \<not> valid then on_tracker (SetEarlyStopKey None)
              else go_bind (it_Key it) (\<lambda>k. on_tracker (AddKey k))) (\<lambda>_. ret valid))"

definition tracked_Key :: "('m, 's, 'i, 'd, 'j) iterating iter_ops \<Rightarrow> (('m, 's, 'i, 'd, 'j) iterating, slice) go" where
  "tracked_Key it = go_bind (it_Key it) (\<lambda>k. go_bind (on_tracker (AddKey k)) (\<lambda>_. ret k))"

definition tracked_Value :: "('m, 's, 'i, 'd, 'j) iterating iter_ops \<Rightarrow> (('m, 's, 'i, 'd, 'j) iterating, slice) go" where
  "tracked_Value it =
     go_bind (it_Key it) (\<lambda>k. go_bind (it_Value it) (\<lambda>v. go_bind (on_tracker (AddKey k)) (\<lambda>_. ret v)))"

definition tracked_Next :: "('m, 's, 'i, 'd, 'j) iterating iter_ops \<Rightarrow> (('m, 's, 'i, 'd, 'j) iterating, unit) go" where
  "tracked_Next it = go_bind (it_Key it) (\<lambda>k. go_bind (on_tracker (AddKey k)) (\<lambda>_. it_Next it))"

definition trackedIterator :: "('m, 's, 'i, 'd, 'j) iterating iter_ops \<Rightarrow> ('m, 's, 'i, 'd, 'j) iterating iter_ops" where
  "trackedIterator it = it\<lparr>it_Valid := tracked_Valid it, it_Key := tracked_Key it,
     it_Value := tracked_Value it, it_Next := tracked_Next it\<rparr>"

definition UpdateIterateSet :: "iterationTracker \<Rightarrow> (('m, 's) VersionIndexedStore, unit) go" where
  "UpdateIterateSet tracker = go_modify (\<lambda>s. s\<lparr>vs_iterateset := vs_iterateset s @ [tracker]\<rparr>)"

definition mvkv_iterator ::
  "('m, 'd) mvs_ops \<Rightarrow> ('s, 'i) kv_ops \<Rightarrow> ('d, 'j) db_ops \<Rightarrow> slice \<Rightarrow> slice \<Rightarrow> bool \<Rightarrow>
   (('m, 's) VersionIndexedStore, ('i, 'd, 'j) mvkv_it) go" where
  "mvkv_iterator M P db start end ascending =
     go_bind (go_read vs_transactionIndex) (\<lambda>index.
     go_bind (on_mvs (ms_CollectIteratorItems M index)) (\<lambda>memDB.
     go_bind (go_read (\<lambda>s. map fst (vs_Writeset s) @ map fst (vs_readset s))) (\<lambda>keys.
     go_bind (on_own memDB (add_items db keys)) (\<lambda>(_, memDB).
     go_bind (on_own memDB (open_items db start end ascending)) (\<lambda>(memIterator, memDB).
     go_bind (view_parent (open_parent P start end ascending)) (\<lambda>parent.
     go_bind (go_read (\<lambda>s. (vs_Writeset s, length (vs_iterateset s)))) (\<lambda>(writeset, n).
     go_bind (UpdateIterateSet (NewIterationTracker start end ascending writeset)) (\<lambda>_.
     ret \<lparr>mk_parent = parent, mk_items = memDB, mk_iter = memIterator, mk_tracker = n, mk_ascending = ascending\<rparr>))))))))"

definition mvkv_Iterator ::
  "('m, 'd) mvs_ops \<Rightarrow> ('s, 'i) kv_ops \<Rightarrow> ('d, 'j) db_ops \<Rightarrow> slice \<Rightarrow> slice \<Rightarrow>
   (('m, 's) VersionIndexedStore, ('i, 'd, 'j) mvkv_it) go" where
  "mvkv_Iterator M P db start end = mvkv_iterator M P db start end True"

definition mvkv_ReverseIterator ::
  "('m, 'd) mvs_ops \<Rightarrow> ('s, 'i) kv_ops \<Rightarrow> ('d, 'j) db_ops \<Rightarrow> slice \<Rightarrow> slice \<Rightarrow>
   (('m, 's) VersionIndexedStore, ('i, 'd, 'j) mvkv_it) go" where
  "mvkv_ReverseIterator M P db start end = mvkv_iterator M P db start end False"

definition mvkv_iter ::
  "('m, 'd) mvs_ops \<Rightarrow> ('s, 'i) kv_ops \<Rightarrow> ('d, 'j) db_ops \<Rightarrow> ('m, 's, 'i, 'd, 'j) iterating iter_ops" where
  "mvkv_iter M P db = dyn_iter (\<lambda>x. trackedIterator (mvkv_merge M P db (mk_ascending (snd x))))"

section \<open>Whole ranges, and publishing\<close>

definition mvkv_GetAllKeyStrsInRange ::
  "('m, 'd) mvs_ops \<Rightarrow> ('s, 'i) kv_ops \<Rightarrow> ('d, 'j) db_ops \<Rightarrow> slice \<Rightarrow> slice \<Rightarrow>
   (('m, 's) VersionIndexedStore, bytes list) go" where
  "mvkv_GetAllKeyStrsInRange M P db start end =
     with_iter (mvkv_Iterator M P db start end)
       (go_bind (iter_keys (mvkv_iter M P db) []) (\<lambda>res.
        go_bind (it_Close (mvkv_iter M P db)) (\<lambda>_. ret res)))"

definition mvkv_DeleteAll ::
  "('m, 'd) mvs_ops \<Rightarrow> ('s, 'i) kv_ops \<Rightarrow> ('d, 'j) db_ops \<Rightarrow> slice \<Rightarrow> slice \<Rightarrow>
   (('m, 's) VersionIndexedStore, string option) go" where
  "mvkv_DeleteAll M P db start end =
     go_bind (mvkv_GetAllKeyStrsInRange M P db start end) (\<lambda>keys.
     go_bind (go_for keys (\<lambda>k. mvkv_Delete (Some k))) (\<lambda>_. ret None))"

definition mvkv_GetStoreType :: "('s, 'i) kv_ops \<Rightarrow> ('m, 's) VersionIndexedStore \<Rightarrow> StoreType" where
  "mvkv_GetStoreType P s = kv_GetStoreType P (vs_parent s)"

definition mvkv_ops ::
  "('m, 'd) mvs_ops \<Rightarrow> ('s, 'i) kv_ops \<Rightarrow> ('d, 'j) db_ops \<Rightarrow>
   (('m, 's) VersionIndexedStore, ('i, 'd, 'j) mvkv_it) kv_ops" where
  "mvkv_ops M P db = \<lparr>
     kv_GetStoreType = mvkv_GetStoreType P,
     kv_Get = mvkv_Get M P,
     kv_Has = mvkv_Has M P,
     kv_Set = mvkv_Set,
     kv_Delete = mvkv_Delete,
     kv_Iterator = mvkv_Iterator M P db,
     kv_ReverseIterator = mvkv_ReverseIterator M P db,
     kv_GetAllKeyStrsInRange = mvkv_GetAllKeyStrsInRange M P db,
     kv_iter = mvkv_iter M P db \<rparr>"

definition mvkv_NewKey :: "('m, 'd) mvs_ops \<Rightarrow> bytes \<Rightarrow> int \<Rightarrow> (('m, 's) VersionIndexedStore, unit) go" where
  "mvkv_NewKey M k totalTask = on_mvs (ms_NewKey M k totalTask)"

definition WriteToMultiVersionStore :: "('m, 'd) mvs_ops \<Rightarrow> (('m, 's) VersionIndexedStore, unit) go" where
  "WriteToMultiVersionStore M =
     go_bind (go_read id) (\<lambda>s.
     go_bind (on_mvs (ms_SetWriteset M (vs_transactionIndex s) (vs_incarnation s) (vs_Writeset s) (vs_totalTask s))) (\<lambda>_.
     go_bind (if length (vs_readset s) > 0 then on_mvs (ms_SetReadset M (vs_transactionIndex s) (vs_readset s)) else ret ()) (\<lambda>_.
     if length (vs_iterateset s) > 0 then on_mvs (ms_SetIterateset M (vs_transactionIndex s) (vs_iterateset s)) else ret ())))"

definition WriteEstimatesToMultiVersionStore :: "('m, 'd) mvs_ops \<Rightarrow> (('m, 's) VersionIndexedStore, unit) go" where
  "WriteEstimatesToMultiVersionStore M =
     go_bind (go_read id) (\<lambda>s.
     on_mvs (ms_SetEstimatedWriteset M (vs_transactionIndex s) (vs_incarnation s) (vs_Writeset s)))"

text \<open>The methods that always panic.\<close>

definition mvkv_CacheWrap :: "(('m, 's) VersionIndexedStore, 'a) go" where
  "mvkv_CacheWrap = go_panic (Panic_str ''CacheWrap not supported for version indexed store'')"

definition mvkv_CacheWrapWithTrace :: "(('m, 's) VersionIndexedStore, 'a) go" where
  "mvkv_CacheWrapWithTrace = go_panic (Panic_str ''CacheWrapWithTrace not supported for version indexed store'')"

definition mvkv_GetWorkingHash :: "(('m, 's) VersionIndexedStore, 'a) go" where
  "mvkv_GetWorkingHash = go_panic (Panic_str ''should never attempt to get working hash from version indexed store'')"

definition mvkv_ResetCache :: "(('m, 's) VersionIndexedStore, unit) go" where
  "mvkv_ResetCache = go_panic (Panic_str ''implement me'')"

definition mvkv_Write :: "(('m, 's) VersionIndexedStore, unit) go" where
  "mvkv_Write = go_panic (Panic_str ''not implemented'')"

end
