(* ===== verification/MV_KVLaws.thy ===== *)
theory MV_KVLaws
  imports MV_KV
begin

text \<open>
  What a transaction sees through its view of the multiversion store: its own writes, then the values it has
  read, then the latest versions of the transactions before it, then the parent. Reads do not change what
  is seen, and an iterator visits the entries of a range in order.
\<close>

section \<open>What the view shows\<close>

text \<open>\<open>view i m k\<close> is the version of a key that the transaction with index \<open>i\<close> reads from the multiversion store, and
  \<open>contents\<close> what the parent holds. \<open>mvkv_under\<close> is what the two give, \<open>mvkv_shows\<close> what the view shows on top.\<close>

definition mvkv_under ::
  "(int \<Rightarrow> 'm \<Rightarrow> bytes \<rightharpoonup> valueItem) \<Rightarrow> ('s \<Rightarrow> bytes \<rightharpoonup> bytes) \<Rightarrow> ('m, 's) VersionIndexedStore \<Rightarrow> bytes \<rightharpoonup> bytes" where
  "mvkv_under view contents s k = (case view (vs_transactionIndex s) (vs_multiVersionStore s) k of
       Some it \<Rightarrow> (if IsDeleted it then None else vi_value it)
     | None \<Rightarrow> contents (vs_parent s) k)"

definition mvkv_shows ::
  "(int \<Rightarrow> 'm \<Rightarrow> bytes \<rightharpoonup> valueItem) \<Rightarrow> ('s \<Rightarrow> bytes \<rightharpoonup> bytes) \<Rightarrow> ('m, 's) VersionIndexedStore \<Rightarrow> bytes \<rightharpoonup> bytes" where
  "mvkv_shows view contents s k = (case map_of (vs_Writeset s) k of Some v \<Rightarrow> v | None \<Rightarrow>
     (case map_of (vs_readset s) k of Some vs \<Rightarrow> hd vs | None \<Rightarrow> mvkv_under view contents s k))"

text \<open>\<open>keys i m\<close> are the keys that the multiversion store holds for an iterator of transaction \<open>i\<close>.\<close>

definition mvkv_keys :: "(int \<Rightarrow> 'm \<Rightarrow> bytes set) \<Rightarrow> ('m, 's) VersionIndexedStore \<Rightarrow> bytes set" where
  "mvkv_keys keys s = keys (vs_transactionIndex s) (vs_multiVersionStore s)"

definition mvkv_inv ::
  "(int \<Rightarrow> 'm \<Rightarrow> bool) \<Rightarrow> (int \<Rightarrow> 'm \<Rightarrow> bytes \<rightharpoonup> valueItem) \<Rightarrow> (int \<Rightarrow> 'm \<Rightarrow> bytes set) \<Rightarrow> (bytes \<Rightarrow> bool) \<Rightarrow> ('s \<Rightarrow> bool) \<Rightarrow>
   ('s \<Rightarrow> bytes \<rightharpoonup> bytes) \<Rightarrow> ('m, 's) VersionIndexedStore \<Rightarrow> bool" where
  "mvkv_inv m_inv view keys vk p_inv contents s \<longleftrightarrow> m_inv (vs_transactionIndex s) (vs_multiVersionStore s) \<and> p_inv (vs_parent s) \<and>
     (\<forall>k it. view (vs_transactionIndex s) (vs_multiVersionStore s) k = Some it \<longrightarrow> \<not> IsEstimate it) \<and>
     (\<forall>k. k \<in> mvkv_keys keys s \<or> contents (vs_parent s) k \<noteq> None \<longrightarrow> vk k) \<and>
     (\<forall>k \<in> fst ` set (vs_Writeset s). vk k) \<and>
     (\<forall>k vs. map_of (vs_readset s) k = Some vs \<longrightarrow> vs \<noteq> [] \<and> vk k)"

section \<open>Trackers\<close>

lemma fold_AddKey:
  "trk_iteratedKeys (fold (AddKey \<circ> Some) ks t) = fold List.insert ks (trk_iteratedKeys t)"
  "trk_writeset (fold (AddKey \<circ> Some) ks t) = trk_writeset t"
  "trk_startKey (fold (AddKey \<circ> Some) ks t) = trk_startKey t"
  "trk_endKey (fold (AddKey \<circ> Some) ks t) = trk_endKey t"
  "trk_ascending (fold (AddKey \<circ> Some) ks t) = trk_ascending t"
  by (induction ks arbitrary: t) (simp_all add: AddKey_def SetEarlyStopKey_def)

lemma fold_insert_fresh: "distinct (ks @ xs) \<Longrightarrow> fold List.insert ks xs = rev ks @ xs"
  by (induction ks arbitrary: xs) (auto simp: List.insert_def)

text \<open>The tracker of a whole iteration over the keys \<open>ks\<close>.\<close>

definition whole_tracker :: "slice \<Rightarrow> slice \<Rightarrow> bool \<Rightarrow> WriteSet \<Rightarrow> bytes list \<Rightarrow> iterationTracker" where
  "whole_tracker start end asc writeset ks =
     (NewIterationTracker start end asc writeset)\<lparr>trk_iteratedKeys := rev ks\<rparr>"

lemma whole_tracker:
  assumes "distinct ks"
  shows "(SetEarlyStopKey None \<circ> fold (AddKey \<circ> Some) ks) (NewIterationTracker start end asc w) = whole_tracker start end asc w ks"
  using fold_insert_fresh [of ks "[]"] assms
  by (intro iterationTracker.equality) (simp_all add: SetEarlyStopKey_def whole_tracker_def NewIterationTracker_def fold_AddKey)

section \<open>The multiversion store as the view uses it\<close>

text \<open>\<open>m_inv i m\<close>: the transaction with index \<open>i\<close> may read \<open>m\<close>. \<open>view\<close> is the version it reads of a key and
  \<open>keys\<close> the keys that iterators must look up.\<close>

locale mv_view =
  items: database db d_inv d_contents di_inv di_items
  for db :: "('d, 'j) db_ops" and d_inv d_contents di_inv di_items +
  fixes M :: "('m, 'd) mvs_ops"
    and m_inv :: "int \<Rightarrow> 'm \<Rightarrow> bool"
    and view :: "int \<Rightarrow> 'm \<Rightarrow> bytes \<rightharpoonup> valueItem"
    and keys :: "int \<Rightarrow> 'm \<Rightarrow> bytes set"
  assumes Before: "m_inv i m \<Longrightarrow> wp (ms_GetLatestBeforeIndex M i (Some k))
      (\<lambda>r m'. r = view i m k \<and> m_inv i m' \<and> view i m' = view i m \<and> keys i m' = keys i m) m"
    and Expansion: "m_inv i m \<Longrightarrow> wp (ms_GetLatestBeforeIndexExpansion M i (Some k))
      (\<lambda>r m'. r = view i m k \<and> m_inv i m' \<and> view i m' = view i m \<and> keys i m' = keys i m) m"
    and Collect: "m_inv i m \<Longrightarrow> wp (ms_CollectIteratorItems M i)
      (\<lambda>d m'. d_inv d \<and> dom (d_contents d) = keys i m \<and> m_inv i m' \<and> view i m' = view i m \<and> keys i m' = keys i m) m"
    and view_keys: "m_inv i m \<Longrightarrow> dom (view i m) \<subseteq> keys i m"

locale mvkv_env =
  mv_view db d_inv d_contents di_inv di_items M m_inv view keys +
  parent: kvstore P vk inv contents it_inv it_items
  for db :: "('d, 'j) db_ops" and d_inv d_contents di_inv di_items
    and M :: "('m, 'd) mvs_ops" and m_inv view keys
    and P :: "('s, 'i) kv_ops" and vk inv contents it_inv it_items +
  assumes vk: "vk k \<Longrightarrow> valid_key k"
    and Get_iters: "inv s \<Longrightarrow> vk k \<Longrightarrow>
      wp (kv_Get P (Some k)) (\<lambda>r s'. r = contents s k \<and> inv s' \<and> contents s' = contents s \<and>
        (\<forall>i. it_inv (s, i) \<longrightarrow> it_inv (s', i) \<and> it_items (s', i) = it_items (s, i))) s"

text \<open>The last law is that a read of the parent leaves its open iterators alone; the view reads the parent while
  it iterates.\<close>

context mvkv_env
begin

section \<open>Reads leave it alone\<close>

abbreviation "vunder \<equiv> mvkv_under view contents"
abbreviation "vread \<equiv> mvkv_shows view contents"
abbreviation "m_keys \<equiv> mvkv_keys keys"
abbreviation "v_inv \<equiv> mvkv_inv m_inv view keys vk inv contents"

lemmas vunder_def = mvkv_under_def
lemmas vread_def = mvkv_shows_def
lemmas m_keys_def = mvkv_keys_def
lemmas v_inv_def = mvkv_inv_def

text \<open>What a read leaves alone.\<close>

definition frame where
  "frame s = (vs_Writeset s, vunder s, view (vs_transactionIndex s) (vs_multiVersionStore s), m_keys s, contents (vs_parent s), vs_iterateset s, vs_transactionIndex s, vs_incarnation s, vs_totalTask s)"

definition keeps_iters :: "'s \<Rightarrow> 's \<Rightarrow> bool" where
  "keeps_iters p p' \<longleftrightarrow> (\<forall>i. it_inv (p, i) \<longrightarrow> it_inv (p', i) \<and> it_items (p', i) = it_items (p, i))"

definition after_read :: "('m, 's) VersionIndexedStore \<Rightarrow> ('m, 's) VersionIndexedStore \<Rightarrow> bool" where
  "after_read s s' \<longleftrightarrow> v_inv s' \<and> vread s' = vread s \<and> frame s' = frame s \<and> keeps_iters (vs_parent s) (vs_parent s')"

lemma under_simps [simp]:
  "vunder (s\<lparr>vs_readset := r\<rparr>) = vunder s"
  "vunder (s\<lparr>vs_Writeset := w\<rparr>) = vunder s"
  "vunder (s\<lparr>vs_iterateset := ts\<rparr>) = vunder s"
  "m_keys (s\<lparr>vs_readset := r\<rparr>) = m_keys s"
  "m_keys (s\<lparr>vs_Writeset := w\<rparr>) = m_keys s"
  "m_keys (s\<lparr>vs_iterateset := ts\<rparr>) = m_keys s"
  by (auto simp: vunder_def m_keys_def fun_eq_iff split: option.splits)

lemma after_read_refl: "v_inv s \<Longrightarrow> after_read s s"
  by (simp add: after_read_def keeps_iters_def)

lemma map_of_add_read:
  "map_of (add_read k v rs) = (map_of rs)(k \<mapsto>
     (if \<exists>r \<in> set (reads_of rs k). bs v = bs r then reads_of rs k else reads_of rs k @ [v]))"
  by (auto simp: add_read_def update_conv fun_eq_iff)

lemma add_read_after:
  assumes "v_inv s" "vk k" "map_of (vs_readset s) k = None" "v = vunder s k"
  shows "after_read s (s\<lparr>vs_readset := add_read k v (vs_readset s)\<rparr>)"
proof -
  let ?s = "s\<lparr>vs_readset := add_read k v (vs_readset s)\<rparr>"
  have rs: "map_of (vs_readset ?s) = (map_of (vs_readset s))(k \<mapsto> [v])"
    using assms(3) by (simp add: map_of_add_read reads_of_def)
  have "vread ?s = vread s"
    using rs assms(3,4) by (auto simp: vread_def fun_eq_iff split: option.splits)
  moreover have "v_inv ?s"
    using assms(1,2) rs by (auto simp: v_inv_def split: if_splits)
  ultimately show ?thesis by (simp add: after_read_def frame_def keeps_iters_def)
qed

lemma after_read_trans: "after_read s s1 \<Longrightarrow> after_read s1 s2 \<Longrightarrow> after_read s s2"
  by (simp add: after_read_def keeps_iters_def)

lemma mvs_after:
  assumes "v_inv s" "m_inv (vs_transactionIndex s) m'"
    "view (vs_transactionIndex s) m' = view (vs_transactionIndex s) (vs_multiVersionStore s)"
    "keys (vs_transactionIndex s) m' = keys (vs_transactionIndex s) (vs_multiVersionStore s)"
  shows "after_read s (s\<lparr>vs_multiVersionStore := m'\<rparr>)"
proof -
  let ?s = "s\<lparr>vs_multiVersionStore := m'\<rparr>"
  have u: "vunder ?s = vunder s" "m_keys ?s = m_keys s"
    using assms by (auto simp: vunder_def m_keys_def fun_eq_iff split: option.splits)
  then have "vread ?s = vread s" by (auto simp: vread_def fun_eq_iff split: option.splits)
  moreover have "v_inv ?s" using assms u by (simp add: v_inv_def)
  ultimately show ?thesis using u assms(3) by (simp add: after_read_def frame_def keeps_iters_def)
qed

lemma parent_after:
  assumes "v_inv s" "inv p" "contents p = contents (vs_parent s)"
  shows "v_inv (s\<lparr>vs_parent := p\<rparr>)" "keeps_iters (vs_parent s) p \<Longrightarrow> after_read s (s\<lparr>vs_parent := p\<rparr>)"
    "vunder (s\<lparr>vs_parent := p\<rparr>) = vunder s" "m_keys (s\<lparr>vs_parent := p\<rparr>) = m_keys s"
proof -
  let ?s = "s\<lparr>vs_parent := p\<rparr>"
  show u: "vunder ?s = vunder s" "m_keys ?s = m_keys s"
    using assms by (auto simp: vunder_def m_keys_def fun_eq_iff split: option.splits)
  then have "vread ?s = vread s" by (auto simp: vread_def fun_eq_iff split: option.splits)
  moreover show "v_inv ?s" using assms u by (simp add: v_inv_def)
  ultimately show "keeps_iters (vs_parent s) p \<Longrightarrow> after_read s ?s" using u assms(3) by (simp add: after_read_def frame_def)
qed

section \<open>Reads and writes\<close>

text \<open>\<open>Get\<close> returns what the view shows, and records it unless the key is in the write set.\<close>

lemma Get_run:
  assumes s: "v_inv s" and k: "vk k"
  shows "\<exists>s'. mvkv_Get M P (Some k) s = Some (Inr (vread s k), s') \<and> after_read s s' \<and>
    (map_of (vs_Writeset s) k = None \<longrightarrow> (\<exists>vs. map_of (vs_readset s') k = Some (vread s k # vs)))"
proof (cases "map_of (vs_Writeset s) k")
  case (Some v)
  with s vk [OF k] show ?thesis
    by (auto simp: mvkv_Get_def go_bind_apply go_read_def ret_def vread_def after_read_refl)
next
  case W: None
  show ?thesis
  proof (cases "map_of (vs_readset s) k")
    case (Some vs)
    with s have "vs \<noteq> []" by (auto simp: v_inv_def)
    then obtain v ws where "vs = v # ws" by (cases vs) auto
    with Some W s vk [OF k] show ?thesis
      by (auto simp: mvkv_Get_def go_bind_apply go_read_def ret_def vread_def after_read_refl)
  next
    case R: None
    have vr: "vread s k = vunder s k" using W R by (simp add: vread_def)
    have mi: "m_inv (vs_transactionIndex s) (vs_multiVersionStore s)" using s by (simp add: v_inv_def)
    obtain m' where m: "ms_GetLatestBeforeIndexExpansion M (vs_transactionIndex s) (Some k) (vs_multiVersionStore s) =
        Some (Inr (view (vs_transactionIndex s) (vs_multiVersionStore s) k), m')"
      and m': "after_read s (s\<lparr>vs_multiVersionStore := m'\<rparr>)"
      using Expansion [OF mi, of k] mvs_after [OF s] by (auto elim!: wpE)
    let ?s1 = "s\<lparr>vs_multiVersionStore := m'\<rparr>"
    note go = mvkv_Get_def go_read_def vk [OF k] W R on_mvs_def go_bind_apply go_zoom_def m ret_def
    show ?thesis
    proof (cases "view (vs_transactionIndex s) (vs_multiVersionStore s) k")
      case (Some it)
      then have "\<not> IsEstimate it" using s by (auto simp: v_inv_def)
      moreover have u: "(if IsDeleted it then None else vi_value it) = vunder s k" using Some by (simp add: vunder_def)
      have "after_read ?s1 (?s1\<lparr>vs_readset := add_read k (vunder s k) (vs_readset ?s1)\<rparr>)"
        using add_read_after [of ?s1 k "vunder s k"] m' k R by (simp add: after_read_def frame_def)
      ultimately show ?thesis
        using Some vr m' u by (auto simp: go parseValueAndUpdateReadset_def UpdateReadSet_def go_modify_def Let_def
          map_of_add_read reads_of_def R intro: after_read_trans)
    next
      case None
      then have u: "vunder s k = contents (vs_parent s) k" by (simp add: vunder_def)
      have pi: "inv (vs_parent s)" using s by (simp add: v_inv_def)
      obtain p where p: "kv_Get P (Some k) (vs_parent s) = Some (Inr (contents (vs_parent s) k), p)" "inv p"
          "contents p = contents (vs_parent s)" "keeps_iters (vs_parent s) p"
        using Get_iters [OF pi k] by (auto simp: keeps_iters_def elim!: wpE)
      let ?s2 = "?s1\<lparr>vs_parent := p\<rparr>"
      have s2: "after_read ?s1 ?s2" using parent_after [of ?s1 p] m' p by (simp add: after_read_def)
      have "after_read ?s2 (?s2\<lparr>vs_readset := add_read k (vunder s k) (vs_readset ?s2)\<rparr>)"
        using add_read_after [of ?s2 k "vunder s k"] m' s2 k R by (simp add: after_read_def frame_def)
      then show ?thesis
        using None vr m' s2 u p(1) by (auto simp: go view_parent_def UpdateReadSet_def go_modify_def
          map_of_add_read reads_of_def R intro: after_read_trans)
    qed
  qed
qed

section \<open>Iterators\<close>

abbreviation pget :: "('m, 's, 'i, 'd, 'j) iterating \<Rightarrow> 's \<times> 'i" where
  "pget x \<equiv> (vs_parent (fst x), mk_parent (snd x))"

abbreviation cget :: "('m, 's, 'i, 'd, 'j) iterating \<Rightarrow> 'd \<times> 'j" where
  "cget x \<equiv> (mk_items (snd x), mk_iter (snd x))"

definition citems :: "('m, 's, 'i, 'd, 'j) iterating \<Rightarrow> (bytes \<times> slice) list" where
  "citems x = map (\<lambda>e. (fst e, vread (fst x) (fst e))) (di_items (cget x))"

definition it_ok :: "bool \<Rightarrow> ('m, 's, 'i, 'd, 'j) iterating \<Rightarrow> bool" where
  "it_ok asc x \<longleftrightarrow> v_inv (fst x) \<and> it_inv (pget x) \<and> d_inv (mk_items (snd x)) \<and> di_inv (cget x) \<and>
     sorted_wrt (before asc) (map fst (it_items (pget x))) \<and> list_all live (it_items (pget x)) \<and>
     sorted_wrt (before asc) (map fst (di_items (cget x))) \<and>
     (\<forall>k \<in> fst ` set (it_items (pget x)) \<union> fst ` set (di_items (cget x)). vk k) \<and>
     mk_tracker (snd x) < length (vs_iterateset (fst x))"

definition it_frame where
  "it_frame x = (frame (fst x), mk_tracker (snd x), mk_ascending (snd x))"

lemma set_tl_subset: "fst ` set (tl xs) \<subseteq> fst ` set xs"
  by (cases xs) auto

lemma it_ok_parent:
  assumes x: "it_ok asc x" and y: "inv (fst y)" "it_inv y" "contents (fst y) = contents (vs_parent (fst x))"
    and it: "it_items y = it_items (pget x) \<or> it_items y = tl (it_items (pget x))"
  shows "it_ok asc ((fst x)\<lparr>vs_parent := fst y\<rparr>, (snd x)\<lparr>mk_parent := snd y\<rparr>)"
proof -
  have "v_inv ((fst x)\<lparr>vs_parent := fst y\<rparr>)"
    using parent_after(1) [of "fst x" "fst y"] x y by (simp add: it_ok_def)
  moreover have "fst ` set (it_items y) \<subseteq> fst ` set (it_items (pget x))"
    using it set_tl_subset by (metis order_refl)
  moreover have "sorted_wrt (before asc) (map fst (it_items y))" "list_all live (it_items y)"
    using it x sorted_tl list_all_tl by (auto simp: it_ok_def)
  ultimately show ?thesis
    using x y by (auto simp: it_ok_def)
qed

lemma parent_iterator:
  "iterator (mvkv_parent_it P) (it_ok asc) (\<lambda>x. it_items (pget x)) (\<lambda>x. (vread (fst x), cget x, it_frame x))"
proof -
  have "iterator (mvkv_parent_it P) (it_ok asc) (it_items \<circ> pget) (\<lambda>x. (vread (fst x), cget x, it_frame x))"
    unfolding mvkv_parent_it_def
  proof (rule iterator_zoom [OF parent.iter])
    fix y :: "'s \<times> 'i" and x :: "('m, 's, 'i, 'd, 'j) iterating"
    assume "it_ok asc x" "inv (fst y) \<and> it_inv y" "(contents \<circ> fst) y = (contents \<circ> fst) (pget x)"
      "it_items y = it_items (pget x) \<or> it_items y = tl (it_items (pget x))"
    then show "it_ok asc ((fst x)\<lparr>vs_parent := fst y\<rparr>, (snd x)\<lparr>mk_parent := snd y\<rparr>)"
      by (intro it_ok_parent) auto
  next
    fix y :: "'s \<times> 'i" and x :: "('m, 's, 'i, 'd, 'j) iterating"
    assume "(contents \<circ> fst) y = (contents \<circ> fst) (pget x)"
    then have c: "contents (fst y) = contents (vs_parent (fst x))" by simp
    have u: "vunder ((fst x)\<lparr>vs_parent := fst y\<rparr>) = vunder (fst x)"
      using c by (auto simp: vunder_def fun_eq_iff split: option.splits)
    then have "vread ((fst x)\<lparr>vs_parent := fst y\<rparr>) = vread (fst x)"
      by (auto simp: vread_def fun_eq_iff split: option.splits)
    with u c show "(vread (fst ((fst x)\<lparr>vs_parent := fst y\<rparr>, (snd x)\<lparr>mk_parent := snd y\<rparr>)),
        cget ((fst x)\<lparr>vs_parent := fst y\<rparr>, (snd x)\<lparr>mk_parent := snd y\<rparr>),
        it_frame ((fst x)\<lparr>vs_parent := fst y\<rparr>, (snd x)\<lparr>mk_parent := snd y\<rparr>)) = (vread (fst x), cget x, it_frame x)"
      by (simp add: it_frame_def frame_def m_keys_def)
  qed (auto simp: it_ok_def v_inv_def)
  then show ?thesis by (simp add: comp_def)
qed

lemma items_iterator:
  "iterator (mvkv_items_it db) (it_ok asc) (\<lambda>x. di_items (cget x)) (\<lambda>x. (vread (fst x), pget x, it_frame x))"
proof -
  have "iterator (mvkv_items_it db) (it_ok asc) (di_items \<circ> cget) (\<lambda>x. (vread (fst x), pget x, it_frame x))"
    unfolding mvkv_items_it_def
  proof (rule iterator_zoom [OF items.db_iterator])
    fix y :: "'d \<times> 'j" and x :: "('m, 's, 'i, 'd, 'j) iterating"
    assume x: "it_ok asc x" "d_inv (fst y) \<and> di_inv y"
      and it: "di_items y = di_items (cget x) \<or> di_items y = tl (di_items (cget x))"
    have "fst ` set (di_items y) \<subseteq> fst ` set (di_items (cget x))"
      using it set_tl_subset by (metis order_refl)
    moreover have "sorted_wrt (before asc) (map fst (di_items y))"
      using it x sorted_tl by (auto simp: it_ok_def)
    ultimately show "it_ok asc (fst x, (snd x)\<lparr>mk_items := fst y, mk_iter := snd y\<rparr>)"
      using x by (auto simp: it_ok_def)
  qed (auto simp: it_ok_def it_frame_def)
  then show ?thesis by (simp add: comp_def)
qed

lemma it_ok_read:
  assumes "it_ok asc x" "after_read (fst x) s'"
  shows "it_ok asc (s', snd x)" "it_items (pget (s', snd x)) = it_items (pget x)" "citems (s', snd x) = citems x"
    "it_frame (s', snd x) = it_frame x"
  using assms by (auto simp: it_ok_def after_read_def keeps_iters_def frame_def citems_def it_frame_def)

lemma items_same:
  assumes "(vread (fst x'), pget x', it_frame x') = (vread (fst x), pget x, it_frame x)"
  shows "citems x' = map (\<lambda>e. (fst e, vread (fst x) (fst e))) (di_items (cget x'))"
    "it_items (pget x') = it_items (pget x)" "it_frame x' = it_frame x"
  using assms by (auto simp: citems_def)

lemma cache_iterator:
  "iterator (mvkv_cache_it M P db) (it_ok asc) citems (\<lambda>x. (it_items (pget x), it_frame x))"
proof
  fix x assume x: "it_ok asc x"
  show "wp (it_Valid (mvkv_cache_it M P db)) (\<lambda>b x'. b = (citems x \<noteq> []) \<and> it_ok asc x' \<and> citems x' = citems x \<and>
      (it_items (pget x'), it_frame x') = (it_items (pget x), it_frame x)) x"
    using iterator.Valid [OF items_iterator x]
    by (auto simp: mvkv_cache_it_def citems_def elim!: wp_mono)
next
  fix x k v r assume x: "it_ok asc x" and c: "citems x = (k, v) # r"
  obtain u q where d: "di_items (cget x) = (k, u) # q" and v: "v = vread (fst x) k"
    and r: "r = map (\<lambda>e. (fst e, vread (fst x) (fst e))) q"
    using c by (cases "di_items (cget x)") (auto simp: citems_def)
  show "wp (it_Key (mvkv_cache_it M P db)) (\<lambda>y x'. y = Some k \<and> it_ok asc x' \<and> citems x' = citems x \<and>
      (it_items (pget x'), it_frame x') = (it_items (pget x), it_frame x)) x"
    using iterator.Key [OF items_iterator x d] d
    by (auto simp: mvkv_cache_it_def citems_def elim!: wp_mono)
  show "wp (it_Next (mvkv_cache_it M P db)) (\<lambda>_ x'. it_ok asc x' \<and> citems x' = r \<and>
      (it_items (pget x'), it_frame x') = (it_items (pget x), it_frame x)) x"
    using iterator.Next [OF items_iterator x d] r
    by (auto simp: mvkv_cache_it_def citems_def elim!: wp_mono)
  obtain x1 where 1: "it_Key (mvkv_items_it db) x = Some (Inr (Some k), x1)" "it_ok asc x1" "di_items (cget x1) = (k, u) # q"
      "(vread (fst x1), pget x1, it_frame x1) = (vread (fst x), pget x, it_frame x)"
    using iterator.KeyE [OF items_iterator x d] by blast
  have k: "vk k" "v_inv (fst x1)" using 1(2,3) by (auto simp: it_ok_def)
  obtain s' where s': "mvkv_Get M P (Some k) (fst x1) = Some (Inr (vread (fst x1) k), s')" "after_read (fst x1) s'"
    using Get_run [OF k(2,1)] by blast
  have "memIterator_Value M P db x = Some (Inr v, (s', snd x1))"
    using 1(1,4) s'(1) v by (simp add: memIterator_Value_def go_bind_apply on_view_def go_zoom_def)
  moreover have "citems x1 = citems x" using 1(3,4) d by (auto simp: citems_def)
  ultimately show "wp (it_Value (mvkv_cache_it M P db)) (\<lambda>y x'. y = v \<and> it_ok asc x' \<and> citems x' = citems x \<and>
      (it_items (pget x'), it_frame x') = (it_items (pget x), it_frame x)) x"
    using it_ok_read [OF 1(2) s'(2)] 1(4) by (simp add: wp_def mvkv_cache_it_def)
qed

lemma update_keeps:
  assumes x: "it_ok asc x" and p: "it_items (pget x) = (k, v) # r" and k: "\<forall>e \<in> set (citems x). fst e \<noteq> k"
  shows "let x' = ((fst x)\<lparr>vs_readset := add_read k v (vs_readset (fst x))\<rparr>, snd x) in
    it_ok asc x' \<and> it_items (pget x') = it_items (pget x) \<and> citems x' = citems x \<and> it_frame x' = it_frame x"
proof -
  let ?s = "(fst x)\<lparr>vs_readset := add_read k v (vs_readset (fst x))\<rparr>"
  have vk: "vk k" using x p by (auto simp: it_ok_def)
  have inv: "v_inv (fst x)" using x by (simp add: it_ok_def)
  have "vread ?s j = vread (fst x) j" if "j \<noteq> k" for j
    using that by (auto simp: vread_def map_of_add_read split: option.splits)
  then have "citems (?s, snd x) = citems x"
    using k by (auto simp: citems_def)
  moreover have "v_inv ?s"
    using inv vk by (auto simp: v_inv_def map_of_add_read reads_of_def split: option.splits if_splits)
  ultimately show ?thesis
    using x by (auto simp: Let_def it_ok_def it_frame_def frame_def)
qed
end

sublocale mvkv_env \<subseteq> merging: mvs_overlay "mvkv_parent_it P" "mvkv_cache_it M P db" "it_ok asc" "\<lambda>x. it_items (pget x)" citems
  "\<lambda>x. (vread (fst x), cget x, it_frame x)" "\<lambda>x. (it_items (pget x), it_frame x)" asc it_frame
  "\<lambda>k v. on_view (UpdateReadSet k v)" for asc
proof -
  have o: "overlay (mvkv_parent_it P) (mvkv_cache_it M P db) (it_ok asc) (\<lambda>x. it_items (pget x)) citems
      (\<lambda>x. (vread (fst x), cget x, it_frame x)) (\<lambda>x. (it_items (pget x), it_frame x)) asc it_frame"
    using parent_iterator cache_iterator
    by (auto simp: overlay_def overlay_axioms_def it_ok_def citems_def comp_def)
  show "mvs_overlay (mvkv_parent_it P) (mvkv_cache_it M P db) (it_ok asc) (\<lambda>x. it_items (pget x)) citems
      (\<lambda>x. (vread (fst x), cget x, it_frame x)) (\<lambda>x. (it_items (pget x), it_frame x)) asc it_frame
      (\<lambda>k v. on_view (UpdateReadSet k v))"
    using update_keeps [of asc]
    by (intro mvs_overlay.intro [OF o] mvs_overlay_axioms.intro)
      (simp add: overlay.same_def [OF o] on_view_def wp_simps UpdateReadSet_def Let_def)
qed

context database
begin

lemma add_items_run:
  assumes "d_inv d" "\<forall>k \<in> set ks. k \<noteq> []"
  shows "\<exists>d'. add_items db ks d = Some (Inr (), d') \<and> d_inv d' \<and> dom (d_contents d') = dom (d_contents d) \<union> set ks"
  using assms
proof (induction ks arbitrary: d)
  case Nil
  then show ?case by (auto simp: add_items_def ret_def)
next
  case (Cons k ks)
  obtain d1 where 1: "db_Set db (Some k) (Some []) d = Some (Inr None, d1)" "d_inv d1" "d_contents d1 = (d_contents d)(k \<mapsto> [])"
    using Set [of d k "[]"] Cons.prems by (auto elim!: wpE)
  obtain d' where "add_items db ks d1 = Some (Inr (), d')" "d_inv d'" "dom (d_contents d') = dom (d_contents d1) \<union> set ks"
    using Cons.IH [OF 1(2)] Cons.prems by auto
  with 1 show ?case by (auto simp: add_items_def go_bind_apply ret_def)
qed

lemma open_items_run:
  assumes "d_inv d" "ok_range start end"
  shows "\<exists>i d'. open_items db start end asc d = Some (Inr i, d') \<and> d_inv d' \<and> di_inv (d', i) \<and>
    d_contents d' = d_contents d \<and> covers (d_contents d) start end asc (di_items (d', i))"
  using Iterator [OF assms] ReverseIterator [OF assms]
  by (cases asc) (auto simp: open_items_def go_bind_apply or_panic_def ret_def elim!: wpE)

end

context mvkv_env
begin

lemma open_parent_run:
  assumes "inv s" "ok_range start end"
  shows "\<exists>i s'. open_parent P start end asc s = Some (Inr i, s') \<and> inv s' \<and> contents s' = contents s \<and>
    it_inv (s', i) \<and> covers (contents s) start end asc (it_items (s', i))"
  using parent.Iterator [OF assms] parent.ReverseIterator [OF assms]
  by (cases asc) (auto simp: open_parent_def elim!: wpE)

definition all_keys :: "('m, 's) VersionIndexedStore \<Rightarrow> bytes set" where
  "all_keys s = m_keys s \<union> fst ` set (vs_Writeset s) \<union> fst ` set (vs_readset s)"

lemma vread_outside: "v_inv s \<Longrightarrow> k \<notin> all_keys s \<Longrightarrow> vread s k = contents (vs_parent s) k"
proof -
  assume s: "v_inv s" and k: "k \<notin> all_keys s"
  have "view (vs_transactionIndex s) (vs_multiVersionStore s) k = None"
    using view_keys [of "vs_transactionIndex s" "vs_multiVersionStore s"] s k by (auto simp: all_keys_def m_keys_def v_inv_def)
  moreover have "map_of (vs_Writeset s) k = None" "map_of (vs_readset s) k = None"
    using k by (auto simp: all_keys_def map_of_eq_None_iff)
  ultimately show ?thesis by (simp add: vread_def vunder_def)
qed

lemma shown_vk: "v_inv s \<Longrightarrow> vread s k \<noteq> None \<Longrightarrow> vk k"
proof -
  assume s: "v_inv s" and k: "vread s k \<noteq> None"
  show "vk k"
  proof (cases "k \<in> all_keys s")
    case True
    then show ?thesis
      using s by (fastforce simp: all_keys_def v_inv_def dest: weak_map_of_SomeI)
  next
    case False
    then show ?thesis using vread_outside [OF s False] s k by (simp add: v_inv_def)
  qed
qed

text \<open>Over the keys collected, and with what the view shows as their values, the merged iteration is the one of what
  the view shows.\<close>

lemma merged_view:
  assumes s: "v_inv s" and ps: "covers (contents (vs_parent s)) start end asc ps"
    and ds: "covers m start end asc ds" "dom m = all_keys s"
  shows "covers (vread s) start end asc (merged asc ps (map (\<lambda>e. (fst e, vread s (fst e))) ds))"
proof -
  let ?c = "\<lambda>k. if k \<in> all_keys s then Some (vread s k) else None"
  let ?cs = "map (\<lambda>e. (fst e, vread s (fst e))) ds"
  have m: "map_of ?cs k = (if k \<in> fst ` set ds then Some (vread s k) else None)" for k
    by (induction ds) auto
  have "fst ` set ds = {k. in_domain start end k \<and> k \<in> all_keys s}"
    using covers_keys [OF ds(1)] ds(2) by auto
  with m have "map_of ?cs k = (if in_domain start end k then ?c k else None)" for k by auto
  moreover have "sorted_wrt (before asc) (map fst ?cs)"
    using ds(1) by (simp add: covers_def comp_def)
  ultimately have "covers (overlaid ?c (contents (vs_parent s))) start end asc (merged asc ps ?cs)"
    by (intro merged_covers [OF ps]) auto
  moreover have "overlaid ?c (contents (vs_parent s)) = vread s"
    using vread_outside [OF s] by (auto simp: overlaid_def fun_eq_iff)
  ultimately show ?thesis by simp
qed

lemma mvkv_iterator_run:
  assumes s: "v_inv s" and r: "ok_range start end"
  shows "\<exists>i s'. mvkv_iterator M P db start end asc s = Some (Inr i, s') \<and> it_ok asc (s', i) \<and> mk_ascending i = asc \<and>
    mk_tracker i = length (vs_iterateset s) \<and> vread s' = vread s \<and>
    frame s' = frame (s\<lparr>vs_iterateset := vs_iterateset s @ [NewIterationTracker start end asc (vs_Writeset s)]\<rparr>) \<and>
    covers (vread s) start end asc (merged asc (it_items (pget (s', i))) (citems (s', i)))"
proof -
  have mi: "m_inv (vs_transactionIndex s) (vs_multiVersionStore s)" using s by (simp add: v_inv_def)
  obtain d m' where 1: "ms_CollectIteratorItems M (vs_transactionIndex s) (vs_multiVersionStore s) = Some (Inr d, m')"
      "d_inv d" "dom (d_contents d) = m_keys s" "after_read s (s\<lparr>vs_multiVersionStore := m'\<rparr>)"
    using Collect [OF mi] mvs_after [OF s] by (auto simp: m_keys_def elim!: wpE)
  let ?s1 = "s\<lparr>vs_multiVersionStore := m'\<rparr>"
  let ?ks = "map fst (vs_Writeset s) @ map fst (vs_readset s)"
  have vks: "\<forall>k \<in> set ?ks. vk k"
    using s by (fastforce simp: v_inv_def dest: weak_map_of_SomeI)
  then have ne: "\<forall>k \<in> set ?ks. k \<noteq> []"
    using vk by (auto simp: valid_key_def)
  obtain d2 where 2: "add_items db ?ks d = Some (Inr (), d2)" "d_inv d2" "dom (d_contents d2) = all_keys s"
    using items.add_items_run [OF 1(2) ne] 1(3) by (auto simp: all_keys_def Un_assoc)
  obtain j d3 where 3: "open_items db start end asc d2 = Some (Inr j, d3)" "d_inv d3" "di_inv (d3, j)"
      "covers (d_contents d2) start end asc (di_items (d3, j))"
    using items.open_items_run [OF 2(2) r] by blast
  have pi: "inv (vs_parent s)" using s by (simp add: v_inv_def)
  obtain q p where 4: "open_parent P start end asc (vs_parent s) = Some (Inr q, p)" "inv p" "contents p = contents (vs_parent s)"
      "it_inv (p, q)" "covers (contents (vs_parent s)) start end asc (it_items (p, q))"
    using open_parent_run [OF pi r] by blast
  let ?s2 = "?s1\<lparr>vs_parent := p\<rparr>"
  let ?t = "NewIterationTracker start end asc (vs_Writeset s)"
  let ?s3 = "?s2\<lparr>vs_iterateset := vs_iterateset s @ [?t]\<rparr>"
  let ?i = "\<lparr>mk_parent = q, mk_items = d3, mk_iter = j, mk_tracker = length (vs_iterateset s), mk_ascending = asc\<rparr>"
  have run: "mvkv_iterator M P db start end asc s = Some (Inr ?i, ?s3)"
    by (simp add: mvkv_iterator_def go_bind_apply go_read_def on_mvs_def on_own_def go_local_def go_zoom_def 1(1) 2(1) 3(1)
      view_parent_def 4(1) UpdateIterateSet_def go_modify_def ret_def)
  have i2: "v_inv ?s2" using parent_after(1) [of ?s1 p] 1(4) 4(2,3) by (simp add: after_read_def)
  have u: "vunder ?s3 = vunder s" "m_keys ?s3 = m_keys s"
    using 1(4) 4(2,3) parent_after(3,4) [of ?s1 p] by (simp_all add: after_read_def frame_def)
  then have vr: "vread ?s3 = vread s" by (auto simp: vread_def fun_eq_iff split: option.splits)
  have v3: "v_inv ?s3" using i2 by (simp add: v_inv_def)
  have "vk k" if "k \<in> all_keys s" for k
    using that s vks by (auto simp: all_keys_def v_inv_def)
  then have "\<forall>k \<in> fst ` set (it_items (p, q)) \<union> fst ` set (di_items (d3, j)). vk k"
    using covers_keys [OF 4(5)] covers_keys [OF 3(4)] 2(3) s by (auto simp: v_inv_def)
  then have "it_ok asc (?s3, ?i)"
    using v3 3 4 covers_live [OF 4(5)] by (auto simp: it_ok_def covers_def)
  moreover have "covers (vread s) start end asc (merged asc (it_items (pget (?s3, ?i))) (citems (?s3, ?i)))"
    using merged_view [OF s 4(5) 3(4) 2(3)] vr by (simp add: citems_def)
  moreover have "view (vs_transactionIndex s) m' = view (vs_transactionIndex s) (vs_multiVersionStore s)"
    using 1(4) by (simp add: after_read_def frame_def)
  ultimately show ?thesis
    using run vr u 4(3) by (auto simp: frame_def)
qed

section \<open>Tracking\<close>

abbreviation tracker :: "('m, 's, 'i, 'd, 'j) iterating \<Rightarrow> iterationTracker" where
  "tracker x \<equiv> vs_iterateset (fst x) ! mk_tracker (snd x)"

abbreviation seen :: "('m, 's, 'i, 'd, 'j) iterating \<Rightarrow> (bytes \<times> slice) list" where
  "seen x \<equiv> merged (mk_ascending (snd x)) (it_items (pget x)) (citems x)"

text \<open>What an iterator leaves alone: everything that reads leave alone but its own tracker.\<close>

definition t_frame where
  "t_frame x = (let s = fst x; n = mk_tracker (snd x) in
     (vs_Writeset s, vunder s, view (vs_transactionIndex s) (vs_multiVersionStore s), m_keys s, contents (vs_parent s), take n (vs_iterateset s), drop (Suc n) (vs_iterateset s),
      vs_transactionIndex s, n, mk_ascending (snd x)))"

definition tracking :: "(iterationTracker \<Rightarrow> iterationTracker) \<Rightarrow> ('m, 's, 'i, 'd, 'j) iterating \<Rightarrow> ('m, 's, 'i, 'd, 'j) iterating" where
  "tracking f x = ((fst x)\<lparr>vs_iterateset := (vs_iterateset (fst x))[mk_tracker (snd x) := f (tracker x)]\<rparr>, snd x)"

lemma tracking:
  assumes "it_ok asc x"
  shows "on_tracker f x = Some (Inr (), tracking f x)" "it_ok asc (tracking f x)" "seen (tracking f x) = seen x"
    "t_frame (tracking f x) = t_frame x" "tracker (tracking f x) = f (tracker x)" "mk_ascending (snd (tracking f x)) = mk_ascending (snd x)"
proof -
  have v: "vread (s\<lparr>vs_iterateset := ts\<rparr>) = vread s" for s ts
    by (auto simp: vread_def fun_eq_iff split: option.splits)
  show "on_tracker f x = Some (Inr (), tracking f x)" by (simp add: on_tracker_def go_modify_def tracking_def Let_def)
  show "it_ok asc (tracking f x)" "seen (tracking f x) = seen x" "t_frame (tracking f x) = t_frame x"
    "tracker (tracking f x) = f (tracker x)" "mk_ascending (snd (tracking f x)) = mk_ascending (snd x)"
    using assms by (auto simp: tracking_def it_ok_def v_inv_def citems_def v t_frame_def Let_def)
qed

lemma it_frame_tracker:
  assumes "it_frame x' = it_frame x"
  shows "tracker x' = tracker x" "t_frame x' = t_frame x" "mk_ascending (snd x') = mk_ascending (snd x)"
  using assms by (auto simp: it_frame_def frame_def t_frame_def Let_def)

lemma AddKey_idem: "AddKey k (AddKey k t) = AddKey k t"
  by (simp add: AddKey_def SetEarlyStopKey_def)

definition i_ok :: "('m, 's, 'i, 'd, 'j) iterating \<Rightarrow> bool" where
  "i_ok x \<longleftrightarrow> it_ok (mk_ascending (snd x)) x"

text \<open>A step of the iteration that leaves \<open>xs\<close> to visit and changes the tracker by \<open>f\<close>.\<close>

definition stepped where
  "stepped x x' xs f \<longleftrightarrow> i_ok x' \<and> seen x' = xs \<and> t_frame x' = t_frame x \<and> tracker x' = f (tracker x)"

lemma stepped_trans: "stepped x x1 xs f \<Longrightarrow> stepped x1 x2 ys g \<Longrightarrow> stepped x x2 ys (g \<circ> f)"
  by (simp add: stepped_def)

lemma stepped_same:
  assumes "it_ok (mk_ascending (snd x)) x'" "merged (mk_ascending (snd x)) (it_items (pget x')) (citems x') = xs" "it_frame x' = it_frame x"
  shows "stepped x x' xs id"
  using assms it_frame_tracker [OF assms(3)] by (simp add: stepped_def i_ok_def)

lemma stepped_tracking:
  assumes "i_ok x"
  shows "on_tracker f x = Some (Inr (), tracking f x)" "stepped x (tracking f x) (seen x) f"
  using tracking [OF assms [unfolded i_ok_def], of f] by (simp_all add: stepped_def i_ok_def)

lemma merge_iterator:
  "iterator (mvkv_merge M P db asc) (it_ok asc) (\<lambda>x. merged asc (it_items (pget x)) (citems x)) it_frame"
  unfolding mvkv_merge_def by (rule merging.merge_is_iterator)

lemma merge_Valid_step:
  assumes "i_ok x"
  obtains x' where "it_Valid (mvkv_merge M P db (mk_ascending (snd x))) x = Some (Inr (seen x \<noteq> []), x')" "stepped x x' (seen x) id"
  by (rule iterator.ValidE [OF merge_iterator assms [unfolded i_ok_def]]) (rule that [OF _ stepped_same], assumption+)

lemma merge_Key_step:
  assumes "i_ok x" "seen x = (k, v) # r"
  obtains x' where "it_Key (mvkv_merge M P db (mk_ascending (snd x))) x = Some (Inr (Some k), x')" "stepped x x' (seen x) id"
  unfolding assms(2)
  by (rule iterator.KeyE [OF merge_iterator assms(1) [unfolded i_ok_def] assms(2)]) (rule that [unfolded assms(2), OF _ stepped_same], assumption+)

lemma merge_Value_step:
  assumes "i_ok x" "seen x = (k, v) # r"
  obtains x' where "it_Value (mvkv_merge M P db (mk_ascending (snd x))) x = Some (Inr v, x')" "stepped x x' (seen x) id"
  unfolding assms(2)
  by (rule iterator.ValueE [OF merge_iterator assms(1) [unfolded i_ok_def] assms(2)]) (rule that [unfolded assms(2), OF _ stepped_same], assumption+)

lemma merge_Next_step:
  assumes "i_ok x" "seen x = (k, v) # r"
  obtains x' where "it_Next (mvkv_merge M P db (mk_ascending (snd x))) x = Some (Inr (), x')" "stepped x x' r id"
  by (rule iterator.NextE [OF merge_iterator assms(1) [unfolded i_ok_def] assms(2)]) (rule that [OF _ stepped_same], assumption+)

lemma stepped_asc: "stepped x x' xs f \<Longrightarrow> mk_ascending (snd x') = mk_ascending (snd x)"
  by (simp add: stepped_def t_frame_def Let_def)

lemma stepped_next: "stepped x x1 xs f \<Longrightarrow> stepped x1 x2 ys g \<Longrightarrow> h = g \<circ> f \<Longrightarrow> stepped x x2 ys h"
  using stepped_trans by simp

lemma iter_fields:
  "it_Valid (mvkv_iter M P db) x = tracked_Valid (mvkv_merge M P db (mk_ascending (snd x))) x"
  "it_Key (mvkv_iter M P db) x = tracked_Key (mvkv_merge M P db (mk_ascending (snd x))) x"
  "it_Value (mvkv_iter M P db) x = tracked_Value (mvkv_merge M P db (mk_ascending (snd x))) x"
  "it_Next (mvkv_iter M P db) x = tracked_Next (mvkv_merge M P db (mk_ascending (snd x))) x"
  by (simp_all add: mvkv_iter_def dyn_iter_def trackedIterator_def)

lemma Valid_step:
  assumes x: "i_ok x"
  shows "\<exists>x'. it_Valid (mvkv_iter M P db) x = Some (Inr (seen x \<noteq> []), x') \<and>
    stepped x x' (seen x) (case seen x of [] \<Rightarrow> SetEarlyStopKey None | e # _ \<Rightarrow> AddKey (Some (fst e)))"
proof -
  obtain x1 where 1: "it_Valid (mvkv_merge M P db (mk_ascending (snd x))) x = Some (Inr (seen x \<noteq> []), x1)" "stepped x x1 (seen x) id"
    using merge_Valid_step [OF x] .
  then have i1: "i_ok x1" "seen x1 = seen x" by (simp_all add: stepped_def)
  show ?thesis
  proof (cases "seen x")
    case Nil
    then show ?thesis
      using 1 i1 stepped_tracking [OF i1(1), of "SetEarlyStopKey None"] stepped_trans [OF 1(2)]
      by (fastforce simp: iter_fields tracked_Valid_def go_bind_apply ret_def)
  next
    case (Cons e r)
    then obtain x2 where 2: "it_Key (mvkv_merge M P db (mk_ascending (snd x))) x1 = Some (Inr (Some (fst e)), x2)" "stepped x1 x2 (seen x) id"
      using merge_Key_step [OF i1(1), of "fst e" "snd e" r] i1(2) stepped_asc [OF 1(2)] by auto
    then have i2: "i_ok x2" "seen x2 = seen x" by (simp_all add: stepped_def)
    have 3: "stepped x2 (tracking (AddKey (Some (fst e))) x2) (seen x) (AddKey (Some (fst e)))"
      using stepped_tracking(2) [OF i2(1), of "AddKey (Some (fst e))"] i2(2) by simp
    have "stepped x (tracking (AddKey (Some (fst e))) x2) (seen x) (AddKey (Some (fst e)))"
      by (rule stepped_next [OF 1(2) stepped_trans [OF 2(2) 3]]) simp
    with Cons 1 2 stepped_tracking(1) [OF i2(1)] show ?thesis
      by (auto simp: iter_fields tracked_Valid_def go_bind_apply ret_def)
  qed
qed

text \<open>Every other method starts by reading the key and noting it.\<close>

lemma noted:
  assumes x: "i_ok x" "seen x = (k, v) # r"
  obtains x1 where "it_Key (mvkv_merge M P db (mk_ascending (snd x))) x = Some (Inr (Some k), x1)" "i_ok x1"
    "seen x1 = (k, v) # r" "mk_ascending (snd x1) = mk_ascending (snd x)" "stepped x x1 ((k, v) # r) id"
proof -
  obtain x1 where 1: "it_Key (mvkv_merge M P db (mk_ascending (snd x))) x = Some (Inr (Some k), x1)" "stepped x x1 (seen x) id"
    using merge_Key_step [OF x] .
  show thesis
    by (rule that [OF 1(1)]) (use 1(2) x(2) stepped_asc [OF 1(2)] in \<open>simp_all add: stepped_def\<close>)
qed

lemma noted_step:
  assumes "i_ok x1" "seen x1 = (k, v) # r" "stepped x x1 ((k, v) # r) id"
  shows "on_tracker (AddKey (Some k)) x1 = Some (Inr (), tracking (AddKey (Some k)) x1)"
    "i_ok (tracking (AddKey (Some k)) x1)" "seen (tracking (AddKey (Some k)) x1) = (k, v) # r"
    "stepped x (tracking (AddKey (Some k)) x1) ((k, v) # r) (AddKey (Some k))"
    "mk_ascending (snd (tracking (AddKey (Some k)) x1)) = mk_ascending (snd x)"
proof -
  note t = stepped_tracking [OF assms(1), of "AddKey (Some k)"]
  show 4: "stepped x (tracking (AddKey (Some k)) x1) ((k, v) # r) (AddKey (Some k))"
    using stepped_trans [OF assms(3) t(2)] assms(2) by simp
  show "on_tracker (AddKey (Some k)) x1 = Some (Inr (), tracking (AddKey (Some k)) x1)" by (rule t(1))
  show "i_ok (tracking (AddKey (Some k)) x1)" "seen (tracking (AddKey (Some k)) x1) = (k, v) # r"
    "mk_ascending (snd (tracking (AddKey (Some k)) x1)) = mk_ascending (snd x)"
    using 4 stepped_asc [OF 4] by (simp_all add: stepped_def)
qed

lemma Key_step:
  assumes x: "i_ok x" "seen x = (k, v) # r"
  shows "\<exists>x'. it_Key (mvkv_iter M P db) x = Some (Inr (Some k), x') \<and> stepped x x' ((k, v) # r) (AddKey (Some k))"
proof -
  obtain x1 where 1: "it_Key (mvkv_merge M P db (mk_ascending (snd x))) x = Some (Inr (Some k), x1)" "i_ok x1"
      "seen x1 = (k, v) # r" "mk_ascending (snd x1) = mk_ascending (snd x)" "stepped x x1 ((k, v) # r) id"
    using noted [OF x] .
  then show ?thesis
    using noted_step [OF 1(2,3,5)] by (simp add: iter_fields tracked_Key_def go_bind_apply ret_def)
qed

lemma Value_step:
  assumes x: "i_ok x" "seen x = (k, v) # r"
  shows "\<exists>x'. it_Value (mvkv_iter M P db) x = Some (Inr v, x') \<and> stepped x x' ((k, v) # r) (AddKey (Some k))"
proof -
  obtain x1 where 1: "it_Key (mvkv_merge M P db (mk_ascending (snd x))) x = Some (Inr (Some k), x1)" "i_ok x1"
      "seen x1 = (k, v) # r" "mk_ascending (snd x1) = mk_ascending (snd x)" "stepped x x1 ((k, v) # r) id"
    using noted [OF x] .
  obtain x2 where 2: "it_Value (mvkv_merge M P db (mk_ascending (snd x1))) x1 = Some (Inr v, x2)" "stepped x1 x2 (seen x1) id"
    using merge_Value_step [OF 1(2,3)] .
  have 3: "i_ok x2" "seen x2 = (k, v) # r" "stepped x x2 ((k, v) # r) id"
    using 2(2) stepped_trans [OF 1(5) 2(2)] 1(3) by (simp_all add: stepped_def)
  show ?thesis
    using noted_step [OF 3] 1(1,4) 2(1) by (simp add: iter_fields tracked_Value_def go_bind_apply ret_def)
qed

lemma Next_step:
  assumes x: "i_ok x" "seen x = (k, v) # r"
  shows "\<exists>x'. it_Next (mvkv_iter M P db) x = Some (Inr (), x') \<and> stepped x x' r (AddKey (Some k))"
proof -
  obtain x1 where 1: "it_Key (mvkv_merge M P db (mk_ascending (snd x))) x = Some (Inr (Some k), x1)" "i_ok x1"
      "seen x1 = (k, v) # r" "mk_ascending (snd x1) = mk_ascending (snd x)" "stepped x x1 ((k, v) # r) id"
    using noted [OF x] .
  note 2 = noted_step [OF 1(2,3,5)]
  obtain x3 where 3: "it_Next (mvkv_merge M P db (mk_ascending (snd (tracking (AddKey (Some k)) x1)))) (tracking (AddKey (Some k)) x1) =
      Some (Inr (), x3)" "stepped (tracking (AddKey (Some k)) x1) x3 r id"
    using merge_Next_step [OF 2(2,3)] .
  show ?thesis
    using stepped_trans [OF 2(4) 3(2)] 1(1) 2(1,5) 3(1) by (simp add: iter_fields tracked_Next_def go_bind_apply)
qed

lemma mvkv_iter_iterator: "iterator (mvkv_iter M P db) i_ok seen t_frame"
proof
  fix x assume x: "i_ok x"
  show "wp (it_Valid (mvkv_iter M P db)) (\<lambda>b x'. b = (seen x \<noteq> []) \<and> i_ok x' \<and> seen x' = seen x \<and> t_frame x' = t_frame x) x"
    using Valid_step [OF x] by (auto simp: wp_def stepped_def)
next
  fix x k v r assume x: "i_ok x" "seen x = (k, v) # r"
  show "wp (it_Key (mvkv_iter M P db)) (\<lambda>y x'. y = Some k \<and> i_ok x' \<and> seen x' = seen x \<and> t_frame x' = t_frame x) x"
    using Key_step [OF x] x(2) by (auto simp: wp_def stepped_def)
  show "wp (it_Value (mvkv_iter M P db)) (\<lambda>y x'. y = v \<and> i_ok x' \<and> seen x' = seen x \<and> t_frame x' = t_frame x) x"
    using Value_step [OF x] x(2) by (auto simp: wp_def stepped_def)
  show "wp (it_Next (mvkv_iter M P db)) (\<lambda>_ x'. i_ok x' \<and> seen x' = r \<and> t_frame x' = t_frame x) x"
    using Next_step [OF x] by (auto simp: wp_def stepped_def)
qed

section \<open>Whole ranges\<close>

text \<open>The loop over a range tracks exactly the keys it visits, and ends with no early stop.\<close>

lemma iter_keys_step:
  assumes "i_ok x"
  shows "\<exists>x'. iter_keys (mvkv_iter M P db) acc x = Some (Inr (acc @ map fst (seen x)), x') \<and>
    stepped x x' [] (SetEarlyStopKey None \<circ> fold (AddKey \<circ> Some) (map fst (seen x)))"
  using assms
proof (induction "seen x" arbitrary: acc x)
  case Nil
  then show ?case
    using Valid_step [OF Nil.prems] by (subst iter_keys_unfold) (auto simp: go_bind_apply ret_def)
next
  case (Cons e r)
  obtain k v where e: "e = (k, v)" by (cases e)
  obtain x1 where 1: "it_Valid (mvkv_iter M P db) x = Some (Inr True, x1)" "stepped x x1 ((k, v) # r) (AddKey (Some k))"
    using Valid_step [OF Cons.prems] Cons.hyps(2) e by (auto split: list.splits)
  then obtain x2 where 2: "it_Key (mvkv_iter M P db) x1 = Some (Inr (Some k), x2)" "stepped x1 x2 ((k, v) # r) (AddKey (Some k))"
    using Key_step [of x1 k v r] by (auto simp: stepped_def)
  then obtain x3 where 3: "it_Next (mvkv_iter M P db) x2 = Some (Inr (), x3)" "stepped x2 x3 r (AddKey (Some k))"
    using Next_step [of x2 k v r] by (auto simp: stepped_def)
  have x3: "i_ok x3" "seen x3 = r" using 3(2) by (simp_all add: stepped_def)
  obtain x' where x': "iter_keys (mvkv_iter M P db) (acc @ [k]) x3 = Some (Inr ((acc @ [k]) @ map fst r), x')"
      "stepped x3 x' [] (SetEarlyStopKey None \<circ> fold (AddKey \<circ> Some) (map fst r))"
    using Cons.hyps(1) [of x3 "acc @ [k]"] x3 by auto
  have "stepped x x3 r (AddKey (Some k))"
    using stepped_trans [OF stepped_trans [OF 1(2) 2(2)] 3(2)] by (simp add: stepped_def AddKey_idem)
  then have "stepped x x' [] (SetEarlyStopKey None \<circ> fold (AddKey \<circ> Some) (map fst (seen x)))"
    using stepped_trans [OF _ x'(2)] by (fastforce simp: e simp flip: Cons.hyps(2) simp: stepped_def)
  moreover have "iter_keys (mvkv_iter M P db) acc x = iter_keys (mvkv_iter M P db) (acc @ [k]) x3"
    by (subst iter_keys_unfold) (simp add: go_bind_apply 1(1) 2(1) 3(1))
  ultimately show ?case using x'(1) e by (auto simp flip: Cons.hyps(2))
qed

lemma Close_run:
  assumes x: "i_ok x"
  shows "\<exists>e x'. it_Close (mvkv_iter M P db) x = Some (Inr e, x') \<and> v_inv (fst x') \<and>
    vs_Writeset (fst x') = vs_Writeset (fst x) \<and> vunder (fst x') = vunder (fst x) \<and> vs_iterateset (fst x') = vs_iterateset (fst x) \<and>
    vs_transactionIndex (fst x') = vs_transactionIndex (fst x) \<and> vs_multiVersionStore (fst x') = vs_multiVersionStore (fst x)"
proof -
  have i: "v_inv (fst x)" "inv (vs_parent (fst x))" "it_inv (pget x)" "d_inv (mk_items (snd x))" "di_inv (cget x)"
    using x by (auto simp: i_ok_def it_ok_def v_inv_def)
  obtain e p q where p: "it_Close (kv_iter P) (pget x) = Some (Inr e, (p, q))" "inv p" "contents p = contents (vs_parent (fst x))"
    using parent.Close [OF i(2,3)] by (auto elim!: wpE)
  obtain e' d j where d: "it_Close (db_iter db) (cget x) = Some (Inr e', (d, j))"
    using items.db_Close [OF i(4,5)] by (auto elim!: wpE)
  let ?x = "((fst x)\<lparr>vs_parent := p\<rparr>, (snd x)\<lparr>mk_parent := q, mk_items := d, mk_iter := j\<rparr>)"
  have "\<exists>e. it_Close (mvkv_iter M P db) x = Some (Inr e, ?x)"
    using p(1) d by (simp add: mvkv_iter_def dyn_iter_def trackedIterator_def mvkv_merge_def mvs_merge_def mvs_Close_def
      mvkv_parent_it_def mvkv_cache_it_def mvkv_items_it_def go_bind_apply go_zoom_def ret_def)
  then show ?thesis
    using parent_after [OF i(1) p(2,3)] by auto
qed

lemma range_run:
  assumes s: "v_inv s" and r: "ok_range start end"
  shows "\<exists>ks s'. mvkv_GetAllKeyStrsInRange M P db start end s = Some (Inr ks, s') \<and> v_inv s' \<and>
    sorted_wrt (<) ks \<and> set ks = {k \<in> dom (vread s). in_domain start end k} \<and>
    vs_Writeset s' = vs_Writeset s \<and> vunder s' = vunder s \<and> vs_transactionIndex s' = vs_transactionIndex s \<and>
    view (vs_transactionIndex s) (vs_multiVersionStore s') = view (vs_transactionIndex s) (vs_multiVersionStore s) \<and> m_keys s' = m_keys s \<and>
    vs_iterateset s' = vs_iterateset s @ [whole_tracker start end True (vs_Writeset s) ks]"
proof -
  obtain i s1 where 1: "mvkv_iterator M P db start end True s = Some (Inr i, s1)" "it_ok True (s1, i)" "mk_ascending i = True"
      "mk_tracker i = length (vs_iterateset s)" "vread s1 = vread s"
      "frame s1 = frame (s\<lparr>vs_iterateset := vs_iterateset s @ [NewIterationTracker start end True (vs_Writeset s)]\<rparr>)"
      "covers (vread s) start end True (merged True (it_items (pget (s1, i))) (citems (s1, i)))"
    using mvkv_iterator_run [OF s r, of True] by blast
  let ?ks = "map fst (seen (s1, i))"
  have ok: "i_ok (s1, i)" using 1(2,3) by (simp add: i_ok_def)
  have cov: "covers (vread s) start end True (seen (s1, i))" using 1(3,7) by simp
  then have sorted: "sorted_wrt (<) ?ks" by (simp add: covers_def)
  obtain x2 where 2: "iter_keys (mvkv_iter M P db) [] (s1, i) = Some (Inr ?ks, x2)"
      "stepped (s1, i) x2 [] (SetEarlyStopKey None \<circ> fold (AddKey \<circ> Some) ?ks)"
    using iter_keys_step [OF ok, of "[]"] by auto
  have x2: "i_ok x2" "t_frame x2 = t_frame (s1, i)" "tracker x2 = whole_tracker start end True (vs_Writeset s) ?ks"
    using 2(2) 1(4,6) whole_tracker [of ?ks] sorted
    by (auto simp: stepped_def frame_def strict_sorted_iff)
  obtain e x3 where 3: "it_Close (mvkv_iter M P db) x2 = Some (Inr e, x3)" "v_inv (fst x3)"
      "vs_Writeset (fst x3) = vs_Writeset (fst x2)" "vunder (fst x3) = vunder (fst x2)" "vs_iterateset (fst x3) = vs_iterateset (fst x2)"
      "vs_transactionIndex (fst x3) = vs_transactionIndex (fst x2)" "vs_multiVersionStore (fst x3) = vs_multiVersionStore (fst x2)"
    using Close_run [OF x2(1)] by blast
  have run: "mvkv_GetAllKeyStrsInRange M P db start end s = Some (Inr ?ks, fst x3)"
    using 1(1) 2(1) 3(1) by (simp add: mvkv_GetAllKeyStrsInRange_def mvkv_Iterator_def with_iter_def go_bind_apply go_local_def ret_def
      split: prod.splits)
  let ?n = "length (vs_iterateset s)"
  have n: "mk_tracker (snd x2) = ?n" "take ?n (vs_iterateset (fst x2)) = vs_iterateset s" "drop (Suc ?n) (vs_iterateset (fst x2)) = []"
      "vs_Writeset (fst x2) = vs_Writeset s" "vunder (fst x2) = vunder s" "vs_transactionIndex (fst x2) = vs_transactionIndex s"
      "view (vs_transactionIndex s) (vs_multiVersionStore (fst x2)) = view (vs_transactionIndex s) (vs_multiVersionStore s)"
      "m_keys (fst x2) = m_keys s"
    using x2(2) 1(4,6) by (auto simp: t_frame_def frame_def Let_def)
  have "?n < length (vs_iterateset (fst x2))" using x2(1) n(1) by (simp add: i_ok_def it_ok_def)
  then have "vs_iterateset (fst x2) = vs_iterateset s @ [vs_iterateset (fst x2) ! ?n]"
    using id_take_nth_drop [of ?n "vs_iterateset (fst x2)"] n(2,3) by simp
  then have "vs_iterateset (fst x2) = vs_iterateset s @ [whole_tracker start end True (vs_Writeset s) ?ks]"
    using x2(3) n(1) by simp
  with run 3 n sorted covers_keys [OF cov] show ?thesis by (auto simp: m_keys_def)
qed
end

end
