(* ===== verification/MV_Replay.thy ===== *)
theory MV_Replay
  imports MV_KVLaws
begin

text \<open>
  Validation of the iterations of a transaction: the replay of a tracked iteration answers whether the keys
  that the transaction would visit now, up to the key where it stopped, are the keys it visited then.
\<close>

section \<open>The loop on lists\<close>

text \<open>What the loop of the goroutine computes when it visits the keys \<open>ks\<close>.\<close>

fun replay_matches :: "bytes list \<Rightarrow> slice \<Rightarrow> nat \<Rightarrow> bytes list \<Rightarrow> bool" where
  "replay_matches expected early found [] \<longleftrightarrow> \<not> length expected > found"
| "replay_matches expected early found (k # ks) \<longleftrightarrow>
     length expected \<noteq> found \<and> k \<in> set expected \<and>
     (if k = bs early then \<not> length expected > Suc found else replay_matches expected early (Suc found) ks)"

text \<open>The keys up to and with the one at which the iteration stopped.\<close>

fun up_to :: "bytes \<Rightarrow> bytes list \<Rightarrow> bytes list" where
  "up_to e [] = []"
| "up_to e (k # ks) = (if k = e then [k] else k # up_to e ks)"

lemma up_to_subset: "set (up_to e ks) \<subseteq> set ks"
  by (induction ks) auto

lemma up_to_whole: "e \<notin> set ks \<Longrightarrow> up_to e ks = ks"
  by (induction ks) auto

lemma replay_matches_iff:
  assumes "distinct (past @ ks)" "distinct expected" "set past \<subseteq> set expected"
  shows "replay_matches expected early (length past) ks \<longleftrightarrow> set expected = set (past @ up_to (bs early) ks)"
  using assms
proof (induction ks arbitrary: past)
  case Nil
  have "set expected = set past \<longleftrightarrow> length expected \<le> length past"
    using Nil by (metis append_Nil2 card_seteq distinct_card finite_set order_refl)
  then show ?case by auto
next
  case (Cons k ks)
  have past: "distinct past" "k \<notin> set past" using Cons.prems(1) by auto
  have card: "card (set expected) = length expected" "card (set past) = length past"
    using past(1) Cons.prems(2) by (simp_all add: distinct_card)
  show ?case
  proof (cases "k \<in> set expected")
    case False
    then show ?thesis by auto
  next
    case True
    have sub: "set (past @ [k]) \<subseteq> set expected" using True Cons.prems(3) by simp
    have "length past < length expected"
      using psubset_card_mono [of "set expected" "set past"] True past(2) Cons.prems(3) card by fastforce
    then have ne: "length expected \<noteq> length past" by simp
    show ?thesis
    proof (cases "k = bs early")
      case True
      have "set expected = set (past @ [k]) \<longleftrightarrow> length expected \<le> Suc (length past)"
        using sub card past by (metis card_seteq distinct.simps(2) distinct_card distinct_singleton finite_set
          length_append_singleton order_refl Cons.prems(1) distinct_append rotate1.simps(2) set_rotate1 length_rotate1)
      then show ?thesis using True \<open>k \<in> set expected\<close> ne by auto
    next
      case False
      then show ?thesis
        using Cons.IH [of "past @ [k]"] Cons.prems sub \<open>k \<in> set expected\<close> ne by auto
    qed
  qed
qed

section \<open>The iterators of a replay\<close>

text \<open>What a transaction with the write set \<open>W\<close> and the index \<open>i\<close> would see now.\<close>

definition replay_shows ::
  "(int \<Rightarrow> 'm \<Rightarrow> bytes \<rightharpoonup> valueItem) \<Rightarrow> ('s \<Rightarrow> bytes \<rightharpoonup> bytes) \<Rightarrow> int \<Rightarrow> WriteSet \<Rightarrow> 'm \<times> 's \<Rightarrow> bytes \<rightharpoonup> bytes" where
  "replay_shows view contents i W ms k = (case map_of W k of Some v \<Rightarrow> v | None \<Rightarrow>
     (case view i (fst ms) k of
        Some it \<Rightarrow> (if IsDeleted it then None else vi_value it)
      | None \<Rightarrow> contents (snd ms) k))"

text \<open>The hypotheses on the versions: no estimates, and every collected key has a version below the index.\<close>

definition settled_below ::
  "(int \<Rightarrow> 'm \<Rightarrow> bytes \<rightharpoonup> valueItem) \<Rightarrow> (int \<Rightarrow> 'm \<Rightarrow> bytes set) \<Rightarrow> int \<Rightarrow> 'm \<Rightarrow> bool" where
  "settled_below view keys i m \<longleftrightarrow> (\<forall>k it. view i m k = Some it \<longrightarrow> \<not> IsEstimate it) \<and> keys i m = dom (view i m)"

context mvkv_env
begin

abbreviation rp_pget :: "('m, 's, 'i, 'd, 'j) replaying \<Rightarrow> 's \<times> 'i" where
  "rp_pget x \<equiv> (snd (fst x), rp_parent (snd x))"

abbreviation rp_cget :: "('m, 's, 'i, 'd, 'j) replaying \<Rightarrow> 'd \<times> 'j" where
  "rp_cget x \<equiv> (rp_items (snd x), rp_iter (snd x))"

abbreviation rshows :: "int \<Rightarrow> WriteSet \<Rightarrow> 'm \<times> 's \<Rightarrow> bytes \<rightharpoonup> bytes" where
  "rshows \<equiv> replay_shows view contents"

definition rp_citems :: "int \<Rightarrow> WriteSet \<Rightarrow> ('m, 's, 'i, 'd, 'j) replaying \<Rightarrow> (bytes \<times> slice) list" where
  "rp_citems i W x = map (\<lambda>e. (fst e, rshows i W (fst x) (fst e))) (di_items (rp_cget x))"

definition rp_frame :: "int \<Rightarrow> ('m, 's, 'i, 'd, 'j) replaying \<Rightarrow> (bytes \<rightharpoonup> valueItem) \<times> bytes set \<times> (bytes \<rightharpoonup> bytes)" where
  "rp_frame i x = (view i (fst (fst x)), keys i (fst (fst x)), contents (snd (fst x)))"

text \<open>The versions under the replay are no estimates, each collected key has a version or is in the write set,
  and the read cache holds what the replay shows.\<close>

definition rp_ok :: "int \<Rightarrow> WriteSet \<Rightarrow> bool \<Rightarrow> ('m, 's, 'i, 'd, 'j) replaying \<Rightarrow> bool" where
  "rp_ok i W asc x \<longleftrightarrow> m_inv i (fst (fst x)) \<and> inv (snd (fst x)) \<and> it_inv (rp_pget x) \<and>
     d_inv (rp_items (snd x)) \<and> di_inv (rp_cget x) \<and>
     sorted_wrt (before asc) (map fst (it_items (rp_pget x))) \<and> list_all live (it_items (rp_pget x)) \<and>
     sorted_wrt (before asc) (map fst (di_items (rp_cget x))) \<and>
     (\<forall>k it. view i (fst (fst x)) k = Some it \<longrightarrow> \<not> IsEstimate it) \<and>
     (\<forall>k \<in> fst ` set (di_items (rp_cget x)). k \<in> fst ` set W \<or> view i (fst (fst x)) k \<noteq> None) \<and>
     (\<forall>k v. map_of (rp_readCache (snd x)) k = Some v \<longrightarrow> map_of W k = None \<longrightarrow> v = rshows i W (fst x) k) \<and>
     rp_aborts (snd x) = []"

lemma rshows_cong:
  "view i (fst ms') = view i (fst ms) \<Longrightarrow> contents (snd ms') = contents (snd ms) \<Longrightarrow> rshows i W ms' = rshows i W ms"
  by (auto simp: replay_shows_def fun_eq_iff split: option.splits)

lemma replay_parent_iterator:
  "iterator (replay_parent P) (rp_ok i W asc) (\<lambda>x. it_items (rp_pget x)) (\<lambda>x. (fst (fst x), contents (snd (fst x)), (snd x)\<lparr>rp_parent := undefined\<rparr>))"
proof -
  have "iterator (replay_parent P) (rp_ok i W asc) (it_items \<circ> rp_pget)
      (\<lambda>x. (fst (fst x), contents (snd (fst x)), (snd x)\<lparr>rp_parent := undefined\<rparr>))"
    unfolding replay_parent_def
  proof (rule iterator_zoom [OF parent.iter])
    fix y :: "'s \<times> 'i" and x :: "('m, 's, 'i, 'd, 'j) replaying"
    assume x: "rp_ok i W asc x" "inv (fst y) \<and> it_inv y" "(contents \<circ> fst) y = (contents \<circ> fst) (rp_pget x)"
      and it: "it_items y = it_items (rp_pget x) \<or> it_items y = tl (it_items (rp_pget x))"
    have "rshows i W (fst (fst x), fst y) = rshows i W (fst x)"
      using x(3) by (intro rshows_cong) auto
    moreover have "sorted_wrt (before asc) (map fst (it_items y))" "list_all live (it_items y)"
      using it x(1) sorted_tl list_all_tl by (auto simp: rp_ok_def)
    ultimately show "rp_ok i W asc ((fst (fst x), fst y), (snd x)\<lparr>rp_parent := snd y\<rparr>)"
      using x by (simp add: rp_ok_def)
  qed (auto simp: rp_ok_def)
  then show ?thesis by (simp add: comp_def)
qed

lemma replay_items_iterator:
  "iterator (replay_items db) (rp_ok i W asc) (\<lambda>x. di_items (rp_cget x)) (\<lambda>x. (fst x, rp_parent (snd x)))"
proof -
  have "iterator (replay_items db) (rp_ok i W asc) (di_items \<circ> rp_cget) (\<lambda>x. (fst x, rp_parent (snd x)))"
    unfolding replay_items_def
  proof (rule iterator_zoom [OF items.db_iterator])
    fix y :: "'d \<times> 'j" and x :: "('m, 's, 'i, 'd, 'j) replaying"
    assume x: "rp_ok i W asc x" "d_inv (fst y) \<and> di_inv y"
      and it: "di_items y = di_items (rp_cget x) \<or> di_items y = tl (di_items (rp_cget x))"
    have "fst ` set (di_items y) \<subseteq> fst ` set (di_items (rp_cget x))"
      using it set_tl_subset by (metis order_refl)
    moreover have "sorted_wrt (before asc) (map fst (di_items y))"
      using it x sorted_tl by (auto simp: rp_ok_def)
    moreover have "\<forall>k \<in> fst ` set (di_items (rp_cget x)). k \<in> fst ` set W \<or> view i (fst (fst x)) k \<noteq> None"
      using x(1) unfolding rp_ok_def by blast
    ultimately have "\<forall>k \<in> fst ` set (di_items y). k \<in> fst ` set W \<or> view i (fst (fst x)) k \<noteq> None"
      "sorted_wrt (before asc) (map fst (di_items y))" by blast+
    then show "rp_ok i W asc (fst x, (snd x)\<lparr>rp_items := fst y, rp_iter := snd y\<rparr>)"
      using x by (simp add: rp_ok_def)
  qed (auto simp: rp_ok_def)
  then show ?thesis by (simp add: comp_def)
qed

text \<open>The value of a collected key.\<close>

lemma validation_Value:
  assumes x: "rp_ok i W asc x" and d: "di_items (rp_cget x) = (k, u) # q"
  shows "\<exists>x'. validationIterator_Value db (ms_GetLatestBeforeIndex M) i W x = Some (Inr (rshows i W (fst x) k), x') \<and>
    rp_ok i W asc x' \<and> rp_citems i W x' = rp_citems i W x \<and> rp_pget x' = rp_pget x \<and> rp_frame i x' = rp_frame i x"
proof -
  obtain x1 where "it_Key (replay_items db) x = Some (Inr (Some k), x1)" "rp_ok i W asc x1" "di_items (rp_cget x1) = (k, u) # q"
      "(fst x1, rp_parent (snd x1)) = (fst x, rp_parent (snd x))"
    using iterator.KeyE [OF replay_items_iterator x d] by blast
  then have 1: "it_Key (replay_items db) x = Some (Inr (Some k), x1)" "rp_ok i W asc x1" "di_items (rp_cget x1) = (k, u) # q"
      "fst x1 = fst x" "rp_parent (snd x1) = rp_parent (snd x)" by simp_all
  have c1: "rp_citems i W x1 = rp_citems i W x" using 1 d by (simp add: rp_citems_def)
  note go = validationIterator_Value_def go_bind_apply 1(1) ret_def go_read_def
  show ?thesis
  proof (cases "map_of W k")
    case (Some v)
    with 1 c1 show ?thesis by (auto simp: go replay_shows_def rp_frame_def)
  next
    case W: None
    show ?thesis
    proof (cases "map_of (rp_readCache (snd x1)) k")
      case (Some v)
      then have "v = rshows i W (fst x1) k" using 1(2) W by (auto simp: rp_ok_def)
      with Some W 1 c1 show ?thesis by (auto simp: go rp_frame_def)
    next
      case R: None
      obtain it where it: "view i (fst (fst x1)) k = Some it" "\<not> IsEstimate it"
        using 1(2,3) W by (force simp: rp_ok_def map_of_eq_None_iff)
      have mi: "m_inv i (fst (fst x1))" using 1(2) by (simp add: rp_ok_def)
      obtain m where m: "ms_GetLatestBeforeIndex M i (Some k) (fst (fst x1)) = Some (Inr (Some it), m)" "m_inv i m"
          "view i m = view i (fst (fst x1))" "keys i m = keys i (fst (fst x1))"
        using Before [OF mi, of k] it(1) by (auto elim!: wpE)
      have sh: "rshows i W (fst x1) k = (if IsDeleted it then None else vi_value it)"
        using W it(1) by (simp add: replay_shows_def)
      let ?v = "rshows i W (fst x1) k"
      let ?x = "((m, snd (fst x1)), (snd x1)\<lparr>rp_readCache := AList.update k ?v (rp_readCache (snd x1))\<rparr>)"
      have rc: "rshows i W (m, snd (fst x1)) = rshows i W (fst x1)"
        using m(3) by (intro rshows_cong) auto
      have "validationIterator_Value db (ms_GetLatestBeforeIndex M) i W x = Some (Inr ?v, ?x)"
        using W R it(2) m(1) sh by (simp add: go go_zoom_def go_modify_def read_cache_def)
      moreover have "rp_ok i W asc ?x"
        using 1(2) m rc by (auto simp: rp_ok_def update_conv)
      ultimately show ?thesis
        using 1 c1 rc m by (auto simp: rp_citems_def rp_frame_def)
    qed
  qed
qed

lemma replay_cache_iterator:
  "iterator (replay_cache db (ms_GetLatestBeforeIndex M) i W) (rp_ok i W asc) (rp_citems i W) (\<lambda>x. (it_items (rp_pget x), rp_frame i x))"
proof
  fix x assume x: "rp_ok i W asc x"
  show "wp (it_Valid (replay_cache db (ms_GetLatestBeforeIndex M) i W)) (\<lambda>b x'. b = (rp_citems i W x \<noteq> []) \<and> rp_ok i W asc x' \<and>
      rp_citems i W x' = rp_citems i W x \<and> (it_items (rp_pget x'), rp_frame i x') = (it_items (rp_pget x), rp_frame i x)) x"
    using iterator.Valid [OF replay_items_iterator x]
    by (auto simp: replay_cache_def rp_citems_def rp_frame_def elim!: wp_mono)
next
  fix x k v r assume x: "rp_ok i W asc x" and c: "rp_citems i W x = (k, v) # r"
  obtain u q where d: "di_items (rp_cget x) = (k, u) # q" and v: "v = rshows i W (fst x) k"
    and r: "r = map (\<lambda>e. (fst e, rshows i W (fst x) (fst e))) q"
    using c by (cases "di_items (rp_cget x)") (auto simp: rp_citems_def)
  show "wp (it_Key (replay_cache db (ms_GetLatestBeforeIndex M) i W)) (\<lambda>y x'. y = Some k \<and> rp_ok i W asc x' \<and>
      rp_citems i W x' = rp_citems i W x \<and> (it_items (rp_pget x'), rp_frame i x') = (it_items (rp_pget x), rp_frame i x)) x"
    using iterator.Key [OF replay_items_iterator x d] d
    by (auto simp: replay_cache_def rp_citems_def rp_frame_def elim!: wp_mono)
  show "wp (it_Next (replay_cache db (ms_GetLatestBeforeIndex M) i W)) (\<lambda>_ x'. rp_ok i W asc x' \<and> rp_citems i W x' = r \<and>
      (it_items (rp_pget x'), rp_frame i x') = (it_items (rp_pget x), rp_frame i x)) x"
    using iterator.Next [OF replay_items_iterator x d] r
    by (auto simp: replay_cache_def rp_citems_def rp_frame_def elim!: wp_mono)
  show "wp (it_Value (replay_cache db (ms_GetLatestBeforeIndex M) i W)) (\<lambda>y x'. y = v \<and> rp_ok i W asc x' \<and>
      rp_citems i W x' = rp_citems i W x \<and> (it_items (rp_pget x'), rp_frame i x') = (it_items (rp_pget x), rp_frame i x)) x"
    using validation_Value [OF x d] v by (auto simp: wp_def replay_cache_def)
qed

end

sublocale mvkv_env \<subseteq> replaying: mvs_overlay "replay_parent P" "replay_cache db (ms_GetLatestBeforeIndex M) i W" "rp_ok i W asc"
  "\<lambda>x. it_items (rp_pget x)" "rp_citems i W" "\<lambda>x. (fst (fst x), contents (snd (fst x)), (snd x)\<lparr>rp_parent := undefined\<rparr>)"
  "\<lambda>x. (it_items (rp_pget x), rp_frame i x)" asc "rp_frame i" "\<lambda>_ _. ret ()" for i W asc
proof -
  have same: "rp_citems i W x' = rp_citems i W x" "rp_frame i x' = rp_frame i x"
    if "(fst (fst x'), contents (snd (fst x')), (snd x')\<lparr>rp_parent := undefined\<rparr>) = (fst (fst x), contents (snd (fst x)), (snd x)\<lparr>rp_parent := undefined\<rparr>)"
    for x x' :: "('m, 's, 'i, 'd, 'j) replaying"
  proof -
    have "rshows i W (fst x') = rshows i W (fst x)" using that by (intro rshows_cong) auto
    moreover have "rp_cget x' = rp_cget x"
      using that by (cases "snd x"; cases "snd x'") simp
    ultimately show "rp_citems i W x' = rp_citems i W x" "rp_frame i x' = rp_frame i x"
      using that by (simp_all add: rp_citems_def rp_frame_def)
  qed
  have o: "overlay (replay_parent P) (replay_cache db (ms_GetLatestBeforeIndex M) i W) (rp_ok i W asc) (\<lambda>x. it_items (rp_pget x)) (rp_citems i W)
      (\<lambda>x. (fst (fst x), contents (snd (fst x)), (snd x)\<lparr>rp_parent := undefined\<rparr>)) (\<lambda>x. (it_items (rp_pget x), rp_frame i x)) asc (rp_frame i)"
  proof (intro overlay.intro overlay_axioms.intro replay_parent_iterator replay_cache_iterator)
    fix x assume x: "rp_ok i W asc x"
    then show "sorted_wrt (before asc) (map fst (it_items (rp_pget x)))" "list_all live (it_items (rp_pget x))"
      "sorted_wrt (before asc) (map fst (rp_citems i W x))"
      by (auto simp: rp_ok_def rp_citems_def comp_def)
  next
    fix x x' :: "('m, 's, 'i, 'd, 'j) replaying"
    assume "(fst (fst x'), contents (snd (fst x')), (snd x')\<lparr>rp_parent := undefined\<rparr>) =
      (fst (fst x), contents (snd (fst x)), (snd x)\<lparr>rp_parent := undefined\<rparr>)"
    from same [OF this] show "rp_citems i W x' = rp_citems i W x \<and> rp_frame i x' = rp_frame i x" ..
  qed simp_all
  show "mvs_overlay (replay_parent P) (replay_cache db (ms_GetLatestBeforeIndex M) i W) (rp_ok i W asc) (\<lambda>x. it_items (rp_pget x)) (rp_citems i W)
      (\<lambda>x. (fst (fst x), contents (snd (fst x)), (snd x)\<lparr>rp_parent := undefined\<rparr>)) (\<lambda>x. (it_items (rp_pget x), rp_frame i x)) asc (rp_frame i)
      (\<lambda>_ _. ret ())"
    by (intro mvs_overlay.intro [OF o] mvs_overlay_axioms.intro) (simp add: overlay.same_def [OF o] wp_simps)
qed

context iterator
begin

lemma validate_loop_run:
  assumes "I x"
  shows "\<exists>x'. validate_loop ops expected early found x = Some (Inr (replay_matches expected early found (map fst (items x))), x') \<and>
    I x' \<and> obs x' = obs x"
  using assms
proof (induction "items x" arbitrary: found x)
  case Nil
  obtain x1 where "it_Valid ops x = Some (Inr False, x1)" "I x1" "obs x1 = obs x"
    using ValidE [OF Nil.prems] Nil.hyps by (metis list.simps(3))
  then show ?case
    by (subst validate_loop.simps) (simp add: go_bind_apply ret_def flip: Nil.hyps)
next
  case (Cons e r)
  obtain k v where e: "items x = (k, v) # r" using Cons.hyps(2) by (metis surj_pair)
  obtain x1 where 1: "it_Valid ops x = Some (Inr True, x1)" "I x1" "items x1 = (k, v) # r" "obs x1 = obs x"
    using ValidE [OF Cons.prems] e by auto
  obtain x2 where 2: "it_Key ops x1 = Some (Inr (Some k), x2)" "I x2" "items x2 = (k, v) # r" "obs x2 = obs x1"
    using KeyE [OF 1(2,3)] by blast
  obtain x3 where 3: "it_Next ops x2 = Some (Inr (), x3)" "I x3" "items x3 = r" "obs x3 = obs x2"
    using NextE [OF 2(2,3)] by blast
  obtain x' where x': "validate_loop ops expected early (Suc found) x3 =
      Some (Inr (replay_matches expected early (Suc found) (map fst r)), x')" "I x'" "obs x' = obs x3"
    using Cons.hyps(1) [of x3 "Suc found"] 3 by auto
  have "validate_loop ops expected early found x = (if length expected = found then Some (Inr False, x1)
      else if k \<notin> set expected then Some (Inr False, x2)
      else if k = bs early then Some (Inr (\<not> length expected > Suc found), x2)
      else validate_loop ops expected early (Suc found) x3)"
    by (subst validate_loop.simps) (simp add: go_bind_apply ret_def 1(1) 2(1) 3(1), linarith)
  with x' 1(2,4) 2(2,4) 3(4) show ?case
    unfolding e by (cases "length expected = found"; cases "k \<in> set expected"; cases "k = bs early") simp_all
qed

end

context mvkv_env
begin

lemma replay_iterator:
  "iterator (mvs_merge (\<lambda>_ _. ret ()) (replay_parent P) (replay_cache db (ms_GetLatestBeforeIndex M) i W) asc) (rp_ok i W asc)
     (\<lambda>x. merged asc (it_items (rp_pget x)) (rp_citems i W x)) (rp_frame i)"
  by (rule replaying.merge_is_iterator)

lemma replay_Close:
  assumes "rp_ok i W asc x"
  shows "\<exists>e x'. it_Close (mvs_merge (\<lambda>_ _. ret ()) (replay_parent P) (replay_cache db (ms_GetLatestBeforeIndex M) i W) asc) x = Some (Inr e, x') \<and>
    m_inv i (fst (fst x')) \<and> inv (snd (fst x')) \<and> rp_frame i x' = rp_frame i x \<and> rp_aborts (snd x') = []"
proof -
  have i: "inv (snd (fst x))" "it_inv (rp_pget x)" "d_inv (rp_items (snd x))" "di_inv (rp_cget x)"
    using assms by (auto simp: rp_ok_def)
  obtain e p q where p: "it_Close (kv_iter P) (rp_pget x) = Some (Inr e, (p, q))" "inv p" "contents p = contents (snd (fst x))"
    using parent.Close [OF i(1,2)] by (auto elim!: wpE)
  obtain e' d j where d: "it_Close (db_iter db) (rp_cget x) = Some (Inr e', (d, j))"
    using items.db_Close [OF i(3,4)] by (auto elim!: wpE)
  let ?x = "((fst (fst x), p), (snd x)\<lparr>rp_parent := q, rp_items := d, rp_iter := j\<rparr>)"
  have "\<exists>e. it_Close (mvs_merge (\<lambda>_ _. ret ()) (replay_parent P) (replay_cache db (ms_GetLatestBeforeIndex M) i W) asc) x = Some (Inr e, ?x)"
    using p(1) d by (simp add: mvs_merge_def mvs_Close_def replay_parent_def replay_cache_def replay_items_def go_bind_apply go_zoom_def ret_def)
  then show ?thesis using assms p(2,3) by (auto simp: rp_ok_def rp_frame_def)
qed

lemma replay_merged:
  assumes ps: "covers (contents (snd ms)) start end asc ps" and ds: "covers m start end asc ds" "dom m = keys i (fst ms) \<union> fst ` set W"
    and mi: "m_inv i (fst ms)"
  shows "covers (rshows i W ms) start end asc (merged asc ps (map (\<lambda>e. (fst e, rshows i W ms (fst e))) ds))"
proof -
  let ?s = "(NewVersionIndexedStore (snd ms) (fst ms) i 0 0 0)\<lparr>vs_Writeset := W\<rparr>"
  let ?c = "\<lambda>k. if k \<in> dom m then Some (rshows i W ms k) else None"
  let ?cs = "map (\<lambda>e. (fst e, rshows i W ms (fst e))) ds"
  have "map_of ?cs k = (if k \<in> fst ` set ds then Some (rshows i W ms k) else None)" for k
    by (induction ds) auto
  then have "map_of ?cs k = (if in_domain start end k then ?c k else None)" for k
    using covers_keys [OF ds(1)] by auto
  moreover have "sorted_wrt (before asc) (map fst ?cs)" using ds(1) by (simp add: covers_def comp_def)
  ultimately have "covers (overlaid ?c (contents (snd ms))) start end asc (merged asc ps ?cs)"
    by (intro merged_covers [OF ps]) auto
  moreover have "rshows i W ms k = contents (snd ms) k" if "k \<notin> dom m" for k
  proof -
    have "map_of W k = None" using that ds(2) by (auto simp: map_of_eq_None_iff)
    moreover have "view i (fst ms) k = None" using that ds(2) view_keys [OF mi] by auto
    ultimately show ?thesis by (simp add: replay_shows_def)
  qed
  then have "overlaid ?c (contents (snd ms)) = rshows i W ms" by (auto simp: overlaid_def fun_eq_iff)
  ultimately show ?thesis by simp
qed

lemma validate_tracker_run:
  assumes mi: "m_inv i m" and si: "inv s" and b: "settled_below view keys i m"
    and W: "\<forall>k \<in> fst ` set (trk_writeset t). k \<noteq> []" and r: "ok_range (trk_startKey t) (trk_endKey t)"
    and ks: "covers (rshows i (trk_writeset t) (m, s)) (trk_startKey t) (trk_endKey t) (trk_ascending t) kvs"
  shows "wp (validate_tracker abort_first P db (ms_GetLatestBeforeIndex M) (ms_CollectIteratorItems M) i t)
    (\<lambda>b ms'. b = replay_matches (trk_iteratedKeys t) (trk_earlyStopKey t) 0 (map fst kvs) \<and> m_inv i (fst ms') \<and> inv (snd ms') \<and>
      view i (fst ms') = view i m \<and> keys i (fst ms') = keys i m \<and> contents (snd ms') = contents s) (m, s)"
proof -
  let ?W = "trk_writeset t" and ?asc = "trk_ascending t"
  obtain d m1 where 1: "ms_CollectIteratorItems M i m = Some (Inr d, m1)" "d_inv d" "dom (d_contents d) = keys i m"
      "m_inv i m1" "view i m1 = view i m" "keys i m1 = keys i m"
    using Collect [OF mi] by (auto elim!: wpE)
  obtain d2 where 2: "add_items db (map fst ?W) d = Some (Inr (), d2)" "d_inv d2" "dom (d_contents d2) = keys i m \<union> fst ` set ?W"
    using items.add_items_run [OF 1(2), of "map fst ?W"] W 1(3) by auto
  obtain j d3 where 3: "open_items db (trk_startKey t) (trk_endKey t) ?asc d2 = Some (Inr j, d3)" "d_inv d3" "di_inv (d3, j)"
      "covers (d_contents d2) (trk_startKey t) (trk_endKey t) ?asc (di_items (d3, j))"
    using items.open_items_run [OF 2(2) r] by blast
  obtain q p where 4: "open_parent P (trk_startKey t) (trk_endKey t) ?asc s = Some (Inr q, p)" "inv p" "contents p = contents s"
      "it_inv (p, q)" "covers (contents s) (trk_startKey t) (trk_endKey t) ?asc (it_items (p, q))"
    using open_parent_run [OF si r] by blast
  let ?x = "((m1, p), \<lparr>rp_parent = q, rp_items = d3, rp_iter = j, rp_readCache = [], rp_aborts = []\<rparr>)"
  have "\<forall>k \<in> fst ` set (di_items (d3, j)). k \<in> fst ` set ?W \<or> view i m1 k \<noteq> None"
    using covers_keys [OF 3(4)] 2(3) b 1(5) by (auto simp: settled_below_def dom_def)
  then have ok: "rp_ok i ?W ?asc ?x"
    using 1 3 4 b covers_live [OF 4(5)] by (auto simp: rp_ok_def settled_below_def covers_def)
  have sh: "rshows i ?W (m1, p) = rshows i ?W (m, s)" using 1(5) 4(3) by (intro rshows_cong) auto
  have "covers (rshows i ?W (m, s)) (trk_startKey t) (trk_endKey t) ?asc (merged ?asc (it_items (rp_pget ?x)) (rp_citems i ?W ?x))"
    using replay_merged [of "(m, s)", OF _ 3(4)] 4(5) 2(3) mi sh by (simp add: rp_citems_def)
  then have kvs: "merged ?asc (it_items (rp_pget ?x)) (rp_citems i ?W ?x) = kvs"
    using covers_unique ks by blast
  let ?merge = "mvs_merge (\<lambda>_ _. ret ()) (replay_parent P) (replay_cache db (ms_GetLatestBeforeIndex M) i ?W) ?asc"
  obtain x5 where 5: "validate_loop ?merge (trk_iteratedKeys t) (trk_earlyStopKey t) 0 ?x =
      Some (Inr (replay_matches (trk_iteratedKeys t) (trk_earlyStopKey t) 0 (map fst kvs)), x5)" "rp_ok i ?W ?asc x5" "rp_frame i x5 = rp_frame i ?x"
    using iterator.validate_loop_run [OF replay_iterator ok, of "trk_iteratedKeys t" "trk_earlyStopKey t" 0] kvs by auto
  obtain e x6 where 6: "it_Close ?merge x5 = Some (Inr e, x6)" "m_inv i (fst (fst x6))" "inv (snd (fst x6))" "rp_frame i x6 = rp_frame i x5"
      "rp_aborts (snd x6) = []"
    using replay_Close [OF 5(2)] by blast
  have "validate_tracker abort_first P db (ms_GetLatestBeforeIndex M) (ms_CollectIteratorItems M) i t (m, s) =
      Some (Inr (replay_matches (trk_iteratedKeys t) (trk_earlyStopKey t) 0 (map fst kvs)), fst x6)"
    using 1(1) 2(1) 3(1) 4(1) 5(1) 6(1,5)
    by (cases x6) (auto simp: validate_tracker_def run_replay_def on_aux_apply on_store_apply on_own_def go_bind_apply go_local_def go_zoom_def
      ret_def Let_def select_result_def split: prod.splits)
  then show ?thesis
    using 5(3) 6(2-4) 1(5,6) 4(3) by (simp add: wp_def rp_frame_def)
qed

end

end
