(* ===== verification/MV_Props.thy ===== *)
theory MV_Props
  imports MV_StoreLaws
begin

text \<open>
  The properties of the multiversion store and their instances on the reference libraries.
\<close>

interpretation ref_mvs: mvstore_env ref_gbtree "sorted_wrt valueItem_Less" "\<lambda>t. t"
  ref_kv valid_key ref_d_inv map_of "\<lambda>_. True" ref_di_items
  by (intro mvstore_env.intro ref_versions.gbtree_lib_axioms ref_cache.parent.kvstore_axioms)

section \<open>Serial equivalence\<close>

text \<open>C1. Running a block with the multiversion store is running it serially. Whatever the order in which the
  transactions set their write sets, and however often a transaction is run again and replaces its write
  set, writing the latest versions to the parent ends without a panic in the state that applying the
  final write set of each transaction, in the order of the indices, gives.\<close>

theorem multiversion_serial:
  assumes "gbtree_lib lib t_ok elems" "kvstore P vk p_inv contents it_inv it_items"
    and "\<forall>(i, inc, ws) \<in> set seq. 0 \<le> i \<and> i < int n \<and> writeset_ok ws \<and> (\<forall>k \<in> fst ` set ws. vk k)" "p_inv s"
  shows "wp (go_bind (go_for seq (\<lambda>(i, inc, ws). on_aux (mvs_SetWriteset lib versionList i inc ws (int n))))
      (\<lambda>_. mvs_WriteLatestToStore P lib))
    (\<lambda>_ x. p_inv (snd x) \<and> contents (snd x) = serial seq n (contents s)) (NewMultiVersionStore, s)"
  using mvstore_env.serial_run [OF mvstore_env.intro [OF assms(1,2)] assms(3,4)] by (auto simp: wp_def)

theorem multiversion_serial_witness:
  "wp (go_bind (go_for [(1, 0, [([5], Some [2])]), (0, 0, [([5], Some [1]), ([6], Some [1])]), (1, 1, [([6], None)])]
        (\<lambda>(i, inc, ws). on_aux (mvs_SetWriteset ref_gbtree '''' i inc ws (int 2))))
      (\<lambda>_. mvs_WriteLatestToStore ref_kv ref_gbtree))
    (\<lambda>_ x. ref_d_inv (snd x) \<and> map_of (snd x) =
      serial [(1, 0, [([5], Some [2])]), (0, 0, [([5], Some [1]), ([6], Some [1])]), (1, 1, [([6], None)])] 2 (map_of [([7], [9])]))
    (NewMultiVersionStore, [([7], [9])])"
  by (rule multiversion_serial [OF ref_versions.gbtree_lib_axioms ref_cache.parent.kvstore_axioms])
    (simp_all add: ref_d_inv_def writeset_ok_def valid_key_def valid_value_def MaxKeyLength_def MaxValueLength_def)

section \<open>Reads and their validation\<close>

text \<open>C22. A transaction reads the version written by the transaction with the greatest index below its own,
  whatever other transactions above it have written, and the read changes nothing.\<close>

theorem mvs_read_latest:
  assumes "gbtree_lib lib t_ok elems" "mvs_inv t_ok elems n s" "0 \<le> i" "i < n"
  shows "wp (mvs_GetLatestBeforeIndex lib i (Some k)) (\<lambda>r s'. s' = s \<and> latest (below i) (versions_of elems s k) r) s"
  using gbtree_lib.GetLatestBeforeIndex_wp [OF assms(1) _ assms(3,4)] assms(2) by (simp add: mvs_inv_def)

definition demo_mvs :: "valueItem list mvStore" where
  "demo_mvs = \<lparr>multiVersionMap = [([5], List_value [Some (NewValueItem 0 0 (Some [1])), None, Some (NewEstimateItem 2 0), None])],
     txWritesetKeys = [(0, [[5]]), (2, [[5]])], txReadSets = [(1, [([5], [Some [1]])])], txIterateSets = []\<rparr>"

lemma demo_list_vers:
  "list_vers [Some a, None, Some b, None] j = (if j = 0 then Some a else if j = 2 then Some b else None)"
proof -
  consider "j < 0" | "j = 0" | "j = 1" | "j = 2" | "j = 3" | "4 \<le> j" by linarith
  then show ?thesis by cases (simp_all add: list_vers_def)
qed

lemma demo_mvs_inv: "mvs_inv (sorted_wrt valueItem_Less) (\<lambda>t. t) 4 demo_mvs"
proof -
  have "list_inv [Some (NewValueItem 0 0 (Some [1])), None, Some (NewEstimateItem 2 0), None]"
    by (auto simp: list_inv_def less_Suc_eq numeral_eq_Suc nth_Cons')
  then show ?thesis
    by (auto simp: mvs_inv_def items_ok_def keys_recorded_def demo_mvs_def versions_of_def demo_list_vers split: if_splits)
qed

theorem mvs_read_latest_witness:
  "wp (mvs_GetLatestBeforeIndex ref_gbtree 1 (Some [5])) (\<lambda>r s'. s' = demo_mvs \<and>
    latest (below 1) (versions_of (\<lambda>t. t) demo_mvs [5]) r) demo_mvs"
  by (rule mvs_read_latest [OF ref_versions.gbtree_lib_axioms demo_mvs_inv]) simp_all

text \<open>C4. Validating the read set of a transaction reports it valid and without conflicts if and only if
  every key was read with one value, and that value is the one the transaction would read now: the latest
  version below its index, which is no estimate, or else the parent's value. One case is excepted, in which the validation is too lenient: it takes nil for an empty
  value, so that a key read as absent passes when it has an empty value now, and a key read as empty passes when there is neither a version nor a value of the parent.\<close>

theorem readset_valid_iff:
  assumes "gbtree_lib lib t_ok elems" "kvstore P vk p_inv contents it_inv it_items"
    and "mvs_inv t_ok elems n m" "0 \<le> i" "i < n" "p_inv s"
    and "map_of (txReadSets m) i = Some rs" "\<forall>e \<in> set rs. vk (fst e)"
    and "\<And>k. latest (below i) (versions_of elems m k) (r k)"
  shows "wp (mvs_checkReadsetAtIndex P lib i) (\<lambda>(valid, conflicts) x. contents (snd x) = contents s \<and>
    (valid \<and> conflicts = [] \<longleftrightarrow> (\<forall>e \<in> set rs. read_unchanged (contents s (fst e)) (r (fst e)) (snd e)))) (m, s)"
proof -
  have ok: "items_ok t_ok n m" using assms(3) by (simp add: mvs_inv_def)
  obtain v cs s' where "check_reads P (mvs_GetLatestBeforeIndex lib) i rs True [] (m, s) = Some (Inr (v, cs), m, s')"
    "contents s' = contents s"
    "v \<and> cs = [] \<longleftrightarrow> (\<forall>e \<in> set rs. read_unchanged (contents s (fst e)) (r (fst e)) (snd e))"
    using mvstore_env.check_reads_run [OF mvstore_env.intro [OF assms(1,2)] ok assms(4-6,8,9), of True "[]"] by auto
  then show ?thesis
    using assms(7) by (simp add: mvs_checkReadsetAtIndex_def mvs_GetReadset_def on_aux_apply go_bind_apply go_read_def wp_def)
qed

theorem readset_valid_iff_witness:
  "wp (mvs_checkReadsetAtIndex ref_kv ref_gbtree 1) (\<lambda>(valid, conflicts) x. valid \<and> conflicts = []) (demo_mvs, [])"
proof -
  let ?r = "\<lambda>k. if k = [5] then Some (NewValueItem 0 0 (Some [1])) else None :: valueItem option"
  have r: "latest (below 1) (versions_of (\<lambda>t. t) demo_mvs k) (?r k)" for k
    by (auto simp: versions_of_def demo_mvs_def latest_def demo_list_vers intro!: exI [of _ 0] split: if_splits)
  have rs: "map_of (txReadSets demo_mvs) 1 = Some [([5], [Some [1]])]" by (simp add: demo_mvs_def)
  have "wp (mvs_checkReadsetAtIndex ref_kv ref_gbtree 1) (\<lambda>(valid, conflicts) x. map_of (snd x) = map_of [] \<and>
      (valid \<and> conflicts = [] \<longleftrightarrow> (\<forall>e \<in> set [([5 :: 8 word], [Some [1]])]. read_unchanged (map_of [] (fst e)) (?r (fst e)) (snd e))))
      (demo_mvs, [])"
    by (rule readset_valid_iff [OF ref_versions.gbtree_lib_axioms ref_cache.parent.kvstore_axioms demo_mvs_inv _ _ _ rs _ r])
      (simp_all add: ref_d_inv_def valid_key_def MaxKeyLength_def)
  then show ?thesis
    by (auto simp: read_unchanged_iff elim!: wp_mono)
qed




end
