(* ===== verification/MV_KVProps.thy ===== *)
theory MV_KVProps
  imports MV_Replay MV_Props
begin

text \<open>
  The properties of a transaction's view over the multiversion store of multiversion/store.go, and of the
  validation of what it read and iterated over.
\<close>

section \<open>The multiversion store keeps the contract of the view\<close>

text \<open>The version of a key that the transaction with an index reads.\<close>

definition mvs_view :: "'t gbtree_ops \<Rightarrow> int \<Rightarrow> 't mvStore \<Rightarrow> bytes \<rightharpoonup> valueItem" where
  "mvs_view lib i m k = (case mvs_GetLatestBeforeIndex lib i (Some k) m of Some (Inr r, _) \<Rightarrow> r | _ \<Rightarrow> None)"

definition mvs_reader :: "('t \<Rightarrow> bool) \<Rightarrow> ('t \<Rightarrow> valueItem list) \<Rightarrow> int \<Rightarrow> int \<Rightarrow> 't mvStore \<Rightarrow> bool" where
  "mvs_reader t_ok elems n i m \<longleftrightarrow> mvs_inv t_ok elems n m \<and> 0 \<le> i \<and> i < n \<and> (\<forall>k \<in> set (keys_before i m). k \<noteq> [])"

abbreviation mvs_keys :: "int \<Rightarrow> 't mvStore \<Rightarrow> bytes set" where
  "mvs_keys i m \<equiv> set (keys_before i m)"

locale mvs_view_env =
  versions: gbtree_lib lib t_ok elems +
  items: database db d_inv d_contents di_inv di_items
  for lib :: "'t gbtree_ops" and t_ok elems
    and db :: "('d, 'j) db_ops" and d_inv d_contents di_inv di_items +
  fixes newMemDB :: 'd
  assumes newMemDB: "d_inv newMemDB" "d_contents newMemDB = Map.empty"

sublocale mvs_view_env \<subseteq> st: mv_view db d_inv d_contents di_inv di_items "store_ops lib versionList db newMemDB"
  "mvs_reader t_ok elems n" "mvs_view lib" mvs_keys for versionList n
proof
  fix i m k
  assume m: "mvs_reader t_ok elems n i m"
  have r: "mvs_GetLatestBeforeIndex lib i (Some k) m = Some (Inr (mvs_view lib i m k), m)"
    "latest (below i) (versions_of elems m k) (mvs_view lib i m k)" for k
  proof -
    obtain v where "mvs_GetLatestBeforeIndex lib i (Some k) m = Some (Inr v, m)" "latest (below i) (versions_of elems m k) v"
      using versions.GetLatestBeforeIndex_wp [of n m i k] m unfolding wp_def mvs_inv_def mvs_reader_def by blast
    then show "mvs_GetLatestBeforeIndex lib i (Some k) m = Some (Inr (mvs_view lib i m k), m)"
      "latest (below i) (versions_of elems m k) (mvs_view lib i m k)" by (simp_all add: mvs_view_def)
  qed
  show "wp (ms_GetLatestBeforeIndex (store_ops lib versionList db newMemDB) i (Some k))
      (\<lambda>r m'. r = mvs_view lib i m k \<and> mvs_reader t_ok elems n i m' \<and> mvs_view lib i m' = mvs_view lib i m \<and> mvs_keys i m' = mvs_keys i m) m"
    and "wp (ms_GetLatestBeforeIndexExpansion (store_ops lib versionList db newMemDB) i (Some k))
      (\<lambda>r m'. r = mvs_view lib i m k \<and> mvs_reader t_ok elems n i m' \<and> mvs_view lib i m' = mvs_view lib i m \<and> mvs_keys i m' = mvs_keys i m) m"
    using r(1) m by (simp_all add: store_ops_def mvs_GetLatestBeforeIndexExpansion_def wp_def)
  obtain d where "add_items db (keys_before i m) newMemDB = Some (Inr (), d)" "d_inv d" "dom (d_contents d) = mvs_keys i m"
    using items.add_items_run [OF newMemDB(1), of "keys_before i m"] newMemDB(2) m by (auto simp: mvs_reader_def)
  then show "wp (ms_CollectIteratorItems (store_ops lib versionList db newMemDB) i)
      (\<lambda>d m'. d_inv d \<and> dom (d_contents d) = mvs_keys i m \<and> mvs_reader t_ok elems n i m' \<and> mvs_view lib i m' = mvs_view lib i m \<and> mvs_keys i m' = mvs_keys i m) m"
    using m by (simp add: store_ops_def mvs_CollectIteratorItems_def wp_def go_bind_apply go_read_def on_own_def go_local_def go_zoom_def ret_def)
  show "dom (mvs_view lib i m) \<subseteq> mvs_keys i m"
  proof
    fix k assume "k \<in> dom (mvs_view lib i m)"
    then obtain it where "mvs_view lib i m k = Some it" by auto
    with r(2) [of k] have "\<exists>j. versions_of elems m k j = Some it \<and> j < i" by (simp add: latest_def) blast
    then obtain j where j: "versions_of elems m k j \<noteq> None" "j < i" by blast
    then obtain ks where "0 \<le> j" "map_of (txWritesetKeys m) j = Some ks" "k \<in> set ks"
      using m unfolding mvs_reader_def mvs_inv_def keys_recorded_def by blast
    then show "k \<in> mvs_keys i m"
      using j(2) by (auto simp: keys_before_def intro!: bexI [of _ "nat j"])
  qed
qed

locale mvkv_store_env =
  mvs_view_env lib t_ok elems db d_inv d_contents di_inv di_items newMemDB +
  parent: kvstore P vk inv contents it_inv it_items
  for lib :: "'t gbtree_ops" and t_ok elems
    and db :: "('d, 'j) db_ops" and d_inv d_contents di_inv di_items newMemDB
    and P :: "('s, 'i) kv_ops" and vk inv contents it_inv it_items +
  assumes vk: "vk k \<Longrightarrow> valid_key k"
    and Get_iters: "inv s \<Longrightarrow> vk k \<Longrightarrow>
      wp (kv_Get P (Some k)) (\<lambda>r s'. r = contents s k \<and> inv s' \<and> contents s' = contents s \<and>
        (\<forall>i. it_inv (s, i) \<longrightarrow> it_inv (s', i) \<and> it_items (s', i) = it_items (s, i))) s"

sublocale mvkv_store_env \<subseteq> kv: mvkv_env db d_inv d_contents di_inv di_items "store_ops lib versionList db newMemDB"
  "mvs_reader t_ok elems n" "mvs_view lib" mvs_keys P vk inv contents it_inv it_items for versionList n
  by (intro mvkv_env.intro mvkv_env_axioms.intro st.mv_view_axioms parent.kvstore_axioms vk Get_iters)

context mvkv_store_env
begin

lemma kv_env: "mvkv_env db d_inv d_contents di_inv di_items (store_ops lib versionList db newMemDB) (mvs_reader t_ok elems n)
    (mvs_view lib) mvs_keys P vk inv contents it_inv it_items"
  by (rule kv.mvkv_env_axioms)

end

interpretation ref_view: mvkv_store_env ref_gbtree "sorted_wrt valueItem_Less" "\<lambda>t. t"
  ref_db ref_d_inv map_of "\<lambda>_. True" ref_di_items "[]" ref_kv valid_key ref_d_inv map_of "\<lambda>_. True" ref_di_items
proof (intro mvkv_store_env.intro mvs_view_env.intro mvs_view_env_axioms.intro mvkv_store_env_axioms.intro
    ref_versions.gbtree_lib_axioms ref_database.database_axioms ref_cache.parent.kvstore_axioms)
  fix s k
  assume "ref_d_inv s" "valid_key k"
  then show "wp (kv_Get ref_kv (Some k)) (\<lambda>r s'. r = map_of s k \<and> ref_d_inv s' \<and> map_of s' = map_of s \<and>
      (\<forall>i. True \<longrightarrow> True \<and> ref_di_items (s', i) = ref_di_items (s, i))) s"
    by (simp add: ref_kv_def dbadapter_ops_def dbadapter_ops_of_def dbadapter_Get_def ref_db_def ref_keyed_def valid_key_def go_defs wp_def or_panic_def)
qed (simp_all add: ref_d_inv_def)

section \<open>An example\<close>

text \<open>Transaction 1 of a block of four, which has written one key, over the versions of the example store and a parent with one
  key.\<close>

definition demo_view :: "(valueItem list mvStore, ref_db_state) VersionIndexedStore" where
  "demo_view = (NewVersionIndexedStore [([7], [9])] demo_mvs 1 0 1 4)\<lparr>vs_Writeset := [([6], Some [2])]\<rparr>"

lemma demo_below: "mvs_view ref_gbtree 1 demo_mvs k = (if k = [5] then Some (NewValueItem 0 0 (Some [1])) else None)"
  by (simp add: mvs_view_def mvs_GetLatestBeforeIndex_def mvs_load_def demo_mvs_def go_bind_apply on_item_def go_zoom_def value_ops_def
    on_value_def mvl_GetLatestBeforeIndex_def mvl_scan_def go_read_def ret_def NewValueItem_def)

lemma demo_keys: "keys_before 1 demo_mvs = [[5]]"
  by (simp add: keys_before_def demo_mvs_def)

lemma demo_reader: "mvs_reader (sorted_wrt valueItem_Less) (\<lambda>t. t) 4 1 demo_mvs"
  using demo_mvs_inv by (simp add: mvs_reader_def demo_keys)

lemma demo_settled: "settled_below (mvs_view ref_gbtree) mvs_keys 1 demo_mvs"
  by (auto simp: settled_below_def demo_below demo_keys NewValueItem_def IsEstimate_def split: if_splits)

lemma demo_view_inv:
  "mvkv_inv (mvs_reader (sorted_wrt valueItem_Less) (\<lambda>t. t) 4) (mvs_view ref_gbtree) mvs_keys valid_key ref_d_inv map_of demo_view"
  using demo_reader
  by (auto simp: mvkv_inv_def demo_view_def NewVersionIndexedStore_def demo_below mvkv_keys_def demo_keys ref_d_inv_def valid_key_def
    MaxKeyLength_def NewValueItem_def IsEstimate_def split: if_splits)

lemma demo_range: "ok_range None None"
  by (simp add: ok_range_def ok_bound_def)

section \<open>Reads\<close>

text \<open>C7. A read through the view of a transaction returns its own last write, else the value of its first read of the key, else the
  latest version of the transactions before it, else the parent's value. It changes nothing of what the view shows or
  has written, and unless the key is in the write set the value read is in the read set afterwards.\<close>

theorem mvkv_Get_shows:
  assumes "mvkv_store_env lib t_ok elems db d_inv d_contents di_inv di_items newMemDB P vk p_inv contents it_inv it_items"
    and "mvkv_inv (mvs_reader t_ok elems n) (mvs_view lib) mvs_keys vk p_inv contents s" "vk k"
  shows "wp (mvkv_Get (store_ops lib versionList db newMemDB) P (Some k)) (\<lambda>v s'.
    v = mvkv_shows (mvs_view lib) contents s k \<and>
    mvkv_inv (mvs_reader t_ok elems n) (mvs_view lib) mvs_keys vk p_inv contents s' \<and>
    mvkv_shows (mvs_view lib) contents s' = mvkv_shows (mvs_view lib) contents s \<and> vs_Writeset s' = vs_Writeset s \<and>
    (map_of (vs_Writeset s) k = None \<longrightarrow> (\<exists>vs. map_of (vs_readset s') k = Some (v # vs)))) s"
proof -
  have env: "mvkv_env db d_inv d_contents di_inv di_items (store_ops lib versionList db newMemDB) (mvs_reader t_ok elems n) (mvs_view lib) mvs_keys
      P vk p_inv contents it_inv it_items"
    by (rule mvkv_store_env.kv_env [OF assms(1)])
  show ?thesis
    using mvkv_env.Get_run [OF env assms(2,3)]
    by (auto simp: wp_def mvkv_env.after_read_def [OF env] mvkv_env.frame_def [OF env])
qed

theorem mvkv_Get_shows_witness:
  "wp (mvkv_Get (store_ops ref_gbtree [] ref_db []) ref_kv (Some [7])) (\<lambda>v s'.
    v = mvkv_shows (mvs_view ref_gbtree) map_of demo_view [7] \<and>
    mvkv_inv (mvs_reader (sorted_wrt valueItem_Less) (\<lambda>t. t) 4) (mvs_view ref_gbtree) mvs_keys valid_key ref_d_inv map_of s' \<and>
    mvkv_shows (mvs_view ref_gbtree) map_of s' = mvkv_shows (mvs_view ref_gbtree) map_of demo_view \<and> vs_Writeset s' = vs_Writeset demo_view \<and>
    (map_of (vs_Writeset demo_view) [7] = None \<longrightarrow> (\<exists>vs. map_of (vs_readset s') [7] = Some (v # vs)))) demo_view"
  by (rule mvkv_Get_shows [OF ref_view.mvkv_store_env_axioms demo_view_inv]) (simp add: valid_key_def MaxKeyLength_def)

text \<open>C20. Reads are repeatable. Once a read of a key has returned a value, a read of that key returns the same value and changes
  nothing, whatever other transactions have done to the multiversion store and to the parent since.\<close>

theorem mvkv_repeatable_read:
  assumes "mvkv_Get M P k s = Some (Inr v, s')"
  shows "mvkv_Get M' P' k (s'\<lparr>vs_multiVersionStore := m, vs_parent := p\<rparr>) = Some (Inr v, s'\<lparr>vs_multiVersionStore := m, vs_parent := p\<rparr>)"
proof -
  have k: "valid_key (bs k)"
    using assms by (auto simp: mvkv_Get_def go_bind_apply AssertValidKey_def valid_key_def go_panic_def ret_def split: if_splits)
  let ?k = "bs k"
  have "map_of (vs_Writeset s') ?k = Some v \<or>
      map_of (vs_Writeset s') ?k = None \<and> (\<exists>vs. map_of (vs_readset s') ?k = Some (v # vs))"
    using assms
    by (auto simp: mvkv_Get_def k go_bind_apply go_read_def go_zoom_def go_panic_def ret_def on_mvs_def view_parent_def parseValueAndUpdateReadset_def
      UpdateReadSet_def go_modify_def WriteAbort_def Let_def add_read_def reads_of_def update_conv' neq_Nil_conv
      split: option.splits sum.splits prod.splits if_splits)
  then show ?thesis
    using k by (auto simp: mvkv_Get_def go_bind_apply go_read_def ret_def)
qed

theorem mvkv_repeatable_read_witness:
  "let s' = demo_view\<lparr>vs_multiVersionStore := NewMultiVersionStore, vs_parent := []\<rparr> in
    mvkv_Get (store_ops ref_gbtree [] ref_db []) ref_kv (Some [6]) s' = Some (Inr (Some [2]), s')"
proof -
  have "mvkv_Get (store_ops ref_gbtree [] ref_db []) ref_kv (Some [6]) demo_view = Some (Inr (Some [2]), demo_view)"
    by (simp add: mvkv_Get_def demo_view_def NewVersionIndexedStore_def go_bind_apply go_read_def ret_def AssertValidKey_def MaxKeyLength_def)
  from mvkv_repeatable_read [OF this] show ?thesis by (simp add: Let_def)
qed

text \<open>C34. A read that meets an estimate aborts: the view sends the index of the transaction it depends on, unless the channel is full, and
  panics with the abort, leaving its read set and write set alone. The aborts that the view has already sent do not matter: if such a panic is swallowed, the next
  read that meets an estimate sends a further abort as long as the channel has room, although the comment on \<open>WriteAbort\<close> says that a view sends one only.\<close>

theorem mvkv_estimate_aborts:
  assumes "valid_key k" "map_of (vs_Writeset s) k = None" "map_of (vs_readset s) k = None"
    and "ms_GetLatestBeforeIndexExpansion M (vs_transactionIndex s) (Some k) (vs_multiVersionStore s) = Some (Inr (Some it), m')" "IsEstimate it"
  shows "panics (mvkv_Get M P (Some k)) (\<lambda>p s'. let abort = NewEstimateAbort (vi_index it) in
    p = Panic_abort (DependentTxIdx abort) (Abort_Err abort) \<and> vs_readset s' = vs_readset s \<and> vs_Writeset s' = vs_Writeset s \<and>
    vs_abortChannel s' = (if length (vs_abortChannel s) < vs_abortCap s then vs_abortChannel s @ [abort] else vs_abortChannel s)) s"
  using assms
  by (simp add: mvkv_Get_def go_bind_apply go_read_def ret_def on_mvs_def go_zoom_def WriteAbort_def go_modify_def go_panic_def panics_def Let_def)

theorem mvkv_estimate_aborts_witness:
  "let s = demo_view\<lparr>vs_transactionIndex := 3\<rparr> in
    panics (mvkv_Get (store_ops ref_gbtree [] ref_db []) ref_kv (Some [5])) (\<lambda>p s'. let abort = NewEstimateAbort (vi_index (NewEstimateItem 2 0)) in
      p = Panic_abort (DependentTxIdx abort) (Abort_Err abort) \<and> vs_readset s' = vs_readset s \<and> vs_Writeset s' = vs_Writeset s \<and>
      vs_abortChannel s' = (if length (vs_abortChannel s) < vs_abortCap s then vs_abortChannel s @ [abort] else vs_abortChannel s)) s"
proof -
  have "mvs_GetLatestBeforeIndex ref_gbtree 3 (Some [5]) demo_mvs = Some (Inr (Some (NewEstimateItem 2 0)), demo_mvs)"
    by (simp add: mvs_GetLatestBeforeIndex_def mvs_load_def demo_mvs_def go_bind_apply on_item_def go_zoom_def value_ops_def
      on_value_def mvl_GetLatestBeforeIndex_def mvl_scan_def go_read_def ret_def NewEstimateItem_def)
  then show ?thesis
    unfolding Let_def
    by (intro mvkv_estimate_aborts [unfolded Let_def])
      (simp_all add: valid_key_def MaxKeyLength_def demo_view_def NewVersionIndexedStore_def store_ops_def
        mvs_GetLatestBeforeIndexExpansion_def IsEstimate_def NewEstimateItem_def)
qed

section \<open>Iterations and their validation\<close>

text \<open>C8. Collecting the keys of a range through the view ends and returns, in order, exactly the keys in the range that the view shows. The iterate
  set of the transaction gets one tracker, which holds the range, a copy of the write set, exactly the keys visited and no early stop.\<close>

theorem mvkv_range_tracked:
  assumes "mvkv_store_env lib t_ok elems db d_inv d_contents di_inv di_items newMemDB P vk p_inv contents it_inv it_items"
    and "mvkv_inv (mvs_reader t_ok elems n) (mvs_view lib) mvs_keys vk p_inv contents s" "ok_range start end"
  shows "wp (mvkv_GetAllKeyStrsInRange (store_ops lib versionList db newMemDB) P db start end) (\<lambda>ks s'.
    sorted_wrt (<) ks \<and> set ks = {k \<in> dom (mvkv_shows (mvs_view lib) contents s). in_domain start end k} \<and>
    mvkv_inv (mvs_reader t_ok elems n) (mvs_view lib) mvs_keys vk p_inv contents s' \<and> vs_Writeset s' = vs_Writeset s \<and>
    vs_iterateset s' = vs_iterateset s @ [whole_tracker start end True (vs_Writeset s) ks]) s"
  using mvkv_env.range_run [OF mvkv_store_env.kv_env [OF assms(1)] assms(2,3)] unfolding wp_def by blast

theorem mvkv_range_tracked_witness:
  "wp (mvkv_GetAllKeyStrsInRange (store_ops ref_gbtree [] ref_db []) ref_kv ref_db None None) (\<lambda>ks s'.
    sorted_wrt (<) ks \<and> set ks = {k \<in> dom (mvkv_shows (mvs_view ref_gbtree) map_of demo_view). in_domain None None k} \<and>
    mvkv_inv (mvs_reader (sorted_wrt valueItem_Less) (\<lambda>t. t) 4) (mvs_view ref_gbtree) mvs_keys valid_key ref_d_inv map_of s' \<and>
    vs_Writeset s' = vs_Writeset demo_view \<and>
    vs_iterateset s' = vs_iterateset demo_view @ [whole_tracker None None True (vs_Writeset demo_view) ks]) demo_view"
  by (rule mvkv_range_tracked [OF ref_view.mvkv_store_env_axioms demo_view_inv demo_range])

lemma covers_of_keys:
  assumes "sorted_wrt (before asc) ks" "set ks = {k \<in> dom m. in_domain start end k}"
  shows "covers m start end asc (map (\<lambda>k. (k, m k)) ks)"
proof -
  have "map_of (map (\<lambda>k. (k, m k)) ks) k = (if k \<in> set ks then Some (m k) else None)" for k
    by (induction ks) auto
  then show ?thesis using assms by (auto simp: covers_def comp_def)
qed

lemma validate_store:
  assumes env: "mvkv_store_env lib t_ok elems db d_inv d_contents di_inv di_items newMemDB P vk p_inv contents it_inv it_items"
    and m: "mvs_reader t_ok elems n i m" "p_inv s" "settled_below (mvs_view lib) mvs_keys i m"
    and t: "\<forall>k \<in> fst ` set (trk_writeset t). k \<noteq> []" "ok_range (trk_startKey t) (trk_endKey t)" "distinct (trk_iteratedKeys t)"
    and ks: "sorted_wrt (before (trk_ascending t)) ks"
      "set ks = {k \<in> dom (replay_shows (mvs_view lib) contents i (trk_writeset t) (m, s)). in_domain (trk_startKey t) (trk_endKey t) k}"
  shows "wp (mvs_validateIterator abort_first P lib db newMemDB i t)
    (\<lambda>valid _. valid \<longleftrightarrow> set (trk_iteratedKeys t) = set (up_to (bs (trk_earlyStopKey t)) ks)) (m, s)"
proof -
  let ?shows = "replay_shows (mvs_view lib) contents i (trk_writeset t) (m, s)"
  have cov: "covers ?shows (trk_startKey t) (trk_endKey t) (trk_ascending t) (map (\<lambda>k. (k, ?shows k)) ks)"
    by (rule covers_of_keys [OF ks])
  have "replay_matches (trk_iteratedKeys t) (trk_earlyStopKey t) 0 ks \<longleftrightarrow> set (trk_iteratedKeys t) = set (up_to (bs (trk_earlyStopKey t)) ks)"
    using replay_matches_iff [of "[]" ks "trk_iteratedKeys t" "trk_earlyStopKey t"] t(3) sorted_before_distinct [OF ks(1)] by simp
  then show ?thesis
    using mvkv_env.validate_tracker_run [OF mvkv_store_env.kv_env [OF env, where versionList = "[]"] m t(1,2) cov, where abort_first = abort_first]
    by (simp add: mvs_validateIterator_def store_ops_def comp_def wp_def) blast
qed

text \<open>C3. The replay of a tracked iteration ends without a panic, whatever the select chooses, and reports the iteration valid if and only if the keys
  it would visit now, up to the key at which it stopped, are exactly the keys it visited. The versions below the transaction are no estimates
  and every collected key has one.\<close>

theorem validateIterator_exact:
  assumes "mvkv_store_env lib t_ok elems db d_inv d_contents di_inv di_items newMemDB P vk p_inv contents it_inv it_items"
    and "mvs_reader t_ok elems n i m" "p_inv s" "settled_below (mvs_view lib) mvs_keys i m"
    and "\<forall>k \<in> fst ` set (trk_writeset t). k \<noteq> []" "ok_range (trk_startKey t) (trk_endKey t)" "distinct (trk_iteratedKeys t)"
    and "sorted_wrt (before (trk_ascending t)) ks"
      "set ks = {k \<in> dom (replay_shows (mvs_view lib) contents i (trk_writeset t) (m, s)). in_domain (trk_startKey t) (trk_endKey t) k}"
  shows "wp (mvs_validateIterator abort_first P lib db newMemDB i t)
    (\<lambda>valid _. valid \<longleftrightarrow> set (trk_iteratedKeys t) = set (up_to (bs (trk_earlyStopKey t)) ks)) (m, s)"
  by (rule validate_store [OF assms])

theorem validateIterator_exact_witness:
  "wp (mvs_validateIterator (\<lambda>_. True) ref_kv ref_gbtree ref_db [] 1 (whole_tracker None None True [] [[5], [7]])) (\<lambda>valid _. valid) (demo_mvs, [([7], [9])])"
proof -
  let ?t = "whole_tracker None None True [] [[5], [7]] :: iterationTracker"
  have t: "trk_writeset ?t = []" "trk_startKey ?t = None" "trk_endKey ?t = None" "trk_ascending ?t" "trk_iteratedKeys ?t = [[7], [5]]"
    "trk_earlyStopKey ?t = None"
    by (simp_all add: whole_tracker_def NewIterationTracker_def)
  have "wp (mvs_validateIterator (\<lambda>_. True) ref_kv ref_gbtree ref_db [] 1 ?t)
      (\<lambda>valid _. valid \<longleftrightarrow> set (trk_iteratedKeys ?t) = set (up_to (bs (trk_earlyStopKey ?t)) [[5], [7]])) (demo_mvs, [([7], [9])])"
    by (rule validateIterator_exact [OF ref_view.mvkv_store_env_axioms demo_reader _ demo_settled])
      (auto simp: t ref_d_inv_def demo_range replay_shows_def demo_below NewValueItem_def IsDeleted_def in_domain_def split: if_splits)
  then show ?thesis by (simp add: t insert_commute)
qed

text \<open>C19. A transaction that iterated over a range is not aborted for nothing: if the values in its read set are those it would read now, the iteration
  validates against the stores it ran on.\<close>

theorem unchanged_iteration_validates:
  assumes env: "mvkv_store_env lib t_ok elems db d_inv d_contents di_inv di_items newMemDB P vk p_inv contents it_inv it_items"
    and s: "mvkv_inv (mvs_reader t_ok elems n) (mvs_view lib) mvs_keys vk p_inv contents s" and r: "ok_range start end"
    and b: "settled_below (mvs_view lib) mvs_keys (vs_transactionIndex s) (vs_multiVersionStore s)"
    and reads: "\<forall>k vs. map_of (vs_readset s) k = Some vs \<longrightarrow> hd vs = mvkv_under (mvs_view lib) contents s k"
  shows "wp (mvkv_GetAllKeyStrsInRange (store_ops lib versionList db newMemDB) P db start end) (\<lambda>ks s'.
    wp (mvs_validateIterator abort_first P lib db newMemDB (vs_transactionIndex s') (last (vs_iterateset s')))
      (\<lambda>valid _. valid) (vs_multiVersionStore s', vs_parent s')) s"
proof -
  note kv = mvkv_store_env.kv_env [OF env]
  obtain ks s' where run: "mvkv_GetAllKeyStrsInRange (store_ops lib versionList db newMemDB) P db start end s = Some (Inr ks, s')"
    and s': "mvkv_inv (mvs_reader t_ok elems n) (mvs_view lib) mvs_keys vk p_inv contents s'"
    and ks: "sorted_wrt (<) ks" "set ks = {k \<in> dom (mvkv_shows (mvs_view lib) contents s). in_domain start end k}"
    and u: "vs_Writeset s' = vs_Writeset s" "mvkv_under (mvs_view lib) contents s' = mvkv_under (mvs_view lib) contents s"
      "vs_transactionIndex s' = vs_transactionIndex s"
      "mvs_view lib (vs_transactionIndex s) (vs_multiVersionStore s') = mvs_view lib (vs_transactionIndex s) (vs_multiVersionStore s)"
      "mvkv_keys mvs_keys s' = mvkv_keys mvs_keys s"
    and t: "vs_iterateset s' = vs_iterateset s @ [whole_tracker start end True (vs_Writeset s) ks]"
    using mvkv_env.range_run [OF kv s r] by blast
  let ?t = "whole_tracker start end True (vs_Writeset s) ks" and ?i = "vs_transactionIndex s"
  have ti: "trk_writeset ?t = vs_Writeset s" "trk_startKey ?t = start" "trk_endKey ?t = end" "trk_ascending ?t = True"
    "trk_iteratedKeys ?t = rev ks" "trk_earlyStopKey ?t = None"
    by (simp_all add: whole_tracker_def NewIterationTracker_def)
  have sh: "replay_shows (mvs_view lib) contents ?i (vs_Writeset s) (vs_multiVersionStore s', vs_parent s') = mvkv_shows (mvs_view lib) contents s"
  proof
    fix k
    have "replay_shows (mvs_view lib) contents ?i (vs_Writeset s) (vs_multiVersionStore s', vs_parent s') k =
        (case map_of (vs_Writeset s) k of Some v \<Rightarrow> v | None \<Rightarrow> mvkv_under (mvs_view lib) contents s' k)"
      by (cases "map_of (vs_Writeset s) k") (simp_all add: replay_shows_def mvkv_under_def u(3) split: option.splits)
    then show "replay_shows (mvs_view lib) contents ?i (vs_Writeset s) (vs_multiVersionStore s', vs_parent s') k = mvkv_shows (mvs_view lib) contents s k"
      using reads unfolding u(2) by (auto simp: mvkv_shows_def split: option.splits)
  qed
  have ne: "\<forall>k \<in> fst ` set (vs_Writeset s). k \<noteq> []"
    using s mvkv_env.vk [OF kv] by (auto simp: mvkv_inv_def valid_key_def)
  have "vk k" if "k \<in> set ks" for k
    using mvkv_env.shown_vk [OF kv s, of k] that ks(2) by auto
  then have nil: "[] \<notin> set ks" using mvkv_env.vk [OF kv, of "[]"] by (auto simp: valid_key_def)
  have m: "mvs_reader t_ok elems n ?i (vs_multiVersionStore s')" "p_inv (vs_parent s')"
      "settled_below (mvs_view lib) mvs_keys ?i (vs_multiVersionStore s')"
    using s' u(3-5) b by (simp_all add: mvkv_inv_def settled_below_def mvkv_keys_def)
  have "wp (mvs_validateIterator abort_first P lib db newMemDB ?i ?t)
      (\<lambda>valid _. valid \<longleftrightarrow> set (trk_iteratedKeys ?t) = set (up_to (bs (trk_earlyStopKey ?t)) ks)) (vs_multiVersionStore s', vs_parent s')"
    by (rule validate_store [OF env m]) (use ne r ks in \<open>simp_all add: ti sh strict_sorted_iff\<close>)
  then have "wp (mvs_validateIterator abort_first P lib db newMemDB ?i ?t) (\<lambda>valid _. valid) (vs_multiVersionStore s', vs_parent s')"
    using up_to_whole [OF nil] by (simp add: ti)
  then show ?thesis using run t u(3) by (simp add: wp_def)
qed

theorem unchanged_iteration_validates_witness:
  "wp (mvkv_GetAllKeyStrsInRange (store_ops ref_gbtree [] ref_db []) ref_kv ref_db None None) (\<lambda>ks s'.
    wp (mvs_validateIterator (\<lambda>_. True) ref_kv ref_gbtree ref_db [] (vs_transactionIndex s') (last (vs_iterateset s')))
      (\<lambda>valid _. valid) (vs_multiVersionStore s', vs_parent s')) demo_view"
  by (rule unchanged_iteration_validates [OF ref_view.mvkv_store_env_axioms demo_view_inv demo_range])
    (simp_all add: demo_view_def NewVersionIndexedStore_def demo_settled)

end
