(* ===== verification/MV_List.thy ===== *)
theory MV_List
  imports MV_KVLaws
begin

text \<open>
  multiversion/list_store.go: the sharded map, the concurrent map, and the multiversion store that keeps its
  versions in a sharded map and the sets of the transactions in a slice. Each method of a map runs as one step,
  which is what its lock gives.
\<close>

unbundle bit_operations_syntax

section \<open>crc32.ChecksumIEEE\<close>

text \<open>The reflected polynomial of hash/crc32, bit by bit.\<close>

definition crc32_bit :: "32 word \<Rightarrow> 32 word" where
  "crc32_bit c = (if c AND 1 = 1 then drop_bit 1 c XOR 0xEDB88320 else drop_bit 1 c)"

definition crc32_byte :: "8 word \<Rightarrow> 32 word \<Rightarrow> 32 word" where
  "crc32_byte b c = (crc32_bit ^^ 8) (c XOR ucast b)"

definition ChecksumIEEE :: "bytes \<Rightarrow> 32 word" where
  "ChecksumIEEE data = NOT (fold crc32_byte data (NOT 0))"

section \<open>ShardedMap\<close>

record 'v ShardedMap =
  sm_shards :: "(bytes \<times> 'v) list list"
  sm_shardCount :: nat

definition NewShardedMap :: "nat \<Rightarrow> 'v ShardedMap" where
  "NewShardedMap shardCount = \<lparr>sm_shards = replicate shardCount [], sm_shardCount = shardCount\<rparr>"

definition getShard :: "'v ShardedMap \<Rightarrow> bytes \<Rightarrow> nat" where
  "getShard sm k = unat (ChecksumIEEE k mod of_nat (sm_shardCount sm))"

definition ShardedMap_Get :: "'v ShardedMap \<Rightarrow> bytes \<Rightarrow> 'v option" where
  "ShardedMap_Get sm k = map_of (sm_shards sm ! getShard sm k) k"

definition ShardedMap_Set :: "bytes \<Rightarrow> 'v \<Rightarrow> 'v ShardedMap \<Rightarrow> 'v ShardedMap" where
  "ShardedMap_Set k v sm = (let i = getShard sm k in
     sm\<lparr>sm_shards := (sm_shards sm)[i := AList.update k v (sm_shards sm ! i)]\<rparr>)"

text \<open>\<open>Update\<close> announces a key: the first time with one slot, then with a slot per task. A value that is no list item fails the type
  assertion.\<close>

definition ShardedMap_Update :: "bytes \<Rightarrow> int \<Rightarrow> ('t mv_value ShardedMap, unit) go" where
  "ShardedMap_Update k totalTask =
     go_bind (go_read (\<lambda>sm. ShardedMap_Get sm k)) (\<lambda>value.
     case value of
       None \<Rightarrow> go_bind (NewMultiVersionListItem 1) (\<lambda>l. go_modify (ShardedMap_Set k (List_value l)))
     | Some (List_value l) \<Rightarrow>
         if length l = 1 then go_bind (NewMultiVersionListItem totalTask) (\<lambda>l. go_modify (ShardedMap_Set k (List_value l))) else ret ()
     | Some _ \<Rightarrow> go_panic (Panic_runtime ''interface conversion''))"

definition ShardedMap_SetIf :: "bytes \<Rightarrow> 'v \<Rightarrow> ('v option \<Rightarrow> bool) \<Rightarrow> 'v ShardedMap \<Rightarrow> 'v option \<times> 'v ShardedMap" where
  "ShardedMap_SetIf k v ifFun sm = (let old = ShardedMap_Get sm k in
     if ifFun old then (Some v, ShardedMap_Set k v sm) else (old, sm))"

definition ShardedMap_Delete :: "bytes \<Rightarrow> 'v ShardedMap \<Rightarrow> bool \<times> 'v ShardedMap" where
  "ShardedMap_Delete k sm = (let i = getShard sm k; exists = ShardedMap_Get sm k \<noteq> None in
     (exists, if exists then sm\<lparr>sm_shards := (sm_shards sm)[i := AList.delete k (sm_shards sm ! i)]\<rparr> else sm))"

section \<open>ConcurrentMap\<close>

text \<open>A mutex per key, made on first use under the global one.\<close>

record 'v ConcurrentMap =
  cm_data :: "(bytes \<times> 'v) list"
  cm_locks :: "bytes list"

definition NewConcurrentMap :: "'v ConcurrentMap" where
  "NewConcurrentMap = \<lparr>cm_data = [], cm_locks = []\<rparr>"

definition getKeyLock :: "bytes \<Rightarrow> 'v ConcurrentMap \<Rightarrow> 'v ConcurrentMap" where
  "getKeyLock k cm = (if k \<in> set (cm_locks cm) then cm else cm\<lparr>cm_locks := k # cm_locks cm\<rparr>)"

definition ConcurrentMap_Set :: "bytes \<Rightarrow> 'v \<Rightarrow> 'v ConcurrentMap \<Rightarrow> 'v ConcurrentMap" where
  "ConcurrentMap_Set k v cm = (getKeyLock k cm)\<lparr>cm_data := AList.update k v (cm_data cm)\<rparr>"

definition ConcurrentMap_Get :: "bytes \<Rightarrow> 'v ConcurrentMap \<Rightarrow> 'v option \<times> 'v ConcurrentMap" where
  "ConcurrentMap_Get k cm = (map_of (cm_data cm) k, getKeyLock k cm)"

section \<open>ListStore\<close>

record VersionStoreIndexKeys =
  ik_txWritesetKeys :: "bytes list"
  ik_readset :: ReadSet
  ik_iterateset :: "iterationTracker list"

record 't ListStore =
  ls_shardMap :: "'t mv_value ShardedMap"
  ls_keysList :: "VersionStoreIndexKeys list"

definition NewMultiVersionListStore :: "int \<Rightarrow> 't ListStore" where
  "NewMultiVersionListStore totalTask = \<lparr>ls_shardMap = NewShardedMap 128,
     ls_keysList = replicate (nat totalTask) \<lparr>ik_txWritesetKeys = [], ik_readset = [], ik_iterateset = []\<rparr>\<rparr>"

text \<open>\<open>s.keysList[index]\<close>, read and written, which panics outside the slice.\<close>

definition ls_index :: "int \<Rightarrow> ('t ListStore, VersionStoreIndexKeys) go" where
  "ls_index index = go_bind (go_read ls_keysList) (\<lambda>l.
     if 0 \<le> index \<and> index < int (length l) then ret (l ! nat index) else go_panic index_panic)"

definition ls_assign :: "int \<Rightarrow> (VersionStoreIndexKeys \<Rightarrow> VersionStoreIndexKeys) \<Rightarrow> ('t ListStore, unit) go" where
  "ls_assign index f = go_bind (ls_index index) (\<lambda>e.
     go_modify (\<lambda>s. s\<lparr>ls_keysList := (ls_keysList s)[nat index := f e]\<rparr>))"

definition ls_load :: "bytes \<Rightarrow> ('t ListStore, 't mv_value option) go" where
  "ls_load k = go_read (\<lambda>s. ShardedMap_Get (ls_shardMap s) k)"

definition ls_on_item :: "bytes \<Rightarrow> ('t mv_value, 'a) go \<Rightarrow> ('t ListStore, 'a) go" where
  "ls_on_item k = go_zoom (\<lambda>s. the (ShardedMap_Get (ls_shardMap s) k))
     (\<lambda>v s. s\<lparr>ls_shardMap := ShardedMap_Set k v (ls_shardMap s)\<rparr>)"

text \<open>The result of a failed lookup is a nil interface, whose type assertion panics.\<close>

definition ls_on_object :: "bytes \<Rightarrow> ('t mv_value, 'a) go \<Rightarrow> ('t ListStore, 'a) go" where
  "ls_on_object k m = go_bind (ls_load k) (\<lambda>v.
     if v = None then go_panic (Panic_runtime ''interface conversion: interface is nil'') else ls_on_item k m)"

definition ls_found :: "bytes \<Rightarrow> 'a \<Rightarrow> ('t mv_value, 'a) go \<Rightarrow> ('t ListStore, 'a) go" where
  "ls_found k none m = go_bind (ls_load k) (\<lambda>v. if v = None then ret none else ls_on_item k m)"

definition ls_GetLatest :: "'t gbtree_ops \<Rightarrow> slice \<Rightarrow> ('t ListStore, valueItem option) go" where
  "ls_GetLatest lib k = ls_found (bs k) None (mv_GetLatest (value_ops lib))"

definition ls_NewKey :: "bytes \<Rightarrow> int \<Rightarrow> ('t ListStore, unit) go" where
  "ls_NewKey k totalTask = go_zoom ls_shardMap (\<lambda>sm s. s\<lparr>ls_shardMap := sm\<rparr>) (ShardedMap_Update k totalTask)"

definition ls_GetLatestBeforeIndex :: "'t gbtree_ops \<Rightarrow> int \<Rightarrow> slice \<Rightarrow> ('t ListStore, valueItem option) go" where
  "ls_GetLatestBeforeIndex lib index k = ls_found (bs k) None (mv_GetLatestBeforeIndex (value_ops lib) index)"

definition ls_GetLatestBeforeIndexExpansion :: "'t gbtree_ops \<Rightarrow> int \<Rightarrow> slice \<Rightarrow> ('t ListStore, valueItem option) go" where
  "ls_GetLatestBeforeIndexExpansion lib index k = ls_found (bs k) None (mv_GetLatestBeforeIndexExpansion (value_ops lib) index)"

definition ls_Has :: "'t gbtree_ops \<Rightarrow> int \<Rightarrow> slice \<Rightarrow> ('t ListStore, bool) go" where
  "ls_Has lib index k =
     ls_found (bs k) False (go_bind (mv_GetLatestBeforeIndex (value_ops lib) index) (\<lambda>r. ret (r \<noteq> None)))"

definition ls_removeOldWriteset :: "'t gbtree_ops \<Rightarrow> int \<Rightarrow> WriteSet \<Rightarrow> ('t ListStore, unit) go" where
  "ls_removeOldWriteset lib index writeset =
     go_bind (ls_index index) (\<lambda>keys.
     go_for (ik_txWritesetKeys keys) (\<lambda>k.
       if map_of writeset k \<noteq> None then ret () else ls_found k () (mv_Remove (value_ops lib) index)))"

definition ls_SetWriteset :: "'t gbtree_ops \<Rightarrow> int \<Rightarrow> int \<Rightarrow> WriteSet \<Rightarrow> int \<Rightarrow> ('t ListStore, unit) go" where
  "ls_SetWriteset lib index incarnation writeset totalTask =
     go_bind (if incarnation > 0 then ls_removeOldWriteset lib index writeset else ret ()) (\<lambda>_.
     if length writeset = 0 then ret () else
     go_bind (go_for writeset (\<lambda>kv.
       go_bind (ls_load (fst kv)) (\<lambda>loadVal.
       if loadVal = None then go_panic (Panic_str ''map get nil'')
       else ls_on_item (fst kv) (if snd kv = None then mv_Delete (value_ops lib) index incarnation
                                 else mv_Set (value_ops lib) index incarnation (snd kv))))) (\<lambda>_.
     ls_assign index (\<lambda>e. e\<lparr>ik_txWritesetKeys := sort (map fst writeset)\<rparr>)))"

definition ls_InvalidateWriteset :: "'t gbtree_ops \<Rightarrow> int \<Rightarrow> int \<Rightarrow> int \<Rightarrow> ('t ListStore, unit) go" where
  "ls_InvalidateWriteset lib index incarnation totalTask =
     go_bind (ls_index index) (\<lambda>e.
     go_for (ik_txWritesetKeys e) (\<lambda>k. ls_on_object k (mv_SetEstimate (value_ops lib) index incarnation)))"

definition ls_SetEstimatedWriteset :: "'t gbtree_ops \<Rightarrow> int \<Rightarrow> int \<Rightarrow> WriteSet \<Rightarrow> ('t ListStore, unit) go" where
  "ls_SetEstimatedWriteset lib index incarnation writeset =
     go_bind (ls_removeOldWriteset lib index writeset) (\<lambda>_.
     go_bind (go_for (map fst writeset) (\<lambda>k. ls_on_object k (mv_SetEstimate (value_ops lib) index incarnation))) (\<lambda>_.
     ls_assign index (\<lambda>e. e\<lparr>ik_txWritesetKeys := sort (map fst writeset)\<rparr>)))"

definition ls_GetAllWritesetKeys :: "('t ListStore, (int \<times> bytes list) list) go" where
  "ls_GetAllWritesetKeys = go_read (\<lambda>s. map (\<lambda>(i, e). (int i, ik_txWritesetKeys e)) (enumerate 0 (ls_keysList s)))"

definition ls_SetReadset :: "int \<Rightarrow> ReadSet \<Rightarrow> ('t ListStore, unit) go" where
  "ls_SetReadset index readset = ls_assign index (\<lambda>e. e\<lparr>ik_readset := readset\<rparr>)"

definition ls_GetReadset :: "int \<Rightarrow> ('t ListStore, ReadSet) go" where
  "ls_GetReadset index = go_bind (ls_index index) (\<lambda>e. ret (ik_readset e))"

definition ls_SetIterateset :: "int \<Rightarrow> iterationTracker list \<Rightarrow> ('t ListStore, unit) go" where
  "ls_SetIterateset index iterateset = ls_assign index (\<lambda>e. e\<lparr>ik_iterateset := iterateset\<rparr>)"

definition ls_GetIterateset :: "int \<Rightarrow> ('t ListStore, iterationTracker list) go" where
  "ls_GetIterateset index = go_bind (ls_index index) (\<lambda>e. ret (ik_iterateset e))"

definition ls_ClearReadset :: "int \<Rightarrow> ('t ListStore, unit) go" where
  "ls_ClearReadset index = ls_assign index (\<lambda>e. e\<lparr>ik_readset := []\<rparr>)"

definition ls_ClearIterateset :: "int \<Rightarrow> ('t ListStore, unit) go" where
  "ls_ClearIterateset index = ls_assign index (\<lambda>e. e\<lparr>ik_iterateset := []\<rparr>)"

text \<open>The loop reads \<open>keysList[index]\<close> at every \<open>i\<close>.\<close>

definition ls_CollectIteratorItems :: "('d, 'j) db_ops \<Rightarrow> 'd \<Rightarrow> int \<Rightarrow> ('t ListStore, 'd) go" where
  "ls_CollectIteratorItems db newMemDB index =
     (if index \<le> 0 then ret newMemDB else
     go_bind (ls_index index) (\<lambda>e.
     go_bind (on_own newMemDB (add_items db (concat (map (\<lambda>i. ik_txWritesetKeys e) [0..<nat index])))) (\<lambda>(_, d). ret d)))"

definition list_store_ops :: "'t gbtree_ops \<Rightarrow> ('d, 'j) db_ops \<Rightarrow> 'd \<Rightarrow> ('t ListStore, 'd) mvs_ops" where
  "list_store_ops lib db newMemDB = \<lparr>
     ms_GetLatestBeforeIndex = ls_GetLatestBeforeIndex lib,
     ms_GetLatestBeforeIndexExpansion = ls_GetLatestBeforeIndexExpansion lib,
     ms_NewKey = ls_NewKey,
     ms_CollectIteratorItems = ls_CollectIteratorItems db newMemDB,
     ms_SetWriteset = ls_SetWriteset lib,
     ms_SetEstimatedWriteset = ls_SetEstimatedWriteset lib,
     ms_SetReadset = ls_SetReadset,
     ms_SetIterateset = ls_SetIterateset \<rparr>"

definition ls_validateIterator ::
  "(iterationTracker \<Rightarrow> bool) \<Rightarrow> ('s, 'i) kv_ops \<Rightarrow> 't gbtree_ops \<Rightarrow> ('d, 'j) db_ops \<Rightarrow> 'd \<Rightarrow> int \<Rightarrow> iterationTracker \<Rightarrow>
   ('t ListStore \<times> 's, bool) go" where
  "ls_validateIterator abort_first P lib db newMemDB index tracker =
     validate_tracker abort_first P db (ls_GetLatestBeforeIndex lib) (ls_CollectIteratorItems db newMemDB) index tracker"

definition ls_checkIteratorAtIndex ::
  "(iterationTracker \<Rightarrow> bool) \<Rightarrow> ('s, 'i) kv_ops \<Rightarrow> 't gbtree_ops \<Rightarrow> ('d, 'j) db_ops \<Rightarrow> 'd \<Rightarrow> int \<Rightarrow>
   ('t ListStore \<times> 's, bool) go" where
  "ls_checkIteratorAtIndex abort_first P lib db newMemDB index =
     go_bind (on_aux (ls_index index)) (\<lambda>e.
     all_valid (ls_validateIterator abort_first P lib db newMemDB index) (ik_iterateset e) True)"

definition ls_checkReadsetAtIndex ::
  "('s, 'i) kv_ops \<Rightarrow> 't gbtree_ops \<Rightarrow> int \<Rightarrow> ('t ListStore \<times> 's, bool \<times> int list) go" where
  "ls_checkReadsetAtIndex P lib index =
     go_bind (on_aux (ls_index index)) (\<lambda>e.
     check_reads P (ls_GetLatestBeforeIndex lib) index (ik_readset e) True [])"

definition ls_ValidateTransactionState ::
  "(iterationTracker \<Rightarrow> bool) \<Rightarrow> ('s, 'i) kv_ops \<Rightarrow> 't gbtree_ops \<Rightarrow> ('d, 'j) db_ops \<Rightarrow> 'd \<Rightarrow> int \<Rightarrow>
   ('t ListStore \<times> 's, bool \<times> int list) go" where
  "ls_ValidateTransactionState abort_first P lib db newMemDB index =
     go_bind (ls_checkIteratorAtIndex abort_first P lib db newMemDB index) (\<lambda>iteratorValid.
     go_bind (ls_checkReadsetAtIndex P lib index) (\<lambda>(readsetValid, conflictIndices).
     ret (iteratorValid \<and> readsetValid, conflictIndices)))"

text \<open>\<open>P\<close> is the parent store and \<open>GP\<close> what its \<open>GetParent\<close> returns, on the same state. Only the key with the hexadecimal form 02 goes to the
  parent itself.\<close>

definition ls_write_latest ::
  "('s, 'i) kv_ops \<Rightarrow> ('s, 'h) kv_ops \<Rightarrow> 't gbtree_ops \<Rightarrow> bytes \<times> 't mv_value \<Rightarrow> ('t ListStore \<times> 's, unit) go" where
  "ls_write_latest P GP lib e =
     (if snd e = Nil_value then ret () else
     go_bind (on_aux (ls_on_item (fst e) (mv_GetLatestNonEstimate (value_ops lib)))) (\<lambda>r.
     case r of None \<Rightarrow> ret () | Some mvValue \<Rightarrow>
       if IsEstimate mvValue
       then go_panic (Panic_str ''should not have any estimate values when writing to parent store'')
       else if IsDeleted mvValue
       then on_store (if fst e = [2] then kv_Delete P (Some (fst e)) else kv_Delete GP (Some (fst e)))
       else if vi_value mvValue \<noteq> None
       then on_store (if fst e = [2] then kv_Set P (Some (fst e)) (vi_value mvValue) else kv_Set GP (Some (fst e)) (vi_value mvValue))
       else ret ()))"

definition ls_WriteLatestToStore ::
  "('s, 'i) kv_ops \<Rightarrow> ('s, 'h) kv_ops \<Rightarrow> 't gbtree_ops \<Rightarrow> ('t ListStore \<times> 's, unit) go" where
  "ls_WriteLatestToStore P GP lib =
     go_bind (go_read (\<lambda>x. concat (sm_shards (ls_shardMap (fst x))))) (\<lambda>entries.
     go_for entries (ls_write_latest P GP lib))"

section \<open>The sharded map is a map\<close>

definition sm_ok :: "'v ShardedMap \<Rightarrow> bool" where
  "sm_ok sm \<longleftrightarrow> length (sm_shards sm) = sm_shardCount sm \<and> 0 < sm_shardCount sm \<and> sm_shardCount sm < 2 ^ 32"

lemma NewShardedMap_ok: "0 < n \<Longrightarrow> n < 2 ^ 32 \<Longrightarrow> sm_ok (NewShardedMap n)"
  by (simp add: sm_ok_def NewShardedMap_def)

lemma getShard_less: "sm_ok sm \<Longrightarrow> getShard sm k < length (sm_shards sm)"
proof -
  assume ok: "sm_ok sm"
  have n: "unat (of_nat (sm_shardCount sm) :: 32 word) = sm_shardCount sm"
    using ok by (simp add: sm_ok_def unat_of_nat take_bit_nat_eq_self)
  have "unat (ChecksumIEEE k mod of_nat (sm_shardCount sm)) < sm_shardCount sm"
    using ok n by (simp add: unat_mod sm_ok_def)
  then show ?thesis using ok by (simp add: getShard_def sm_ok_def)
qed

lemma getShard_cong: "sm_shardCount sm' = sm_shardCount sm \<Longrightarrow> getShard sm' = getShard sm"
  by (simp add: getShard_def fun_eq_iff)

lemma shard_update:
  assumes "sm_ok sm" "sm' = sm\<lparr>sm_shards := (sm_shards sm)[getShard sm k := shard]\<rparr>"
    and "\<And>j. j \<noteq> k \<Longrightarrow> map_of shard j = map_of (sm_shards sm ! getShard sm k) j"
  shows "sm_ok sm'" "ShardedMap_Get sm' = (ShardedMap_Get sm)(k := map_of shard k)"
proof -
  have g: "getShard sm' = getShard sm" by (rule getShard_cong) (simp add: assms(2))
  show "sm_ok sm'" using assms(1,2) by (simp add: sm_ok_def)
  have s: "sm_shards sm' = (sm_shards sm)[getShard sm k := shard]" using assms(2) by simp
  show "ShardedMap_Get sm' = (ShardedMap_Get sm)(k := map_of shard k)"
  proof
    fix j
    show "ShardedMap_Get sm' j = ((ShardedMap_Get sm)(k := map_of shard k)) j"
      using getShard_less [OF assms(1), of k] assms(3) [of j]
      by (cases "getShard sm j = getShard sm k"; cases "j = k") (simp_all add: ShardedMap_Get_def g s)
  qed
qed

lemma ShardedMap_Set_map:
  assumes "sm_ok sm"
  shows "sm_ok (ShardedMap_Set k v sm)" "ShardedMap_Get (ShardedMap_Set k v sm) = (ShardedMap_Get sm)(k \<mapsto> v)"
  using shard_update [OF assms, of "ShardedMap_Set k v sm" k "AList.update k v (sm_shards sm ! getShard sm k)"]
  by (simp_all add: ShardedMap_Set_def Let_def update_conv')

lemma ShardedMap_Delete_map:
  assumes "sm_ok sm"
  shows "fst (ShardedMap_Delete k sm) = (ShardedMap_Get sm k \<noteq> None)"
    "sm_ok (snd (ShardedMap_Delete k sm))" "ShardedMap_Get (snd (ShardedMap_Delete k sm)) = (ShardedMap_Get sm)(k := None)"
proof -
  show "fst (ShardedMap_Delete k sm) = (ShardedMap_Get sm k \<noteq> None)" by (simp add: ShardedMap_Delete_def Let_def)
  let ?sm = "sm\<lparr>sm_shards := (sm_shards sm)[getShard sm k := AList.delete k (sm_shards sm ! getShard sm k)]\<rparr>"
  have "sm_ok ?sm" "ShardedMap_Get ?sm = (ShardedMap_Get sm)(k := None)"
    using shard_update [OF assms, of ?sm k "AList.delete k (sm_shards sm ! getShard sm k)"] by (simp_all add: delete_conv')
  then show "sm_ok (snd (ShardedMap_Delete k sm))" "ShardedMap_Get (snd (ShardedMap_Delete k sm)) = (ShardedMap_Get sm)(k := None)"
    using assms by (auto simp: ShardedMap_Delete_def Let_def fun_upd_idem)
qed

text \<open>C26. The sharded map of the list store is a map: whatever the checksums of the keys, a new map is empty, \<open>Set\<close> and a \<open>SetIf\<close> whose test
  succeeds write one key, \<open>Delete\<close> removes one key and tells whether it was there, and no other key changes.\<close>

theorem sharded_map_refines_map:
  fixes sm :: "'a ShardedMap"
  assumes "sm_ok sm"
  shows "sm_ok (NewShardedMap 128 :: 'a ShardedMap) \<and> ShardedMap_Get (NewShardedMap 128 :: 'a ShardedMap) = Map.empty \<and>
    sm_ok (ShardedMap_Set k v sm) \<and> ShardedMap_Get (ShardedMap_Set k v sm) = (ShardedMap_Get sm)(k \<mapsto> v) \<and>
    ShardedMap_SetIf k v test sm = (if test (ShardedMap_Get sm k) then (Some v, ShardedMap_Set k v sm) else (ShardedMap_Get sm k, sm)) \<and>
    fst (ShardedMap_Delete k sm) = (ShardedMap_Get sm k \<noteq> None) \<and> sm_ok (snd (ShardedMap_Delete k sm)) \<and>
    ShardedMap_Get (snd (ShardedMap_Delete k sm)) = (ShardedMap_Get sm)(k := None)"
proof -
  have ok: "sm_ok (NewShardedMap 128 :: 'a ShardedMap)" by (rule NewShardedMap_ok) simp_all
  have "sm_shards (NewShardedMap 128 :: 'a ShardedMap) ! getShard (NewShardedMap 128 :: 'a ShardedMap) j = []" for j
    using getShard_less [OF ok, of j] by (simp add: NewShardedMap_def)
  then show ?thesis
    using ok by (simp add: assms ShardedMap_Set_map ShardedMap_Delete_map ShardedMap_SetIf_def Let_def fun_eq_iff ShardedMap_Get_def [of "NewShardedMap 128"])
qed

theorem sharded_map_refines_map_witness:
  "ShardedMap_Get (ShardedMap_Set [5] True (NewShardedMap 128)) = [[5] \<mapsto> True]"
proof -
  have "sm_ok (NewShardedMap 128 :: bool ShardedMap)" by (simp add: sm_ok_def NewShardedMap_def)
  from sharded_map_refines_map [OF this, of "[5]" True "\<lambda>_. True"] show ?thesis by simp
qed

section \<open>The list store\<close>

text \<open>The checksum of the one character 1, as a check of the bit-by-bit definition.\<close>

lemma ChecksumIEEE_check: "ChecksumIEEE (map of_char ''1'') = 0x83DCEFB7"
  by code_simp

text \<open>C38. The list store collects the wrong keys for an iterator: for the transaction with index \<open>i\<close> the database holds exactly the keys that
  transaction itself wrote, and none that only the transactions before it wrote.\<close>

theorem list_store_collects_own_keys:
  assumes "database db d_inv d_contents di_inv di_items" "d_inv newMemDB" "d_contents newMemDB = Map.empty"
    and "0 < i" "i < int (length (ls_keysList s))" "\<forall>k \<in> set (ik_txWritesetKeys (ls_keysList s ! nat i)). k \<noteq> []"
  shows "wp (ls_CollectIteratorItems db newMemDB i)
    (\<lambda>d s'. s' = s \<and> d_inv d \<and> dom (d_contents d) = set (ik_txWritesetKeys (ls_keysList s ! nat i))) s"
proof -
  let ?own = "ik_txWritesetKeys (ls_keysList s ! nat i)"
  let ?ks = "concat (map (\<lambda>_. ?own) [0..<nat i])"
  have ks: "set ?ks = set ?own" using assms(4) by auto
  have ne: "\<forall>k \<in> set ?ks. k \<noteq> []" using assms(6) ks by blast
  obtain d where "add_items db ?ks newMemDB = Some (Inr (), d)" "d_inv d" "dom (d_contents d) = dom (d_contents newMemDB) \<union> set ?ks"
    using database.add_items_run [OF assms(1,2) ne] by blast
  then show ?thesis
    using assms(3-5) ks by (simp add: ls_CollectIteratorItems_def ls_index_def go_bind_apply go_read_def ret_def on_own_def go_local_def go_zoom_def wp_def)
qed

theorem list_store_collects_own_keys_witness:
  "let s = \<lparr>ls_shardMap = NewShardedMap 128, ls_keysList = [\<lparr>ik_txWritesetKeys = [[5]], ik_readset = [], ik_iterateset = []\<rparr>,
      \<lparr>ik_txWritesetKeys = [[6]], ik_readset = [], ik_iterateset = []\<rparr>]\<rparr> :: valueItem list ListStore in
    wp (ls_CollectIteratorItems ref_db [] 1) (\<lambda>d s'. dom (map_of d) = {[6]}) s"
proof -
  let ?s = "\<lparr>ls_shardMap = NewShardedMap 128, ls_keysList = [\<lparr>ik_txWritesetKeys = [[5]], ik_readset = [], ik_iterateset = []\<rparr>,
      \<lparr>ik_txWritesetKeys = [[6]], ik_readset = [], ik_iterateset = []\<rparr>]\<rparr> :: valueItem list ListStore"
  have "wp (ls_CollectIteratorItems ref_db [] 1)
      (\<lambda>d s'. s' = ?s \<and> ref_d_inv d \<and> dom (map_of d) = set (ik_txWritesetKeys (ls_keysList ?s ! nat 1))) ?s"
    by (rule list_store_collects_own_keys [OF ref_database.database_axioms]) (simp_all add: ref_d_inv_def)
  then show ?thesis by (auto simp: Let_def elim!: wp_mono)
qed

text \<open>A write set with a key that was never announced panics.\<close>

lemma list_store_unannounced_panics:
  assumes "ShardedMap_Get (ls_shardMap s) k = None" "incarnation \<le> 0"
  shows "panics (ls_SetWriteset lib i incarnation ((k, v) # ws) n) (\<lambda>p s'. p = Panic_str ''map get nil'' \<and> s' = s) s"
  using assms by (simp add: ls_SetWriteset_def ls_load_def panics_def go_bind_apply go_read_def go_panic_def ret_def)

text \<open>The second announcement of a key replaces its one slot by empty ones, so a version written in between is lost.\<close>

lemma list_store_announce_drops:
  assumes "sm_ok (ls_shardMap s)" "ShardedMap_Get (ls_shardMap s) k = Some (List_value [x])" "0 \<le> n"
  shows "wp (ls_NewKey k n) (\<lambda>_ s'. ShardedMap_Get (ls_shardMap s') k = Some (List_value (replicate (nat n) None))) s"
  using assms ShardedMap_Set_map(2) [OF assms(1)]
  by (simp add: ls_NewKey_def ShardedMap_Update_def wp_def go_bind_apply go_read_def go_modify_def go_zoom_def NewMultiVersionListItem_ret)

end
