(* ===== verification/Pruning.thy ===== *)
theory Pruning
  imports Ref_Libs "HOL-Library.Signed_Division" "HOL-Library.Multiset"
begin

text \<open>
  pruning/manager.go and pruning/types/options.go: which heights may be pruned, given the pruning strategy and the snapshots
  that have been completed. Heights are Go's \<open>int64\<close>, 64-bit words read by \<open>sint\<close>; the database is a parameter.
\<close>

section \<open>Options\<close>

datatype PruningStrategy = PruningDefault | PruningEverything | PruningNothing | PruningCustom | PruningUndefined

record PruningOptions =
  KeepRecent :: "64 word"
  Interval :: "64 word"
  Strategy :: PruningStrategy

definition pruneEverythingKeepRecent :: "64 word" where
  "pruneEverythingKeepRecent = 2"

definition pruneEverythingInterval :: "64 word" where
  "pruneEverythingInterval = 10"

datatype pruning_error =
    ErrPruningIntervalZero | ErrPruningIntervalTooSmall | ErrPruningKeepRecentTooSmall
  | NegativeHeightsError "64 word" | Err_db string

fun NewPruningOptions :: "PruningStrategy \<Rightarrow> PruningOptions" where
  "NewPruningOptions PruningDefault = \<lparr>KeepRecent = 362880, Interval = 10, Strategy = PruningDefault\<rparr>"
| "NewPruningOptions PruningEverything =
     \<lparr>KeepRecent = pruneEverythingKeepRecent, Interval = pruneEverythingInterval, Strategy = PruningEverything\<rparr>"
| "NewPruningOptions PruningNothing = \<lparr>KeepRecent = 0, Interval = 0, Strategy = PruningNothing\<rparr>"
| "NewPruningOptions _ = \<lparr>KeepRecent = 0, Interval = 0, Strategy = PruningCustom\<rparr>"

definition NewCustomPruningOptions :: "64 word \<Rightarrow> 64 word \<Rightarrow> PruningOptions" where
  "NewCustomPruningOptions keepRecent interval = \<lparr>KeepRecent = keepRecent, Interval = interval, Strategy = PruningCustom\<rparr>"

definition PruningOptions_Validate :: "PruningOptions \<Rightarrow> pruning_error option" where
  "PruningOptions_Validate po =
     (if Strategy po = PruningNothing then None
      else if Interval po = 0 then Some ErrPruningIntervalZero
      else if Interval po < pruneEverythingInterval then Some ErrPruningIntervalTooSmall
      else if KeepRecent po < pruneEverythingKeepRecent then Some ErrPruningKeepRecentTooSmall
      else None)"

definition NewPruningOptionsFromString :: "string \<Rightarrow> PruningOptions" where
  "NewPruningOptionsFromString strategy =
     (if strategy = ''everything'' then NewPruningOptions PruningEverything
      else if strategy = ''nothing'' then NewPruningOptions PruningNothing
      else if strategy = ''default'' then NewPruningOptions PruningDefault
      else NewPruningOptions PruningDefault)"

section \<open>The manager\<close>

record Manager =
  pm_opts :: PruningOptions
  pm_snapshotInterval :: "64 word"
  pm_pruneSnapshotHeights :: "64 word list"

definition pruneSnapshotHeightsKey :: bytes where
  "pruneSnapshotHeightsKey = map of_char ''s/prunesnapshotheights''"

definition pruning_NewManager :: Manager where
  "pruning_NewManager = \<lparr>pm_opts = NewPruningOptions PruningNothing, pm_snapshotInterval = 0, pm_pruneSnapshotHeights = [0]\<rparr>"

definition pruning_SetOptions :: "PruningOptions \<Rightarrow> Manager \<Rightarrow> Manager" where
  "pruning_SetOptions opts m = m\<lparr>pm_opts := opts\<rparr>"

definition SetSnapshotInterval :: "64 word \<Rightarrow> Manager \<Rightarrow> Manager" where
  "SetSnapshotInterval snapshotInterval m = m\<lparr>pm_snapshotInterval := snapshotInterval\<rparr>"

definition int64SliceToBytes :: "64 word list \<Rightarrow> bytes" where
  "int64SliceToBytes hs = concat (map Uint64ToBigEndian hs)"

text \<open>The loop that looks for the first height that does not follow its predecessor by one interval.\<close>

function first_gap :: "64 word \<Rightarrow> 64 word list \<Rightarrow> nat \<Rightarrow> nat" where
  "first_gap interval hs k =
     (if k < length hs then (if hs ! k \<noteq> hs ! (k - 1) + interval then k else first_gap interval hs (k + 1)) else k)"
  by auto
termination by (relation "measure (\<lambda>(_, hs, k). length hs - k)") auto

declare first_gap.simps [simp del]

definition next_heights :: "64 word \<Rightarrow> 64 word \<Rightarrow> 64 word list \<Rightarrow> 64 word list" where
  "next_heights interval height hs =
     (let hs' = sort_key sint (hs @ [height]) in drop (first_gap interval hs' 1 - 1) hs')"

text \<open>\<open>setSync\<close> is the method \<open>SetSync\<close> of the database.\<close>

definition HandleSnapshotHeight :: "(slice \<Rightarrow> slice \<Rightarrow> ('d, string option) go) \<Rightarrow> 64 word \<Rightarrow> (Manager \<times> 'd, unit) go" where
  "HandleSnapshotHeight setSync height =
     go_bind (go_read fst) (\<lambda>m.
     if Strategy (pm_opts m) = PruningNothing \<or> sint height \<le> 0 then ret ()
     else
       let hs = next_heights (pm_snapshotInterval m) height (pm_pruneSnapshotHeights m) in
       go_bind (go_modify (\<lambda>x. (m\<lparr>pm_pruneSnapshotHeights := hs\<rparr>, snd x))) (\<lambda>_.
       go_bind (on_store (setSync (Some pruneSnapshotHeightsKey) (Some (int64SliceToBytes hs)))) panic_on))"

definition GetPruningHeight :: "64 word \<Rightarrow> Manager \<Rightarrow> 64 word" where
  "GetPruningHeight height m =
     (if Strategy (pm_opts m) = PruningNothing then 0
      else if Interval (pm_opts m) \<le> 0 then 0
      else if sint height smod sint (Interval (pm_opts m)) \<noteq> 0 \<or> sint height \<le> sint (KeepRecent (pm_opts m)) then 0
      else let pruneHeight = height - 1 - KeepRecent (pm_opts m) in
        if pm_snapshotInterval m \<le> 0 then pruneHeight
        else if length (pm_pruneSnapshotHeights m) = 0 then 0
        else let snHeight = pm_pruneSnapshotHeights m ! 0 + pm_snapshotInterval m - 1 in
          if sint snHeight < sint pruneHeight then snHeight else pruneHeight)"

function load_heights :: "bytes \<Rightarrow> ('d, pruning_error + 64 word list) go" where
  "load_heights bz =
     (if bz = [] then ret (Inr [])
      else if length bz < 8 then go_panic (Panic_runtime ''slice bounds out of range'')
      else let h = word_of_nat (be_value (take 8 bz)) in
        if sint h < 0 then ret (Inl (NegativeHeightsError h))
        else go_bind (load_heights (drop 8 bz)) (\<lambda>r. ret (map_sum id ((#) h) r)))"
  by auto
termination by (relation "measure length") auto

declare load_heights.simps [simp del]

definition loadPruningSnapshotHeights :: "('d, 'j) db_ops \<Rightarrow> ('d, pruning_error + 64 word list) go" where
  "loadPruningSnapshotHeights db =
     go_bind (db_Get db (Some pruneSnapshotHeightsKey)) (\<lambda>r.
     case r of Inl err \<Rightarrow> ret (Inl (Err_db err))
     | Inr bz \<Rightarrow> if length (bs bz) = 0 then ret (Inr []) else load_heights (bs bz))"

definition LoadSnapshotHeights :: "('d, 'j) db_ops \<Rightarrow> (Manager \<times> 'd, pruning_error option) go" where
  "LoadSnapshotHeights db =
     go_bind (go_read fst) (\<lambda>m.
     if Strategy (pm_opts m) = PruningNothing then ret None
     else go_bind (on_store (loadPruningSnapshotHeights db)) (\<lambda>r.
       case r of Inl err \<Rightarrow> ret (Some err)
       | Inr loaded \<Rightarrow>
           go_bind (if length loaded > 0 then go_modify (\<lambda>x. ((fst x)\<lparr>pm_pruneSnapshotHeights := loaded\<rparr>, snd x)) else ret ()) (\<lambda>_.
           ret None)))"

section \<open>Pending snapshots are never pruned\<close>

text \<open>The \<open>n\<close>-th snapshot height.\<close>

definition snap :: "nat \<Rightarrow> nat \<Rightarrow> 64 word" where
  "snap iv n = word_of_nat (n * iv)"

lemma unat_snap: "n * iv < 2 ^ 62 \<Longrightarrow> unat (snap iv n) = n * iv"
  by (simp add: snap_def unat_of_nat take_bit_nat_eq_self del: of_nat_mult)

lemma sint_small:
  assumes "unat (w :: 64 word) < 2 ^ 63"
  shows "sint w = int (unat w)"
proof -
  have u: "uint w = int (unat w)" by (rule uint_nat)
  have "- (2 ^ 63) \<le> int (unat w)" by (rule order_trans [of _ 0]) simp_all
  moreover have "int (unat w) < 2 ^ 63" using assms by (metis of_nat_less_iff of_nat_numeral of_nat_power)
  ultimately have "signed_take_bit 63 (int (unat w)) = int (unat w)" by (rule signed_take_bit_int_eq_self)
  moreover have "sint w = signed_take_bit 63 (uint w)" using sint_uint [of w] by simp
  ultimately show ?thesis by (simp only: u)
qed

lemma sint_snap: "n * iv < 2 ^ 62 \<Longrightarrow> sint (snap iv n) = int (n * iv)"
  by (simp add: sint_small unat_snap)

lemma snap_next:
  assumes "a * iv < 2 ^ 62" "b * iv < 2 ^ 62" "iv < 2 ^ 62" "0 < iv" "snap iv b = snap iv a + word_of_nat iv"
  shows "b = Suc a"
proof -
  have "unat (snap iv a + word_of_nat iv :: 64 word) = a * iv + iv"
    using assms(1,3) by (simp add: unat_word_ariths unat_snap unat_of_nat take_bit_nat_eq_self)
  then have "b * iv = Suc a * iv" using assms(2,5) unat_snap [of b iv] by simp
  then show ?thesis using assms(4) by (metis mult_cancel2 not_less0)
qed

lemma first_gap_run:
  "1 \<le> k \<Longrightarrow> k \<le> length hs \<Longrightarrow> k \<le> first_gap interval hs k \<and> first_gap interval hs k \<le> length hs \<and>
    (\<forall>i. k \<le> i \<and> i < first_gap interval hs k \<longrightarrow> hs ! i = hs ! (i - 1) + interval)"
proof (induction interval hs k rule: first_gap.induct)
  case (1 interval hs k)
  show ?case
  proof (cases "k < length hs \<and> hs ! k = hs ! (k - 1) + interval")
    case True
    then have "first_gap interval hs k = first_gap interval hs (k + 1)" by (subst first_gap.simps) simp
    moreover have "\<forall>i. k + 1 \<le> i \<and> i < first_gap interval hs (k + 1) \<longrightarrow> hs ! i = hs ! (i - 1) + interval"
      "k + 1 \<le> first_gap interval hs (k + 1)" "first_gap interval hs (k + 1) \<le> length hs"
      using 1 True by auto
    moreover have "hs ! i = hs ! (i - 1) + interval" if "k \<le> i" "i < first_gap interval hs (k + 1)" for i
      using that True calculation(2) by (cases "i = k") auto
    ultimately show ?thesis by simp
  next
    case False
    then have "first_gap interval hs k = k" by (subst first_gap.simps) auto
    with 1(3) show ?thesis by auto
  qed
qed

text \<open>The invariant of the list: it holds completed snapshots in order, and every snapshot up to its first is completed.\<close>

definition completed_up_to :: "nat \<Rightarrow> nat set \<Rightarrow> 64 word list \<Rightarrow> bool" where
  "completed_up_to iv snaps hs \<longleftrightarrow> (\<exists>ns. hs = map (snap iv) ns \<and> ns \<noteq> [] \<and> sorted ns \<and> (\<forall>n \<in> set ns. n * iv < 2 ^ 62 \<and> (n = 0 \<or> n \<in> snaps)) \<and>
     (\<forall>j. 0 < j \<and> j \<le> hd ns \<longrightarrow> j \<in> snaps))"

lemma sort_snaps:
  assumes "0 < iv" "\<forall>n \<in> set ns. n * iv < 2 ^ 62"
  shows "sort_key sint (map (snap iv) ns) = map (snap iv) (sort ns)"
proof (rule sort_key_inj_key_eq)
  show "mset (map (snap iv) ns) = mset (map (snap iv) (sort ns))" by simp
  show "inj_on sint (set (map (snap iv) ns))" by (auto simp: inj_on_def signed_word_eqI)
  have "sorted (map (\<lambda>n. int (n * iv)) (sort ns))"
    unfolding sorted_wrt_map by (rule sorted_wrt_mono_rel [OF _ sorted_sort]) (simp add: mult_le_mono1 flip: of_nat_mult)
  moreover have "map sint (map (snap iv) (sort ns)) = map (\<lambda>n. int (n * iv)) (sort ns)"
    using assms(2) by (simp add: sint_snap)
  ultimately show "sorted (map sint (map (snap iv) (sort ns)))" by (simp only:)
qed

lemma next_heights_completed:
  assumes iv: "0 < iv" "iv < 2 ^ 62" and hs: "completed_up_to iv snaps hs" and n: "n * iv < 2 ^ 62" "0 < n"
  shows "completed_up_to iv (insert n snaps) (next_heights (word_of_nat iv) (snap iv n) hs)"
proof -
  obtain ns where ns: "hs = map (snap iv) ns" "ns \<noteq> []" "sorted ns" "\<forall>n \<in> set ns. n * iv < 2 ^ 62 \<and> (n = 0 \<or> n \<in> snaps)"
      "\<forall>j. 0 < j \<and> j \<le> hd ns \<longrightarrow> j \<in> snaps"
    using hs by (auto simp: completed_up_to_def)
  define ms where "ms = sort (ns @ [n])"
  have ms: "sorted ms" "set ms = insert n (set ns)" "ms \<noteq> []" "\<forall>m \<in> set ms. m * iv < 2 ^ 62 \<and> (m = 0 \<or> m \<in> insert n snaps)"
    using ns(4) n by (auto simp: ms_def simp flip: set_empty)
  have sorted: "sort_key sint (hs @ [snap iv n]) = map (snap iv) ms"
    using sort_snaps [OF iv(1), of "ns @ [n]"] ns(1,4) n by (simp add: ms_def)
  define k where "k = first_gap (word_of_nat iv) (map (snap iv) ms) 1"
  have k: "1 \<le> k" "k \<le> length ms" "\<And>i. 1 \<le> i \<Longrightarrow> i < k \<Longrightarrow> snap iv (ms ! i) = snap iv (ms ! (i - 1)) + word_of_nat iv"
    using first_gap_run [of 1 "map (snap iv) ms" "word_of_nat iv"] ms(3) by (auto simp: k_def Suc_le_eq)
  have step: "ms ! i = ms ! 0 + i" if "i < k" for i
    using that
  proof (induction i)
    case (Suc i)
    have "ms ! Suc i = Suc (ms ! i)"
      using k(2) k(3) [of "Suc i"] Suc.prems ms(4) iv by (intro snap_next [of _ iv]) auto
    with Suc show ?case by simp
  qed simp
  have nxt: "next_heights (word_of_nat iv) (snap iv n) hs = map (snap iv) (drop (k - 1) ms)"
    by (simp add: next_heights_def sorted k_def drop_map)
  have le0: "ms ! 0 \<le> hd ns"
  proof -
    have "hd ns \<in> set ms" using ms(2) ns(2) by simp
    then obtain i where "i < length ms" "ms ! i = hd ns" by (auto simp: in_set_conv_nth)
    with sorted_nth_mono [OF ms(1), of 0 i] show ?thesis by simp
  qed
  have hd: "hd (drop (k - 1) ms) = ms ! 0 + (k - 1)"
    using k step [of "k - 1"] by (simp add: hd_drop_conv_nth)
  have "j \<in> insert n snaps" if j: "0 < j" "j \<le> ms ! 0 + (k - 1)" for j
  proof (cases "j \<le> ms ! 0")
    case True
    then show ?thesis using ns(5) le0 j(1) by auto
  next
    case False
    then have "j = ms ! (j - ms ! 0)" "j - ms ! 0 < length ms" using j(2) k(1,2) step [of "j - ms ! 0"] by auto
    then have "j \<in> set ms" by (metis nth_mem)
    then show ?thesis using ms(4) j(1) by auto
  qed
  moreover have "drop (k - 1) ms \<noteq> []" using k(1,2) by simp
  moreover have "sorted (drop (k - 1) ms)" using ms(1) by (rule sorted_wrt_drop)
  moreover have "\<forall>m \<in> set (drop (k - 1) ms). m * iv < 2 ^ 62 \<and> (m = 0 \<or> m \<in> insert n snaps)"
    using ms(4) set_drop_subset [of "k - 1" ms] by blast
  ultimately show ?thesis
    unfolding completed_up_to_def nxt using hd by (intro exI [of _ "drop (k - 1) ms"]) simp
qed

lemma interval_pos: "0 < iv \<Longrightarrow> iv < 2 ^ 62 \<Longrightarrow> \<not> (word_of_nat iv :: 64 word) \<le> 0"
  by (simp add: word_le_nat_alt unat_of_nat take_bit_nat_eq_self)

lemma GetPruningHeight_pending:
  assumes iv: "0 < iv" "iv < 2 ^ 62" "pm_snapshotInterval m = word_of_nat iv"
    and hs: "completed_up_to iv snaps (pm_pruneSnapshotHeights m)" and j: "0 < j" "j \<notin> snaps"
  shows "sint (GetPruningHeight h m) < int (j * iv)"
proof -
  obtain n ns where ns: "pm_pruneSnapshotHeights m = map (snap iv) (n # ns)" "n * iv < 2 ^ 62" "\<forall>j. 0 < j \<and> j \<le> n \<longrightarrow> j \<in> snaps"
    using hs unfolding completed_up_to_def by (metis list.exhaust_sel list.set_intros(1))
  then have "n < j" using j by (meson not_less)
  then have le: "n * iv + iv \<le> j * iv" using mult_le_mono1 [of "Suc n" j iv] by simp
  have ivj: "0 < int (j * iv)" using j(1) iv(1) by (simp only: of_nat_0_less_iff nat_0_less_mult_iff)
  let ?sn = "snap iv n + word_of_nat iv - 1 :: 64 word"
  have "unat (snap iv n + word_of_nat iv :: 64 word) = n * iv + iv"
    using ns(2) iv(2) by (simp add: unat_word_ariths unat_snap unat_of_nat take_bit_nat_eq_self)
  then have u: "unat ?sn = n * iv + iv - 1"
    using iv(1) by (simp add: unat_sub_if')
  have "sint ?sn = int (n * iv + iv - 1)"
    using sint_small [of ?sn] u ns(2) iv(2) by simp
  then have sn: "sint ?sn < int (j * iv)" using le iv(1) by linarith
  show ?thesis
    using sn ivj interval_pos [OF iv(1,2)] ns(1) iv(3) by (auto simp: GetPruningHeight_def Let_def)
qed

lemma HandleSnapshotHeight_run:
  assumes "wp (setSync (Some pruneSnapshotHeightsKey) (Some (int64SliceToBytes (next_heights (pm_snapshotInterval m) h (pm_pruneSnapshotHeights m)))))
      (\<lambda>e d'. e = None \<and> Q d') d"
    and "Strategy (pm_opts m) \<noteq> PruningNothing" "0 < sint h"
  shows "\<exists>d'. HandleSnapshotHeight setSync h (m, d) =
    Some (Inr (), (m\<lparr>pm_pruneSnapshotHeights := next_heights (pm_snapshotInterval m) h (pm_pruneSnapshotHeights m)\<rparr>, d')) \<and> Q d'"
  using assms
  by (auto simp: HandleSnapshotHeight_def wp_def go_bind_apply go_read_def go_modify_def on_store_apply panic_on_def ret_def Let_def)

text \<open>C16. Pruning never removes a height whose snapshot is still to be taken. Whatever the order in which snapshots complete, and however often
  one is reported, the height up to which the manager allows pruning stays below every snapshot height that has not been reported.\<close>

theorem pruning_keeps_pending_snapshots:
  assumes "\<And>k v d. wp (setSync (Some k) (Some v)) (\<lambda>e _. e = None) d"
    and "0 < iv" "iv < 2 ^ 62" "\<forall>n \<in> set ns. 0 < n \<and> n * iv < 2 ^ 62"
    and "Strategy (pm_opts m) \<noteq> PruningNothing" "pm_snapshotInterval m = word_of_nat iv" "pm_pruneSnapshotHeights m = [0]"
  shows "wp (go_for ns (\<lambda>n. HandleSnapshotHeight setSync (word_of_nat (n * iv))))
    (\<lambda>_ x. \<forall>h j. 0 < j \<and> j \<notin> set ns \<longrightarrow> sint (GetPruningHeight h (fst x)) < int (j * iv)) (m, d)"
proof -
  have "completed_up_to iv {} [0]"
    unfolding completed_up_to_def by (rule exI [of _ "[0]"]) (auto simp: snap_def)
  moreover have "\<exists>m' d'. go_for xs (\<lambda>n. HandleSnapshotHeight setSync (snap iv n)) (m, d) = Some (Inr (), (m', d')) \<and>
      pm_snapshotInterval m' = word_of_nat iv \<and> completed_up_to iv (set xs \<union> snaps) (pm_pruneSnapshotHeights m')"
    if "\<forall>n \<in> set xs. 0 < n \<and> n * iv < 2 ^ 62" "completed_up_to iv snaps (pm_pruneSnapshotHeights m)"
      "Strategy (pm_opts m) \<noteq> PruningNothing" "pm_snapshotInterval m = word_of_nat iv" for xs snaps m d
    using that
  proof (induction xs arbitrary: snaps m d)
    case Nil
    then show ?case by (auto simp: ret_def)
  next
    case (Cons n xs)
    have pos: "0 < sint (snap iv n)" using Cons.prems(1) assms(2) by (simp add: sint_snap flip: of_nat_mult)
    obtain d1 where 1: "HandleSnapshotHeight setSync (snap iv n) (m, d) =
        Some (Inr (), (m\<lparr>pm_pruneSnapshotHeights := next_heights (pm_snapshotInterval m) (snap iv n) (pm_pruneSnapshotHeights m)\<rparr>, d1))"
      using HandleSnapshotHeight_run [of setSync m "snap iv n" "\<lambda>_. True" d] assms(1) Cons.prems(3) pos by auto
    let ?m = "m\<lparr>pm_pruneSnapshotHeights := next_heights (pm_snapshotInterval m) (snap iv n) (pm_pruneSnapshotHeights m)\<rparr>"
    have "completed_up_to iv (insert n snaps) (pm_pruneSnapshotHeights ?m)"
      using next_heights_completed [OF assms(2,3) Cons.prems(2)] Cons.prems(1,4) by simp
    then show ?case
      using Cons.IH [of "insert n snaps" ?m d1] Cons.prems 1 by (simp add: go_bind_apply insert_commute)
  qed
  ultimately obtain m' d' where "go_for ns (\<lambda>n. HandleSnapshotHeight setSync (snap iv n)) (m, d) = Some (Inr (), (m', d'))"
      "pm_snapshotInterval m' = word_of_nat iv" "completed_up_to iv (set ns) (pm_pruneSnapshotHeights m')"
    using assms(4-7) by (metis sup_bot.right_neutral)
  then show ?thesis
    using GetPruningHeight_pending [OF assms(2,3)] unfolding snap_def wp_def by fastforce
qed

text \<open>The parameters are the set method of an empty store of errors, an interval of 10 and the snapshots of heights 20, 10 and 20 again.\<close>

theorem pruning_keeps_pending_snapshots_witness:
  "wp (go_for [2, 1, 2] (\<lambda>n. HandleSnapshotHeight (\<lambda>_ _. ret None) (word_of_nat (n * 10))))
    (\<lambda>_ x. \<forall>h j. 0 < j \<and> j \<notin> set [2, 1, 2] \<longrightarrow> sint (GetPruningHeight h (fst x)) < int (j * 10))
    (SetSnapshotInterval 10 (pruning_SetOptions (NewPruningOptions PruningEverything) pruning_NewManager), ())"
  by (rule pruning_keeps_pending_snapshots)
    (simp_all add: wp_def ret_def SetSnapshotInterval_def pruning_SetOptions_def pruning_NewManager_def NewPruningOptions.simps)

section \<open>Heights on disk\<close>

lemma be_value_word: "word_of_nat (be_value (take 8 (Uint64ToBigEndian h @ bz))) = h"
  using unsigned_less [of h, where ?'a = nat] by (simp add: Uint64ToBigEndian_def be_value_put)

lemma load_heights_run:
  "\<forall>h \<in> set hs. 0 \<le> sint h \<Longrightarrow> load_heights (int64SliceToBytes hs) d = Some (Inr (Inr hs), d)"
proof (induction hs)
  case Nil
  show ?case by (subst load_heights.simps) (simp add: int64SliceToBytes_def ret_def)
next
  case (Cons h hs)
  have len: "length (Uint64ToBigEndian h) = 8" by (simp add: Uint64ToBigEndian_def)
  have split: "int64SliceToBytes (h # hs) = Uint64ToBigEndian h @ int64SliceToBytes hs" by (simp add: int64SliceToBytes_def)
  have ne: "int64SliceToBytes (h # hs) \<noteq> []" "\<not> length (int64SliceToBytes (h # hs)) < 8"
    using len by (auto simp: split)
  have "drop 8 (int64SliceToBytes (h # hs)) = int64SliceToBytes hs" using len by (simp add: split)
  then show ?case
    using Cons ne be_value_word [of h "int64SliceToBytes hs"] len
    by (subst load_heights.simps) (simp add: split Let_def go_bind_apply ret_def)
qed

lemma set_next_heights: "set (next_heights iv h hs) \<subseteq> insert h (set hs)"
  unfolding next_heights_def Let_def using set_drop_subset by fastforce

lemma next_heights_ne: "next_heights iv h hs \<noteq> []"
  using first_gap_run [of 1 "sort_key sint (hs @ [h])" iv] by (auto simp: next_heights_def Let_def)

text \<open>C25. Restarting a node restores the pruning state. The manager writes its list of snapshot heights to the database each time it handles a snapshot,
  and a manager that loads them from that database holds the same list.\<close>

theorem pruning_heights_roundtrip:
  assumes "database db d_inv d_contents di_inv di_items" "d_inv d"
    and "\<And>k v d. d_inv d \<Longrightarrow> k \<noteq> [] \<Longrightarrow>
      wp (setSync (Some k) (Some v)) (\<lambda>e d'. e = None \<and> d_inv d' \<and> d_contents d' = (d_contents d)(k \<mapsto> v)) d"
    and "Strategy (pm_opts m) \<noteq> PruningNothing" "Strategy (pm_opts m0) \<noteq> PruningNothing"
    and "0 < sint h" "\<forall>h \<in> set (pm_pruneSnapshotHeights m). 0 \<le> sint h"
  shows "wp (HandleSnapshotHeight setSync h) (\<lambda>_ (m', d').
    wp (LoadSnapshotHeights db) (\<lambda>e (m'', _). e = None \<and> pm_pruneSnapshotHeights m'' = pm_pruneSnapshotHeights m') (m0, d')) (m, d)"
proof -
  let ?hs = "next_heights (pm_snapshotInterval m) h (pm_pruneSnapshotHeights m)"
  have key: "pruneSnapshotHeightsKey \<noteq> []" by (simp add: pruneSnapshotHeightsKey_def)
  obtain d' where run: "HandleSnapshotHeight setSync h (m, d) = Some (Inr (), (m\<lparr>pm_pruneSnapshotHeights := ?hs\<rparr>, d'))"
      and d': "d_inv d'" "d_contents d' pruneSnapshotHeightsKey = Some (int64SliceToBytes ?hs)"
    using HandleSnapshotHeight_run [of setSync m h "\<lambda>d'. d_inv d' \<and> d_contents d' = (d_contents d)(pruneSnapshotHeightsKey \<mapsto> int64SliceToBytes ?hs)" d,
        OF assms(3) [OF assms(2) key] assms(4,6)] by auto
  obtain d'' where get: "db_Get db (Some pruneSnapshotHeightsKey) d' = Some (Inr (Inr (Some (int64SliceToBytes ?hs))), d'')"
    using database.Get [OF assms(1) d'(1) key] d'(2) by (auto simp: wp_def split: option.splits sum.splits)
  have "\<forall>h \<in> set ?hs. 0 \<le> sint h" using set_next_heights assms(6,7) by fastforce
  note load = load_heights_run [OF this, of d'']
  have "Uint64ToBigEndian x \<noteq> []" for x by (simp add: Uint64ToBigEndian_def flip: length_0_conv)
  then have "int64SliceToBytes ?hs \<noteq> []"
    using next_heights_ne [of "pm_snapshotInterval m" h "pm_pruneSnapshotHeights m"] by (simp add: int64SliceToBytes_def)
  then have "LoadSnapshotHeights db (m0, d') = Some (Inr None, (m0\<lparr>pm_pruneSnapshotHeights := ?hs\<rparr>, d''))"
    using assms(5) get load next_heights_ne
    by (simp add: LoadSnapshotHeights_def loadPruningSnapshotHeights_def go_bind_apply go_read_def go_modify_def on_store_apply ret_def)
  then show ?thesis using run by (simp add: wp_def)
qed

theorem pruning_heights_roundtrip_witness:
  "wp (HandleSnapshotHeight (db_Set ref_db) 10) (\<lambda>_ (m', d').
    wp (LoadSnapshotHeights ref_db) (\<lambda>e (m'', _). e = None \<and> pm_pruneSnapshotHeights m'' = pm_pruneSnapshotHeights m')
      (pruning_SetOptions (NewPruningOptions PruningEverything) pruning_NewManager, d'))
    (SetSnapshotInterval 10 (pruning_SetOptions (NewPruningOptions PruningEverything) pruning_NewManager), [])"
  by (rule pruning_heights_roundtrip [OF ref_database.database_axioms _ ref_database.Set])
    (simp_all add: SetSnapshotInterval_def pruning_SetOptions_def pruning_NewManager_def NewPruningOptions.simps ref_d_inv_def)

end
