(* ===== verification/Go_Files.thy ===== *)
theory Go_Files
  imports Go_Prelude "HOL-Library.Sublist"
begin

text \<open>
  What the code uses of the Go standard library around files: the decimal form of a number (\<open>strconv.FormatUint\<close>,
  \<open>fmt.Sprintf("%d")\<close>), paths joined by \<open>filepath.Join\<close>, and the calls of package os on a tree of directories and files; and
  deferred calls.
\<close>

section \<open>Numbers in decimal\<close>

function FormatUint :: "nat \<Rightarrow> string" where
  "FormatUint n = (if n < 10 then [char_of (48 + n)] else FormatUint (n div 10) @ [char_of (48 + n mod 10)])"
  by auto
termination by (relation "measure id") auto

declare FormatUint.simps [simp del]

definition FormatInt :: "int \<Rightarrow> string" where
  "FormatInt i = (if i < 0 then ''-'' @ FormatUint (nat (- i)) else FormatUint (nat i))"

definition decimal_value :: "string \<Rightarrow> nat" where
  "decimal_value s = foldl (\<lambda>a c. 10 * a + (of_char c - 48)) 0 s"

lemma decimal_value_FormatUint: "decimal_value (FormatUint n) = n"
proof (induction n rule: FormatUint.induct)
  case (1 n)
  have digit: "(of_char (char_of (48 + m) :: char) :: nat) - 48 = m" if "m < 10" for m
    using that by (simp add: take_bit_eq_mod)
  show ?case
  proof (cases "n < 10")
    case True
    then show ?thesis using digit by (subst FormatUint.simps) (simp add: decimal_value_def)
  next
    case False
    then have "decimal_value (FormatUint n) = 10 * decimal_value (FormatUint (n div 10)) + n mod 10"
      using digit [of "n mod 10"] by (subst FormatUint.simps) (simp add: decimal_value_def)
    then show ?thesis using 1 False by simp
  qed
qed

lemma FormatUint_inj: "FormatUint m = FormatUint n \<longleftrightarrow> m = n"
  by (metis decimal_value_FormatUint)

lemma FormatUint_digit: "FormatUint n \<noteq> [] \<and> hd (FormatUint n) \<noteq> CHR ''-''"
proof (induction n rule: FormatUint.induct)
  case (1 n)
  have "char_of (48 + m) \<noteq> CHR ''-''" if "m < 10" for m :: nat
  proof
    assume "char_of (48 + m) = CHR ''-''"
    then have "of_char (char_of (48 + m) :: char) = (of_char CHR ''-'' :: nat)" by simp
    then show False using that by (simp add: take_bit_eq_mod)
  qed
  with 1 show ?case by (subst (1 2) FormatUint.simps) (auto simp: hd_append)
qed

lemma FormatInt_inj: "FormatInt i = FormatInt j \<longleftrightarrow> i = j"
proof
  assume eq: "FormatInt i = FormatInt j"
  then show "i = j"
    using FormatUint_digit [of "nat i"] FormatUint_digit [of "nat j"]
    by (auto simp: FormatInt_def FormatUint_inj split: if_splits) (metis list.sel(1))+
qed simp

section \<open>Files\<close>

text \<open>
  A path is the list of its elements; the empty path, the working directory, always exists. \<open>fs_fault\<close> gives the error with which the operating
  system fails a call on a path, if it does (permissions, a full disk).
\<close>

type_synonym path = "string list"

datatype fs_call = Sys_mkdir | Sys_removeall | Sys_remove | Sys_create | Sys_write | Sys_close | Sys_open

datatype os_error = ErrNotExist | ErrOS string

record FS =
  fs_dirs :: "path list"
  fs_files :: "(path \<times> bytes) list"
  fs_fault :: "fs_call \<Rightarrow> path \<Rightarrow> string option"

definition is_dir :: "FS \<Rightarrow> path \<Rightarrow> bool" where
  "is_dir fs p \<longleftrightarrow> p = [] \<or> p \<in> set (fs_dirs fs)"

definition sys :: "fs_call \<Rightarrow> path \<Rightarrow> (FS, os_error option) go \<Rightarrow> (FS, os_error option) go" where
  "sys call p m = go_bind (go_read (\<lambda>fs. fs_fault fs call p)) (\<lambda>e. case e of Some err \<Rightarrow> ret (Some (ErrOS err)) | None \<Rightarrow> m)"

definition os_MkdirAll :: "path \<Rightarrow> (FS, os_error option) go" where
  "os_MkdirAll p = sys Sys_mkdir p (go_bind (go_read (\<lambda>fs. \<exists>q \<in> set (prefixes p). map_of (fs_files fs) q \<noteq> None)) (\<lambda>blocked.
     if blocked then ret (Some (ErrOS ''not a directory''))
     else go_bind (go_modify (\<lambda>fs. fs\<lparr>fs_dirs := fold List.insert (filter (\<lambda>q. q \<noteq> []) (prefixes p)) (fs_dirs fs)\<rparr>)) (\<lambda>_. ret None)))"

definition os_RemoveAll :: "path \<Rightarrow> (FS, os_error option) go" where
  "os_RemoveAll p = sys Sys_removeall p (go_bind (go_modify (\<lambda>fs. fs\<lparr>
     fs_dirs := filter (\<lambda>q. \<not> prefix p q) (fs_dirs fs), fs_files := filter (\<lambda>e. \<not> prefix p (fst e)) (fs_files fs)\<rparr>)) (\<lambda>_. ret None))"

definition os_Remove :: "path \<Rightarrow> (FS, os_error option) go" where
  "os_Remove p = sys Sys_remove p (go_bind (go_read id) (\<lambda>fs.
     if map_of (fs_files fs) p \<noteq> None
     then go_bind (go_modify (\<lambda>fs. fs\<lparr>fs_files := AList.delete p (fs_files fs)\<rparr>)) (\<lambda>_. ret None)
     else if p \<notin> set (fs_dirs fs) then ret (Some ErrNotExist)
     else if \<exists>q \<in> set (fs_dirs fs) \<union> fst ` set (fs_files fs). strict_prefix p q then ret (Some (ErrOS ''directory not empty''))
     else go_bind (go_modify (\<lambda>fs. fs\<lparr>fs_dirs := removeAll p (fs_dirs fs)\<rparr>)) (\<lambda>_. ret None)))"

text \<open>\<open>os.Create\<close> and \<open>os.WriteFile\<close> make or truncate a file in an existing directory.\<close>

definition put_file :: "path \<Rightarrow> bytes \<Rightarrow> (FS, os_error option) go" where
  "put_file p data = go_bind (go_read (\<lambda>fs. is_dir fs p \<or> \<not> is_dir fs (butlast p))) (\<lambda>bad.
     if bad then ret (Some ErrNotExist)
     else go_bind (go_modify (\<lambda>fs. fs\<lparr>fs_files := AList.update p data (fs_files fs)\<rparr>)) (\<lambda>_. ret None))"

definition os_Create :: "path \<Rightarrow> (FS, os_error option) go" where
  "os_Create p = sys Sys_create p (put_file p [])"

definition os_WriteFile :: "path \<Rightarrow> bytes \<Rightarrow> (FS, os_error option) go" where
  "os_WriteFile p data = sys Sys_write p (put_file p data)"

text \<open>Writing to the end of an open file, and closing it.\<close>

definition file_Write :: "path \<Rightarrow> bytes \<Rightarrow> (FS, os_error option) go" where
  "file_Write p data = sys Sys_write p (go_bind (go_modify (\<lambda>fs. fs\<lparr>fs_files :=
     AList.update p ((case map_of (fs_files fs) p of None \<Rightarrow> [] | Some old \<Rightarrow> old) @ data) (fs_files fs)\<rparr>)) (\<lambda>_. ret None))"

definition file_Close :: "path \<Rightarrow> (FS, os_error option) go" where
  "file_Close p = sys Sys_close p (ret None)"

definition os_Open :: "path \<Rightarrow> (FS, os_error + bytes) go" where
  "os_Open p = go_read (\<lambda>fs. case fs_fault fs Sys_open p of Some err \<Rightarrow> Inl (ErrOS err)
     | None \<Rightarrow> (case map_of (fs_files fs) p of Some data \<Rightarrow> Inr data
       | None \<Rightarrow> Inl (if is_dir fs p then ErrOS ''is a directory'' else ErrNotExist)))"

section \<open>Deferred calls\<close>

text \<open>\<open>d\<close> runs when \<open>m\<close> has returned or panicked.\<close>

definition go_defer :: "('s, unit) go \<Rightarrow> ('s, 'a) go \<Rightarrow> ('s, 'a) go" where
  "go_defer d m = (\<lambda>s. case m s of None \<Rightarrow> None
     | Some (r, s1) \<Rightarrow> (case d s1 of None \<Rightarrow> None
       | Some (Inl p, s2) \<Rightarrow> Some (Inl p, s2) | Some (Inr _, s2) \<Rightarrow> Some (r, s2)))"

lemma wp_defer [wp_simps]: "wp (go_defer d m) Q s \<longleftrightarrow> wp m (\<lambda>x s1. wp d (\<lambda>_. Q x) s1) s"
  by (auto simp: wp_def go_defer_def split: option.splits sum.splits)

section \<open>What a program leaves alone\<close>

text \<open>\<open>keeps f m\<close>: whenever \<open>m\<close> returns or panics, the part \<open>f\<close> of the state is as before.\<close>

named_theorems keeps_intros \<open>rules that show what a program leaves alone\<close>

definition keeps :: "('s \<Rightarrow> 'b) \<Rightarrow> ('s, 'a) go \<Rightarrow> bool" where
  "keeps f m \<longleftrightarrow> (\<forall>s r s'. m s = Some (r, s') \<longrightarrow> f s' = f s)"

lemma keepsD: "keeps f m \<Longrightarrow> m s = Some (r, s') \<Longrightarrow> f s' = f s"
  by (simp add: keeps_def)

lemma keeps_ret [keeps_intros]: "keeps f (ret x)"
  by (simp add: keeps_def ret_def)

lemma keeps_panic [keeps_intros]: "keeps f (go_panic p)"
  by (simp add: keeps_def go_panic_def)

lemma keeps_read [keeps_intros]: "keeps f (go_read g)"
  by (simp add: keeps_def go_read_def)

lemma keeps_none [keeps_intros]: "keeps f (\<lambda>_. None)"
  by (simp add: keeps_def)

lemma keeps_modify [keeps_intros]: "(\<And>s. f (g s) = f s) \<Longrightarrow> keeps f (go_modify g)"
  by (simp add: keeps_def go_modify_def)

lemma keeps_bind [keeps_intros]: "keeps f m \<Longrightarrow> (\<And>x. keeps f (g x)) \<Longrightarrow> keeps f (go_bind m g)"
  by (fastforce simp: keeps_def go_bind_def split: option.splits sum.splits)

lemma keeps_zoom [keeps_intros]: "(\<And>s t. f (put s t) = f t) \<Longrightarrow> keeps f (go_zoom get put m)"
  by (auto simp: keeps_def go_zoom_def split: option.splits)

lemma keeps_zoom_part: "keeps g m \<Longrightarrow> (\<And>s t. g s = g (get t) \<Longrightarrow> f (put s t) = f t) \<Longrightarrow> keeps f (go_zoom get put m)"
  by (fastforce simp: keeps_def go_zoom_def split: option.splits)

lemma keeps_local [keeps_intros]: "keeps (\<lambda>x. f (fst x)) m \<Longrightarrow> keeps f (go_local l m)"
  by (fastforce simp: keeps_def go_local_def split: option.splits sum.splits)

lemma keeps_defer [keeps_intros]: "keeps f d \<Longrightarrow> keeps f m \<Longrightarrow> keeps f (go_defer d m)"
  by (fastforce simp: keeps_def go_defer_def split: option.splits sum.splits)

lemma keeps_if [keeps_intros]: "(b \<Longrightarrow> keeps f m) \<Longrightarrow> (\<not> b \<Longrightarrow> keeps f n) \<Longrightarrow> keeps f (if b then m else n)"
  by simp

lemma keeps_option [keeps_intros]: "(x = None \<Longrightarrow> keeps f m) \<Longrightarrow> (\<And>y. x = Some y \<Longrightarrow> keeps f (g y)) \<Longrightarrow> keeps f (case x of None \<Rightarrow> m | Some y \<Rightarrow> g y)"
  by (cases x) simp_all

lemma keeps_sum [keeps_intros]: "(\<And>y. x = Inl y \<Longrightarrow> keeps f (m y)) \<Longrightarrow> (\<And>y. x = Inr y \<Longrightarrow> keeps f (g y)) \<Longrightarrow> keeps f (case x of Inl y \<Rightarrow> m y | Inr y \<Rightarrow> g y)"
  by (cases x) simp_all

lemma keeps_prod [keeps_intros]: "(\<And>y z. x = (y, z) \<Longrightarrow> keeps f (m y z)) \<Longrightarrow> keeps f (case x of (y, z) \<Rightarrow> m y z)"
  by (cases x) simp

lemma keeps_comp: "keeps g m \<Longrightarrow> keeps (h \<circ> g) m"
  by (simp add: keeps_def)

end
