(* ===== verification/Snapshot_Chunks.thy ===== *)
theory Snapshot_Chunks
  imports Go_Prelude
begin

text \<open>
  snapshots/chunk.go: the writer that cuts a byte stream into chunks and the reader that joins them again. A chunk travels
  through an \<open>io.Pipe\<close> of the Go standard library, and the pipes through a channel that the writer closes. The channel is the list of the
  pipes sent. Sizes are those of slices in memory, natural numbers.
\<close>

datatype io_error = IO_EOF | IO_ClosedPipe | IO_err string

section \<open>Pipes\<close>

text \<open>
  A pipe has the writes that its reader has received, the error that the writer closed it with, and what the reader will do:
  read everything, or read so many bytes more and close its end.
\<close>

record Pipe =
  pipe_data :: "bytes list"
  pipe_end :: "io_error option"
  pipe_takes :: "nat option"

definition io_Pipe :: "nat option \<Rightarrow> Pipe" where
  "io_Pipe takes = \<lparr>pipe_data = [], pipe_end = None, pipe_takes = takes\<rparr>"

definition Pipe_Write :: "bytes \<Rightarrow> Pipe \<Rightarrow> (nat \<times> io_error option) \<times> Pipe" where
  "Pipe_Write data p =
     (case pipe_takes p of
        None \<Rightarrow> ((length data, None), p\<lparr>pipe_data := pipe_data p @ [data]\<rparr>)
      | Some n \<Rightarrow>
          if length data \<le> n
          then ((length data, None), p\<lparr>pipe_data := pipe_data p @ [data], pipe_takes := Some (n - length data)\<rparr>)
          else ((n, Some IO_ClosedPipe),
            p\<lparr>pipe_data := pipe_data p @ (if n = 0 then [] else [take n data]), pipe_takes := Some 0\<rparr>))"

text \<open>The first error stays; a nil error is the end of the file.\<close>

definition Pipe_CloseWithError :: "io_error option \<Rightarrow> Pipe \<Rightarrow> Pipe" where
  "Pipe_CloseWithError err p =
     p\<lparr>pipe_end := Some (case pipe_end p of Some e \<Rightarrow> e | None \<Rightarrow> (case err of None \<Rightarrow> IO_EOF | Some e \<Rightarrow> e))\<rparr>"

section \<open>ChunkWriter\<close>

text \<open>\<open>cw_ch\<close> has the pipes sent before the current one.\<close>

record ChunkWriter =
  cw_ch :: "Pipe list"
  cw_pipe :: "Pipe option"
  cw_chunkSize :: nat
  cw_written :: nat
  cw_closed :: bool

definition NewChunkWriter :: "nat \<Rightarrow> ChunkWriter" where
  "NewChunkWriter chunkSize =
     \<lparr>cw_ch = [], cw_pipe = None, cw_chunkSize = chunkSize, cw_written = 0, cw_closed = False\<rparr>"

definition cw_sent :: "ChunkWriter \<Rightarrow> Pipe list" where
  "cw_sent w = cw_ch w @ (case cw_pipe w of None \<Rightarrow> [] | Some p \<Rightarrow> [p])"

text \<open>\<open>takes\<close> says what the reader of each pipe will do. Closing a \<open>PipeWriter\<close> returns no error.\<close>

definition cw_chunk :: "(nat \<Rightarrow> nat option) \<Rightarrow> ChunkWriter \<Rightarrow> ChunkWriter" where
  "cw_chunk takes w =
     w\<lparr>cw_ch := cw_ch w @ (case cw_pipe w of None \<Rightarrow> [] | Some p \<Rightarrow> [Pipe_CloseWithError None p]),
       cw_pipe := Some (io_Pipe (takes (length (cw_sent w)))), cw_written := 0\<rparr>"

definition cw_Close :: "ChunkWriter \<Rightarrow> io_error option \<times> ChunkWriter" where
  "cw_Close w =
     (if \<not> cw_closed w
      then (None, w\<lparr>cw_closed := True, cw_pipe := map_option (Pipe_CloseWithError None) (cw_pipe w)\<rparr>)
      else (None, w))"

definition cw_CloseWithError :: "(nat \<Rightarrow> nat option) \<Rightarrow> io_error option \<Rightarrow> ChunkWriter \<Rightarrow> ChunkWriter" where
  "cw_CloseWithError takes err w =
     (if \<not> cw_closed w
      then let w1 = (if cw_pipe w = None then cw_chunk takes w else w) in
        w1\<lparr>cw_closed := True, cw_pipe := map_option (Pipe_CloseWithError err) (cw_pipe w1)\<rparr>
      else w)"

text \<open>The first statement of the loop: a new chunk when there is none or the current one is full.\<close>

definition cw_ready :: "(nat \<Rightarrow> nat option) \<Rightarrow> ChunkWriter \<Rightarrow> ChunkWriter" where
  "cw_ready takes w =
     (if cw_pipe w = None \<or> (cw_written w \<ge> cw_chunkSize w \<and> cw_chunkSize w > 0) then cw_chunk takes w else w)"

definition writeSize :: "bytes \<Rightarrow> ChunkWriter \<Rightarrow> nat" where
  "writeSize data w =
     (let n = (if cw_chunkSize w = 0 then length data else cw_chunkSize w - cw_written w) in
      if n > length data then length data else n)"

lemma writeSize_pos: "data \<noteq> [] \<Longrightarrow> 0 < writeSize data (cw_ready takes w)"
  by (auto simp: writeSize_def cw_ready_def cw_chunk_def Let_def)

function cw_write_loop :: "(nat \<Rightarrow> nat option) \<Rightarrow> nat \<Rightarrow> bytes \<Rightarrow> ChunkWriter \<Rightarrow> (nat \<times> io_error option) \<times> ChunkWriter" where
  "cw_write_loop takes nTotal data w =
     (if data = [] then ((nTotal, None), w)
      else
        let w1 = cw_ready takes w;
            size = writeSize data w1;
            r = Pipe_Write (take size data) (the (cw_pipe w1));
            n = fst (fst r);
            w2 = w1\<lparr>cw_pipe := Some (snd r), cw_written := cw_written w1 + n\<rparr>
        in case snd (fst r) of
             Some err \<Rightarrow> ((nTotal + n, Some err), w2)
           | None \<Rightarrow> cw_write_loop takes (nTotal + n) (drop size data) w2)"
  by auto
termination
proof (relation "measure (\<lambda>(_, _, data, _). length data)", goal_cases)
  case (2 takes nTotal data w)
  then show ?case using writeSize_pos [of data takes w] by (auto simp: length_greater_0_conv)
qed simp

declare cw_write_loop.simps [simp del]

definition cw_Write :: "(nat \<Rightarrow> nat option) \<Rightarrow> bytes \<Rightarrow> ChunkWriter \<Rightarrow> (nat \<times> io_error option) \<times> ChunkWriter" where
  "cw_Write takes data w =
     (if cw_closed w then ((0, Some (IO_err ''cannot write to closed ChunkWriter'')), w)
      else cw_write_loop takes 0 data w)"

section \<open>ChunkReader\<close>

text \<open>
  A reader gives its data in pieces, each read at most one piece, then the error at its end; closing it may fail. \<open>cr_ch\<close> has the readers
  that the channel will still deliver before it is closed.
\<close>

record ReadCloser =
  rc_data :: "bytes list"
  rc_end :: io_error
  rc_close :: "io_error option"

definition rc_Read :: "nat \<Rightarrow> ReadCloser \<Rightarrow> (bytes \<times> io_error option) \<times> ReadCloser" where
  "rc_Read n r =
     (case rc_data r of
        [] \<Rightarrow> (([], Some (rc_end r)), r)
      | s # ss \<Rightarrow> ((take n s, None), r\<lparr>rc_data := (if length s \<le> n then ss else drop n s # ss)\<rparr>))"

record ChunkReader =
  cr_ch :: "ReadCloser list"
  cr_reader :: "ReadCloser option"

definition NewChunkReader :: "ReadCloser list \<Rightarrow> ChunkReader" where
  "NewChunkReader ch = \<lparr>cr_ch = ch, cr_reader = None\<rparr>"

definition cr_next :: "ChunkReader \<Rightarrow> io_error option \<times> ChunkReader" where
  "cr_next r = (case cr_ch r of [] \<Rightarrow> (Some IO_EOF, r) | x # xs \<Rightarrow> (None, r\<lparr>cr_ch := xs, cr_reader := Some x\<rparr>))"

definition cr_Close :: "ChunkReader \<Rightarrow> io_error option \<times> ChunkReader" where
  "cr_Close r =
     (fold (\<lambda>x err. if rc_close x \<noteq> None \<and> err = None then rc_close x else err) (cr_ch r)
        (case cr_reader r of None \<Rightarrow> None | Some x \<Rightarrow> rc_close x),
      \<lparr>cr_ch = [], cr_reader = None\<rparr>)"

function cr_Read :: "nat \<Rightarrow> ChunkReader \<Rightarrow> (bytes \<times> io_error option) \<times> ChunkReader" where
  "cr_Read n r =
     (let (e, r1) = (if cr_reader r = None then cr_next r else (None, r)) in
      case e of Some err \<Rightarrow> (([], Some err), r1)
      | None \<Rightarrow>
          let res = rc_Read n (the (cr_reader r1)) in
          if snd (fst res) = Some IO_EOF
          then (case rc_close (snd res) of
                  Some err \<Rightarrow> (([], Some err), r1\<lparr>cr_reader := None\<rparr>)
                | None \<Rightarrow> cr_Read n (r1\<lparr>cr_reader := None\<rparr>))
          else (fst res, r1\<lparr>cr_reader := Some (snd res)\<rparr>))"
  by auto
termination
  by (relation "measure (\<lambda>(_, r). length (cr_ch r) + (if cr_reader r = None then 0 else 1))")
    (auto simp: cr_next_def split: list.splits if_splits)

declare cr_Read.simps [simp del]

text \<open>\<open>io.ReadAll\<close> of the standard library, with the sizes of the buffers it reads into.\<close>

partial_function (option) cr_ReadAll ::
  "(nat \<Rightarrow> nat) \<Rightarrow> nat \<Rightarrow> bytes \<Rightarrow> ChunkReader \<Rightarrow> ((bytes \<times> io_error option) \<times> ChunkReader) option" where
  "cr_ReadAll buf i acc r =
     (case cr_Read (buf i) r of ((bz, err), r') \<Rightarrow>
        if err = Some IO_EOF then Some ((acc @ bz, None), r')
        else if err \<noteq> None then Some ((acc @ bz, err), r')
        else cr_ReadAll buf (Suc i) (acc @ bz) r')"

section \<open>The chunks of a stream\<close>

function chunks_of :: "nat \<Rightarrow> 'a list \<Rightarrow> 'a list list" where
  "chunks_of n xs = (if xs = [] then [] else if n = 0 then [xs] else take n xs # chunks_of n (drop n xs))"
  by auto
termination by (relation "measure (\<lambda>(_, xs). length xs)") auto

declare chunks_of.simps [simp del]

lemma chunks_of_full:
  assumes "0 < n" "\<forall>x \<in> set xs. length x = n" "y \<noteq> []" "length y \<le> n"
  shows "chunks_of n (concat xs @ y) = xs @ [y]"
  using assms(2)
proof (induction xs)
  case Nil
  then show ?case using assms by (subst chunks_of.simps) (simp add: chunks_of.simps)
next
  case (Cons x xs)
  then show ?case using assms by (subst chunks_of.simps) auto
qed

lemma concat_chunks_of: "concat (chunks_of n xs) = xs"
proof (induction n xs rule: chunks_of.induct)
  case (1 n xs)
  then show ?case by (subst chunks_of.simps) simp
qed

lemma length_chunks_of: "length (chunks_of n xs) \<le> length xs"
proof (induction n xs rule: chunks_of.induct)
  case (1 n xs)
  show ?case
  proof (cases "xs = [] \<or> n = 0")
    case True
    then show ?thesis by (subst chunks_of.simps) (auto simp: Suc_le_eq)
  next
    case False
    then have "length (chunks_of n (drop n xs)) < length xs"
      using 1 le_less_trans [of _ "length xs - n" "length xs"] by simp
    then show ?thesis using False by (subst chunks_of.simps) (simp add: Suc_le_eq)
  qed
qed

abbreviation pipe_bytes :: "Pipe \<Rightarrow> bytes" where
  "pipe_bytes p \<equiv> concat (pipe_data p)"

text \<open>The state of a writer whose readers take everything, after the bytes \<open>c\<close>.\<close>

definition pipe_done :: "Pipe \<Rightarrow> bool" where
  "pipe_done p \<longleftrightarrow> pipe_end p = Some IO_EOF \<and> [] \<notin> set (pipe_data p)"

definition cw_inv :: "nat \<Rightarrow> ChunkWriter \<Rightarrow> bytes \<Rightarrow> bool" where
  "cw_inv sz w c \<longleftrightarrow> \<not> cw_closed w \<and> cw_chunkSize w = sz \<and> concat (map pipe_bytes (cw_sent w)) = c \<and>
     (\<forall>p \<in> set (cw_ch w). pipe_done p \<and> length (pipe_bytes p) = sz) \<and> (sz = 0 \<longrightarrow> cw_ch w = []) \<and>
     (case cw_pipe w of None \<Rightarrow> cw_ch w = []
      | Some p \<Rightarrow> pipe_end p = None \<and> pipe_takes p = None \<and> pipe_data p \<noteq> [] \<and> [] \<notin> set (pipe_data p) \<and>
          length (pipe_bytes p) = cw_written w \<and> (0 < sz \<longrightarrow> cw_written w \<le> sz))"

lemma cw_inv_new: "cw_inv sz (NewChunkWriter sz) []"
  by (simp add: cw_inv_def NewChunkWriter_def cw_sent_def)

text \<open>What the start of the loop gives: an open pipe with room for a byte.\<close>

lemma cw_ready_open:
  assumes "cw_inv sz w c"
  obtains p where "cw_pipe (cw_ready (\<lambda>_. None) w) = Some p" "pipe_end p = None" "pipe_takes p = None" "[] \<notin> set (pipe_data p)"
    "\<not> cw_closed (cw_ready (\<lambda>_. None) w)" "cw_chunkSize (cw_ready (\<lambda>_. None) w) = sz"
    "concat (map pipe_bytes (cw_ch (cw_ready (\<lambda>_. None) w))) @ pipe_bytes p = c"
    "\<forall>p \<in> set (cw_ch (cw_ready (\<lambda>_. None) w)). pipe_done p \<and> length (pipe_bytes p) = sz"
    "sz = 0 \<longrightarrow> cw_ch (cw_ready (\<lambda>_. None) w) = []" "length (pipe_bytes p) = cw_written (cw_ready (\<lambda>_. None) w)"
    "0 < sz \<longrightarrow> cw_written (cw_ready (\<lambda>_. None) w) < sz"
proof (cases "cw_pipe w")
  case None
  then show ?thesis
    using assms that by (auto simp: cw_inv_def cw_ready_def cw_chunk_def io_Pipe_def cw_sent_def)
next
  case (Some p)
  note p = Some
  show ?thesis
  proof (cases "cw_written w \<ge> sz \<and> sz > 0")
    case True
    then have "cw_written w = sz" using assms p by (auto simp: cw_inv_def)
    then show ?thesis
      using True assms p that
      by (simp add: cw_inv_def cw_ready_def cw_chunk_def io_Pipe_def cw_sent_def Pipe_CloseWithError_def pipe_done_def)
  next
    case False
    then show ?thesis
      using assms p that by (auto simp: cw_inv_def cw_ready_def cw_sent_def)
  qed
qed

lemma cw_write_loop_run:
  assumes "cw_inv sz w c"
  shows "\<exists>w'. cw_write_loop (\<lambda>_. None) nTotal data w = ((nTotal + length data, None), w') \<and> cw_inv sz w' (c @ data)"
  using assms
proof (induction "length data" arbitrary: nTotal data w c rule: less_induct)
  case less
  show ?case
  proof (cases "data = []")
    case True
    then show ?thesis using less.prems by (simp add: cw_write_loop.simps)
  next
    case False
    let ?w1 = "cw_ready (\<lambda>_. None) w"
    obtain p where p: "cw_pipe ?w1 = Some p" "pipe_end p = None" "pipe_takes p = None" "[] \<notin> set (pipe_data p)" "\<not> cw_closed ?w1"
        "cw_chunkSize ?w1 = sz" "concat (map pipe_bytes (cw_ch ?w1)) @ pipe_bytes p = c"
        "\<forall>p \<in> set (cw_ch ?w1). pipe_done p \<and> length (pipe_bytes p) = sz" "sz = 0 \<longrightarrow> cw_ch ?w1 = []"
        "length (pipe_bytes p) = cw_written ?w1" "0 < sz \<longrightarrow> cw_written ?w1 < sz"
      using cw_ready_open [OF less.prems] by blast
    define n where "n = writeSize data ?w1"
    have n: "0 < n" "n \<le> length data" "0 < sz \<longrightarrow> cw_written ?w1 + n \<le> sz"
      using writeSize_pos [OF False, of "\<lambda>_. None" w] False p(6,11) by (auto simp: n_def writeSize_def Let_def)
    define w2 where "w2 = ?w1\<lparr>cw_pipe := Some (p\<lparr>pipe_data := pipe_data p @ [take n data]\<rparr>), cw_written := cw_written ?w1 + n\<rparr>"
    have "cw_inv sz w2 (c @ take n data)"
      using p n False by (auto simp: w2_def cw_inv_def cw_sent_def)
    then obtain w' where w': "cw_write_loop (\<lambda>_. None) (nTotal + n) (drop n data) w2 =
          ((nTotal + n + length (drop n data), None), w')" "cw_inv sz w' ((c @ take n data) @ drop n data)"
      using less.hyps [of "drop n data" w2 "c @ take n data" "nTotal + n"] n(1) False by (auto simp: length_greater_0_conv)
    have "cw_write_loop (\<lambda>_. None) nTotal data w = cw_write_loop (\<lambda>_. None) (nTotal + n) (drop n data) w2"
      using False p(1,3) n(2) by (subst cw_write_loop.simps) (simp add: Let_def Pipe_Write_def w2_def flip: n_def)
    then show ?thesis using w' n(2) by simp
  qed
qed

lemma cw_Write_run:
  assumes "cw_inv sz w c"
  shows "\<exists>w'. cw_Write (\<lambda>_. None) data w = ((length data, None), w') \<and> cw_inv sz w' (c @ data)"
  using cw_write_loop_run [OF assms, of 0 data] assms by (simp add: cw_Write_def cw_inv_def)

lemma cw_writes_run:
  assumes "cw_inv sz w c"
  shows "cw_inv sz (fold (\<lambda>d w. snd (cw_Write (\<lambda>_. None) d w)) ds w) (c @ concat ds)"
  using assms
proof (induction ds arbitrary: w c)
  case (Cons d ds)
  then show ?case using cw_Write_run [OF Cons.prems, of d] by force
qed simp

lemma cw_Close_run:
  assumes "cw_inv sz w c"
  shows "map pipe_bytes (cw_sent (snd (cw_Close w))) = chunks_of sz c" "\<forall>p \<in> set (cw_sent (snd (cw_Close w))). pipe_done p"
proof -
  have "pipe_bytes p \<noteq> []" if "pipe_data p \<noteq> []" "[] \<notin> set (pipe_data p)" for p :: Pipe
    using that by (cases "pipe_data p") auto
  note ne = this
  show "map pipe_bytes (cw_sent (snd (cw_Close w))) = chunks_of sz c"
  proof (cases "cw_pipe w")
    case None
    then show ?thesis using assms by (auto simp: cw_inv_def cw_Close_def cw_sent_def chunks_of.simps)
  next
    case (Some p)
    have c: "c = concat (map pipe_bytes (cw_ch w)) @ pipe_bytes p" and full: "\<forall>x \<in> set (map pipe_bytes (cw_ch w)). length x = sz"
      and p: "pipe_bytes p \<noteq> []" "0 < sz \<longrightarrow> length (pipe_bytes p) \<le> sz" "sz = 0 \<longrightarrow> cw_ch w = []"
      using assms Some ne [of p] by (auto simp: cw_inv_def cw_sent_def)
    have "chunks_of sz c = map pipe_bytes (cw_ch w) @ [pipe_bytes p]"
    proof (cases "sz = 0")
      case True
      then show ?thesis using c p(1,3) by (subst chunks_of.simps) simp
    next
      case False
      then show ?thesis using chunks_of_full [OF _ full p(1)] p(2) c by simp
    qed
    then show ?thesis using assms Some by (simp add: cw_inv_def cw_Close_def cw_sent_def Pipe_CloseWithError_def)
  qed
  show "\<forall>p \<in> set (cw_sent (snd (cw_Close w))). pipe_done p"
    using assms by (auto simp: cw_inv_def cw_Close_def cw_sent_def pipe_done_def Pipe_CloseWithError_def split: option.splits)
qed

section \<open>Joining the chunks\<close>

definition rc_ok :: "ReadCloser \<Rightarrow> bool" where
  "rc_ok r \<longleftrightarrow> rc_end r = IO_EOF \<and> rc_close r = None \<and> [] \<notin> set (rc_data r)"

definition cr_ok :: "ChunkReader \<Rightarrow> bool" where
  "cr_ok r \<longleftrightarrow> list_all rc_ok (cr_ch r) \<and> pred_option rc_ok (cr_reader r)"

definition cr_rest :: "ChunkReader \<Rightarrow> bytes" where
  "cr_rest r = (case cr_reader r of None \<Rightarrow> [] | Some x \<Rightarrow> concat (rc_data x)) @ concat (map (concat \<circ> rc_data) (cr_ch r))"

lemma rc_Read_run:
  assumes "rc_ok x" "0 < n"
  shows "(rc_data x = [] \<and> rc_Read n x = (([], Some IO_EOF), x)) \<or>
    (\<exists>bz x'. bz \<noteq> [] \<and> rc_Read n x = ((bz, None), x') \<and> rc_ok x' \<and> concat (rc_data x) = bz @ concat (rc_data x'))"
proof (cases "rc_data x")
  case Nil
  then show ?thesis using assms by (simp add: rc_Read_def rc_ok_def)
next
  case (Cons s ss)
  then show ?thesis using assms by (auto simp: rc_Read_def rc_ok_def)
qed

text \<open>A read returns the end of the file when nothing is left, and otherwise some of what is left.\<close>

lemma cr_Read_run:
  assumes "cr_ok r" "0 < n"
  shows "(cr_rest r = [] \<and> (\<exists>r'. cr_Read n r = (([], Some IO_EOF), r'))) \<or>
    (\<exists>bz r'. bz \<noteq> [] \<and> cr_Read n r = ((bz, None), r') \<and> cr_ok r' \<and> cr_rest r = bz @ cr_rest r')"
  using assms
proof (induction n r rule: cr_Read.induct)
  case (1 n r)
  define r1 where "r1 = (if cr_reader r = None then snd (cr_next r) else r)"
  show ?case
  proof (cases "cr_reader r = None \<and> cr_ch r = []")
    case True
    then show ?thesis by (subst (1) cr_Read.simps) (simp add: cr_next_def cr_rest_def)
  next
    case False
    then obtain x where x: "cr_reader r1 = Some x" "rc_ok x" "list_all rc_ok (cr_ch r1)" "cr_rest r1 = cr_rest r"
        and step: "(if cr_reader r = None then cr_next r else (None, r)) = (None, r1)"
      using 1(2) by (cases "cr_ch r"; cases "cr_reader r") (auto simp: r1_def cr_next_def cr_ok_def cr_rest_def)
    consider "rc_data x = []" "rc_Read n x = (([], Some IO_EOF), x)"
      | bz x' where "bz \<noteq> []" "rc_Read n x = ((bz, None), x')" "rc_ok x'" "concat (rc_data x) = bz @ concat (rc_data x')"
      using rc_Read_run [OF x(2) 1(3)] by blast
    then show ?thesis
    proof cases
      case 1
      let ?r2 = "r1\<lparr>cr_reader := None\<rparr>"
      have "cr_Read n r = cr_Read n ?r2"
        using step x(1,2) 1 by (subst (1) cr_Read.simps) (simp add: Let_def rc_ok_def)
      moreover have "cr_ok ?r2" "cr_rest ?r2 = cr_rest r" using x 1 by (auto simp: cr_ok_def cr_rest_def)
      moreover have "(cr_rest ?r2 = [] \<and> (\<exists>r'. cr_Read n ?r2 = (([], Some IO_EOF), r'))) \<or>
          (\<exists>bz r'. bz \<noteq> [] \<and> cr_Read n ?r2 = ((bz, None), r') \<and> cr_ok r' \<and> cr_rest ?r2 = bz @ cr_rest r')"
        using "1.IH" [OF step [symmetric] refl refl refl] x(1,2) 1 calculation(2) \<open>0 < n\<close> by (simp add: rc_ok_def)
      ultimately show ?thesis by simp
    next
      case (2 bz x')
      have "cr_Read n r = ((bz, None), r1\<lparr>cr_reader := Some x'\<rparr>)"
        using step x(1) 2(2) by (subst (1) cr_Read.simps) (simp add: Let_def)
      moreover have "cr_ok (r1\<lparr>cr_reader := Some x'\<rparr>)" "cr_rest r = bz @ cr_rest (r1\<lparr>cr_reader := Some x'\<rparr>)"
        using x 2 by (auto simp: cr_ok_def cr_rest_def)
      ultimately show ?thesis using 2(1) by blast
    qed
  qed
qed

lemma cr_ReadAll_run:
  assumes "cr_ok r" "\<forall>i. 0 < buf i"
  shows "\<exists>r'. cr_ReadAll buf i acc r = Some ((acc @ cr_rest r, None), r')"
  using assms(1)
proof (induction "length (cr_rest r)" arbitrary: i acc r rule: less_induct)
  case less
  consider r' where "cr_rest r = []" "cr_Read (buf i) r = (([], Some IO_EOF), r')"
    | bz r' where "bz \<noteq> []" "cr_Read (buf i) r = ((bz, None), r')" "cr_ok r'" "cr_rest r = bz @ cr_rest r'"
    using cr_Read_run [OF less.prems spec [OF assms(2)], of i] by metis
  then show ?case
  proof cases
    case 1
    then show ?thesis unfolding cr_ReadAll.simps [of buf i] by simp
  next
    case 2
    then have "length (cr_rest r') < length (cr_rest r)" by simp
    then obtain r'' where "cr_ReadAll buf (Suc i) (acc @ bz) r' = Some (((acc @ bz) @ cr_rest r', None), r'')"
      using less.hyps [of r' "Suc i" "acc @ bz"] 2(3) by blast
    then show ?thesis using 2 unfolding cr_ReadAll.simps [of buf i] by simp
  qed
qed

text \<open>The reading end of a pipe that its writer has closed.\<close>

definition pipe_reader :: "Pipe \<Rightarrow> ReadCloser" where
  "pipe_reader p = \<lparr>rc_data = pipe_data p, rc_end = (case pipe_end p of None \<Rightarrow> IO_EOF | Some e \<Rightarrow> e), rc_close = None\<rparr>"

text \<open>C14. Chunking loses nothing. Whatever the sizes of the writes, the chunks that a \<open>ChunkWriter\<close> sends are the data cut into pieces of the
  chunk size (one piece for size 0) with the rest in the last chunk, and whatever the sizes of the read buffers, a \<open>ChunkReader\<close> on these chunks
  reads the data to the end.\<close>

theorem chunks_roundtrip:
  assumes "\<forall>i. 0 < buf i"
  shows "let w = fold (\<lambda>d w. snd (cw_Write (\<lambda>_. None) d w)) ds (NewChunkWriter chunkSize); chunks = cw_sent (snd (cw_Close w)) in
    map pipe_bytes chunks = chunks_of chunkSize (concat ds) \<and>
    (\<exists>r'. cr_ReadAll buf 0 [] (NewChunkReader (map pipe_reader chunks)) = Some ((concat ds, None), r'))"
proof -
  define w where "w = fold (\<lambda>d w. snd (cw_Write (\<lambda>_. None) d w)) ds (NewChunkWriter chunkSize)"
  define chunks where "chunks = cw_sent (snd (cw_Close w))"
  have w: "cw_inv chunkSize w (concat ds)"
    using cw_writes_run [OF cw_inv_new, of chunkSize ds] by (simp add: w_def)
  note close = cw_Close_run [OF w, folded chunks_def]
  let ?r = "NewChunkReader (map pipe_reader chunks)"
  have "cr_ok ?r"
    using close(2) by (auto simp: cr_ok_def NewChunkReader_def list_all_iff rc_ok_def pipe_reader_def pipe_done_def)
  moreover have "cr_rest ?r = concat (map pipe_bytes chunks)"
    by (simp add: cr_rest_def NewChunkReader_def comp_def pipe_reader_def)
  moreover have "concat (chunks_of n xs) = xs" for n and xs :: bytes
    by (rule concat_chunks_of)
  ultimately show ?thesis
    using cr_ReadAll_run [of ?r buf 0 "[]"] close(1) assms unfolding Let_def w_def [symmetric] chunks_def [symmetric]
    by (simp del: fold_simps)
qed

theorem chunks_roundtrip_witness:
  "let w = fold (\<lambda>d w. snd (cw_Write (\<lambda>_. None) d w)) [[1, 2], [3, 4, 5]] (NewChunkWriter 2); chunks = cw_sent (snd (cw_Close w)) in
    map pipe_bytes chunks = chunks_of 2 (concat [[1, 2], [3, 4, 5]]) \<and>
    (\<exists>r'. cr_ReadAll (\<lambda>_. 1) 0 [] (NewChunkReader (map pipe_reader chunks)) = Some ((concat [[1, 2], [3, 4, 5]], None), r'))"
  by (rule chunks_roundtrip) simp

end
