(* ===== verification/Snapshot_Store.thy ===== *)
theory Snapshot_Store
  imports Go_Files Sha256 Snapshot_Chunks Ref_Libs
begin

text \<open>
  snapshots/store.go with snapshots/types/errors.go, format.go and options.go: the store of snapshots, with metadata in a database and the chunks in
  files. The database with its methods \<open>SetSync\<close> and \<open>DeleteSync\<close> and the protobuf code of a snapshot are parameters; the file system is
  that of \<open>Go_Files\<close>. A channel of chunks is the list of its readers. The heights being saved by other goroutines are in \<open>ss_saving\<close>.
\<close>

section \<open>Snapshots and errors\<close>

record Snapshot =
  sn_Height :: "64 word"
  sn_Format :: "32 word"
  sn_Chunks :: "32 word"
  sn_Hash :: bytes
  sn_ChunkHashes :: "bytes list option"

datatype snap_error =
    ErrLogic string | ErrConflict string | ErrUnknownFormat string | ErrInvalidMetadata string | ErrChunkHashMismatch string
  | Err_db string | Err_os os_error string | Err_io io_error string | Err_proto string | Err_new string

definition CurrentFormat :: "32 word" where
  "CurrentFormat = 3"

record SnapshotOptions =
  so_Interval :: "64 word"
  so_KeepRecent :: "32 word"

definition NewSnapshotOptions :: "64 word \<Rightarrow> 32 word \<Rightarrow> SnapshotOptions" where
  "NewSnapshotOptions interval keepRecent = \<lparr>so_Interval = interval, so_KeepRecent = keepRecent\<rparr>"

definition ValidRestoreHeight :: "32 word \<Rightarrow> 64 word \<Rightarrow> snap_error option" where
  "ValidRestoreHeight format height =
     (if format \<noteq> CurrentFormat then Some (ErrUnknownFormat ''format'')
      else if height = 0 then Some (ErrLogic ''cannot restore snapshot at height 0'')
      else if unat height > 2 ^ 63 - 1 then Some (ErrInvalidMetadata ''snapshot height cannot exceed MaxInt64'')
      else None)"

section \<open>Keys and paths\<close>

definition keyPrefixSnapshot :: byte where
  "keyPrefixSnapshot = 1"

definition encodeKey :: "64 word \<Rightarrow> 32 word \<Rightarrow> bytes" where
  "encodeKey height format = keyPrefixSnapshot # be_put 8 (unat height) @ be_put 4 (unat format)"

definition decodeKey :: "bytes \<Rightarrow> snap_error + (64 word \<times> 32 word)" where
  "decodeKey k =
     (if length k \<noteq> 13 then Inl (ErrLogic ''invalid snapshot key length'')
      else if k ! 0 \<noteq> keyPrefixSnapshot then Inl (ErrLogic ''invalid snapshot key prefix'')
      else Inr (word_of_nat (be_value (take 8 (drop 1 k))), word_of_nat (be_value (take 4 (drop 9 k)))))"

definition pathHeight :: "path \<Rightarrow> 64 word \<Rightarrow> path" where
  "pathHeight dir height = dir @ [FormatUint (unat height)]"

definition pathSnapshot :: "path \<Rightarrow> 64 word \<Rightarrow> 32 word \<Rightarrow> path" where
  "pathSnapshot dir height format = pathHeight dir height @ [FormatUint (unat format)]"

definition PathChunk :: "path \<Rightarrow> 64 word \<Rightarrow> 32 word \<Rightarrow> 32 word \<Rightarrow> path" where
  "PathChunk dir height format chunk = pathSnapshot dir height format @ [FormatUint (unat chunk)]"

section \<open>Store\<close>

record 'd SnapStore =
  ss_db :: 'd
  ss_fs :: FS
  ss_saving :: "64 word list"

definition on_db :: "('d, 'a) go \<Rightarrow> ('d SnapStore, 'a) go" where
  "on_db = go_zoom ss_db (\<lambda>d s. s\<lparr>ss_db := d\<rparr>)"

definition on_fs :: "(FS, 'a) go \<Rightarrow> ('d SnapStore, 'a) go" where
  "on_fs = go_zoom ss_fs (\<lambda>f s. s\<lparr>ss_fs := f\<rparr>)"

definition snap_NewStore :: "'d \<Rightarrow> path \<Rightarrow> (FS, snap_error + 'd SnapStore) go" where
  "snap_NewStore d dir =
     (if dir = [] then ret (Inl (ErrLogic ''snapshot directory not given''))
      else go_bind (os_MkdirAll dir) (\<lambda>err.
        case err of Some e \<Rightarrow> ret (Inl (Err_os e ''failed to create snapshot directory''))
        | None \<Rightarrow> go_read (\<lambda>fs. Inr \<lparr>ss_db = d, ss_fs = fs, ss_saving = []\<rparr>)))"

definition snap_Delete :: "path \<Rightarrow> (slice \<Rightarrow> ('d, string option) go) \<Rightarrow> 64 word \<Rightarrow> 32 word \<Rightarrow> ('d SnapStore, snap_error option) go" where
  "snap_Delete dir deleteSync height format =
     go_bind (go_read (\<lambda>s. height \<in> set (ss_saving s))) (\<lambda>saving.
     if saving then ret (Some (ErrConflict ''snapshot is currently being saved''))
     else go_bind (on_db (deleteSync (Some (encodeKey height format)))) (\<lambda>err.
       case err of Some e \<Rightarrow> ret (Some (Err_db e))
       | None \<Rightarrow> go_bind (on_fs (os_RemoveAll (pathSnapshot dir height format))) (\<lambda>err.
           ret (map_option (\<lambda>e. Err_os e ''failed to delete snapshot chunks'') err))))"

definition snap_Get :: "('d, 'j) db_ops \<Rightarrow> (bytes \<Rightarrow> string + Snapshot) \<Rightarrow> 64 word \<Rightarrow> 32 word \<Rightarrow>
    ('d SnapStore, snap_error + Snapshot option) go" where
  "snap_Get db unmarshal height format =
     go_bind (on_db (db_Get db (Some (encodeKey height format)))) (\<lambda>r.
     case r of Inl e \<Rightarrow> ret (Inl (Err_db e))
     | Inr None \<Rightarrow> ret (Inr None)
     | Inr (Some bz) \<Rightarrow> (case unmarshal bz of Inl e \<Rightarrow> ret (Inl (Err_proto e))
         | Inr s \<Rightarrow> ret (Inr (Some (if sn_ChunkHashes s = None then s\<lparr>sn_ChunkHashes := Some []\<rparr> else s)))))"

text \<open>The iterator over all snapshots, newest first, next to the store.\<close>

definition snap_iter :: "('d, 'j) db_ops \<Rightarrow> ('d SnapStore \<times> 'j) iter_ops" where
  "snap_iter db = zoom_iter (\<lambda>(s, i). (ss_db s, i)) (\<lambda>(d, i) (s, _). (s\<lparr>ss_db := d\<rparr>, i)) (db_iter db)"

definition with_snapshots :: "('d, 'j) db_ops \<Rightarrow> (string \<Rightarrow> 'a) \<Rightarrow> ('d SnapStore \<times> 'j, 'a) go \<Rightarrow> ('d SnapStore, 'a) go" where
  "with_snapshots db failed body =
     go_bind (on_db (db_ReverseIterator db (Some (encodeKey 0 0)) (Some (encodeKey (- 1) (- 1))))) (\<lambda>r.
     case r of Inl e \<Rightarrow> ret (failed e)
     | Inr i \<Rightarrow> go_bind (go_local i (go_defer (go_bind (it_Close (snap_iter db)) (\<lambda>_. ret ())) body)) (\<lambda>(x, _). ret x))"

definition snap_GetLatest :: "('d, 'j) db_ops \<Rightarrow> (bytes \<Rightarrow> string + Snapshot) \<Rightarrow>
    ('d SnapStore, Snapshot option \<times> snap_error option) go" where
  "snap_GetLatest db unmarshal =
     with_snapshots db (\<lambda>e. (None, Some (Err_db e)))
       (go_bind (it_Valid (snap_iter db)) (\<lambda>valid.
        go_bind (if valid then go_bind (it_Value (snap_iter db)) (\<lambda>v. ret (map_sum id Some (unmarshal (bs v)))) else ret (Inr None)) (\<lambda>r.
        case r of Inl e \<Rightarrow> ret (None, Some (Err_proto e))
        | Inr snapshot \<Rightarrow> go_bind (it_Error (snap_iter db)) (\<lambda>err. ret (snapshot, map_option Err_db err)))))"

partial_function (option) snap_list_loop ::
  "('d, 'j) db_ops \<Rightarrow> (bytes \<Rightarrow> string + Snapshot) \<Rightarrow> Snapshot list \<Rightarrow> ('d SnapStore \<times> 'j, Snapshot list \<times> snap_error option) go" where
  "snap_list_loop db unmarshal acc x =
     go_bind (it_Valid (snap_iter db)) (\<lambda>valid.
     if \<not> valid then go_bind (it_Error (snap_iter db)) (\<lambda>err. ret (acc, map_option Err_db err))
     else go_bind (it_Value (snap_iter db)) (\<lambda>v.
       if isl (unmarshal (bs v)) then ret ([], Some (Err_proto (projl (unmarshal (bs v)))))
       else go_bind (it_Next (snap_iter db)) (\<lambda>_. snap_list_loop db unmarshal (acc @ [projr (unmarshal (bs v))])))) x"

definition snap_List :: "('d, 'j) db_ops \<Rightarrow> (bytes \<Rightarrow> string + Snapshot) \<Rightarrow> ('d SnapStore, Snapshot list \<times> snap_error option) go" where
  "snap_List db unmarshal = with_snapshots db (\<lambda>e. ([], Some (Err_db e))) (snap_list_loop db unmarshal [])"

text \<open>A chunk file as a reader.\<close>

definition file_reader :: "bytes \<Rightarrow> ReadCloser" where
  "file_reader data = \<lparr>rc_data = (if data = [] then [] else [data]), rc_end = IO_EOF, rc_close = None\<rparr>"

definition loadChunkFile :: "path \<Rightarrow> 64 word \<Rightarrow> 32 word \<Rightarrow> 32 word \<Rightarrow> ('d SnapStore, os_error + ReadCloser) go" where
  "loadChunkFile dir height format chunk =
     go_bind (on_fs (os_Open (PathChunk dir height format chunk))) (\<lambda>r. ret (map_sum id file_reader r))"

definition snap_LoadChunk :: "path \<Rightarrow> 64 word \<Rightarrow> 32 word \<Rightarrow> 32 word \<Rightarrow> ('d SnapStore, os_error + ReadCloser option) go" where
  "snap_LoadChunk dir height format chunk =
     go_bind (on_fs (os_Open (PathChunk dir height format chunk))) (\<lambda>r.
     ret (case r of Inl ErrNotExist \<Rightarrow> Inr None | Inl e \<Rightarrow> Inl e | Inr data \<Rightarrow> Inr (Some (file_reader data))))"

text \<open>The goroutine of \<open>Load\<close>: a pipe for each chunk, the error of a missing file at its end, and no pipe after it.\<close>

function load_chunks :: "path \<Rightarrow> 64 word \<Rightarrow> 32 word \<Rightarrow> nat \<Rightarrow> nat \<Rightarrow> ('d SnapStore, ReadCloser list) go" where
  "load_chunks dir height format i n =
     (if i < n then
        go_bind (loadChunkFile dir height format (word_of_nat i)) (\<lambda>r.
        case r of
          Inl e \<Rightarrow> ret [\<lparr>rc_data = [], rc_end = IO_err ''open failed'', rc_close = None\<rparr>]
        | Inr chunk \<Rightarrow> go_bind (load_chunks dir height format (Suc i) n) (\<lambda>cs. ret (chunk # cs)))
      else ret [])"
  by auto
termination by (relation "measure (\<lambda>(_, _, _, i, n). n - i)") auto

declare load_chunks.simps [simp del]

definition snap_Load :: "path \<Rightarrow> ('d, 'j) db_ops \<Rightarrow> (bytes \<Rightarrow> string + Snapshot) \<Rightarrow> 64 word \<Rightarrow> 32 word \<Rightarrow>
    ('d SnapStore, snap_error + (Snapshot \<times> ReadCloser list) option) go" where
  "snap_Load dir db unmarshal height format =
     go_bind (snap_Get db unmarshal height format) (\<lambda>r.
     case r of Inl e \<Rightarrow> ret (Inl e)
     | Inr None \<Rightarrow> ret (Inr None)
     | Inr (Some snapshot) \<Rightarrow>
         go_bind (load_chunks dir height format 0 (unat (sn_Chunks snapshot))) (\<lambda>ch. ret (Inr (Some (snapshot, ch)))))"

text \<open>
  The loop of \<open>Prune\<close>: \<open>skip\<close> has the heights kept, \<open>prunedHeights\<close> those deleted. The iterator stays open while the loop deletes.
\<close>

partial_function (option) prune_loop ::
  "path \<Rightarrow> ('d, 'j) db_ops \<Rightarrow> (slice \<Rightarrow> ('d, string option) go) \<Rightarrow> 32 word \<Rightarrow> 64 word \<Rightarrow> 64 word list \<Rightarrow> 64 word list \<Rightarrow>
   ('d SnapStore \<times> 'j, snap_error + (64 word \<times> 64 word list)) go" where
  "prune_loop dir db deleteSync retain pruned prunedHeights skip x =
     go_bind (it_Valid (snap_iter db)) (\<lambda>valid.
     if \<not> valid then ret (Inr (pruned, prunedHeights))
     else go_bind (it_Key (snap_iter db)) (\<lambda>k.
       if isl (decodeKey (bs k)) then ret (Inl (projl (decodeKey (bs k))))
       else let height = fst (projr (decodeKey (bs k))); format = snd (projr (decodeKey (bs k))) in
         if height \<in> set skip \<or> (word_of_nat (length skip) :: 32 word) < retain
         then go_bind (it_Next (snap_iter db)) (\<lambda>_.
           prune_loop dir db deleteSync retain pruned prunedHeights (List.insert height skip))
         else go_bind (go_zoom fst (\<lambda>s x. (s, snd x)) (snap_Delete dir deleteSync height format)) (\<lambda>err.
           if err \<noteq> None then ret (Inl (the err))
           else go_bind (it_Next (snap_iter db)) (\<lambda>_.
             prune_loop dir db deleteSync retain (pruned + 1) (List.insert height prunedHeights) skip)))) x"

primrec remove_heights :: "path \<Rightarrow> 64 word list \<Rightarrow> (FS, os_error option) go" where
  "remove_heights dir [] = ret None"
| "remove_heights dir (h # hs) =
     go_bind (os_Remove (pathHeight dir h)) (\<lambda>err. if err \<noteq> None then ret err else remove_heights dir hs)"

definition snap_Prune :: "path \<Rightarrow> ('d, 'j) db_ops \<Rightarrow> (slice \<Rightarrow> ('d, string option) go) \<Rightarrow> 32 word \<Rightarrow>
    ('d SnapStore, 64 word \<times> snap_error option) go" where
  "snap_Prune dir db deleteSync retain =
     with_snapshots db (\<lambda>e. (0, Some (Err_db e)))
       (go_bind (prune_loop dir db deleteSync retain 0 [] []) (\<lambda>r.
        case r of Inl e \<Rightarrow> ret (0, Some e)
        | Inr (pruned, prunedHeights) \<Rightarrow>
            go_bind (go_zoom fst (\<lambda>s x. (s, snd x)) (on_fs (remove_heights dir prunedHeights))) (\<lambda>err.
            case err of Some e \<Rightarrow> ret (0, Some (Err_os e ''failed to remove snapshot directory''))
            | None \<Rightarrow> go_bind (it_Error (snap_iter db)) (\<lambda>err. ret (pruned, map_option Err_db err)))))"

section \<open>Saving\<close>

text \<open>
  \<open>saveChunk\<close> copies the chunk to its file, to a hasher of its own and to the hasher of the snapshot, whose input so far is \<open>written\<close>; it returns
  the snapshot with the hash of the chunk, and the input of the hasher. The copy ends with the error of the reader or of a write.
\<close>

definition saveChunk :: "path \<Rightarrow> ReadCloser \<Rightarrow> 32 word \<Rightarrow> Snapshot \<Rightarrow> bytes \<Rightarrow> ('d SnapStore, snap_error + (Snapshot \<times> bytes)) go" where
  "saveChunk dir chunkBody index snapshot written =
     (let path = PathChunk dir (sn_Height snapshot) (sn_Format snapshot) index; data = concat (rc_data chunkBody) in
      go_bind (on_fs (os_Create path)) (\<lambda>err.
      case err of Some e \<Rightarrow> ret (Inl (Err_os e ''failed to create snapshot chunk file''))
      | None \<Rightarrow>
      go_bind (on_fs (file_Write path data)) (\<lambda>err.
      case err of Some e \<Rightarrow> ret (Inl (Err_os e ''failed to generate snapshot chunk''))
      | None \<Rightarrow>
      if rc_end chunkBody \<noteq> IO_EOF then ret (Inl (Err_io (rc_end chunkBody) ''failed to generate snapshot chunk''))
      else
      go_bind (on_fs (file_Close path)) (\<lambda>err.
      case err of Some e \<Rightarrow> ret (Inl (Err_os e ''failed to close snapshot chunk file''))
      | None \<Rightarrow>
      (case rc_close chunkBody of Some e \<Rightarrow> ret (Inl (Err_io e ''failed to close snapshot chunk body''))
       | None \<Rightarrow> ret (Inr (snapshot\<lparr>sn_ChunkHashes := Some ((case sn_ChunkHashes snapshot of None \<Rightarrow> [] | Some hs \<Rightarrow> hs) @ [sha256 data])\<rparr>,
           written @ data)))))))"

definition saveChunkContent :: "path \<Rightarrow> bytes \<Rightarrow> 32 word \<Rightarrow> Snapshot \<Rightarrow> ('d SnapStore, os_error option) go" where
  "saveChunkContent dir chunk index snapshot =
     on_fs (os_WriteFile (PathChunk dir (sn_Height snapshot) (sn_Format snapshot) index) chunk)"

definition saveSnapshot :: "(slice \<Rightarrow> slice \<Rightarrow> ('d, string option) go) \<Rightarrow> (Snapshot \<Rightarrow> string + bytes) \<Rightarrow> Snapshot \<Rightarrow>
    ('d SnapStore, snap_error option) go" where
  "saveSnapshot setSync marshal snapshot =
     (case marshal snapshot of Inl e \<Rightarrow> ret (Some (Err_proto e))
      | Inr value \<Rightarrow> go_bind (on_db (setSync (Some (encodeKey (sn_Height snapshot) (sn_Format snapshot))) (Some value))) (\<lambda>err.
          ret (map_option Err_db err)))"

text \<open>The loop over the chunks; the directory is made for the first one.\<close>

fun save_chunks :: "path \<Rightarrow> ReadCloser list \<Rightarrow> bool \<Rightarrow> 32 word \<Rightarrow> Snapshot \<Rightarrow> bytes \<Rightarrow> ('d SnapStore, snap_error + Snapshot) go" where
  "save_chunks dir [] dirCreated index snapshot written =
     ret (Inr (snapshot\<lparr>sn_Chunks := index, sn_Hash := sha256 written\<rparr>))"
| "save_chunks dir (chunkBody # chunks) dirCreated index snapshot written =
     go_bind (if dirCreated then ret None else on_fs (os_MkdirAll (pathSnapshot dir (sn_Height snapshot) (sn_Format snapshot)))) (\<lambda>err.
     case err of Some e \<Rightarrow> ret (Inl (Err_os e ''failed to create snapshot directory''))
     | None \<Rightarrow> go_bind (saveChunk dir chunkBody index snapshot written) (\<lambda>r.
         case r of Inl e \<Rightarrow> ret (Inl e)
         | Inr (snapshot, written) \<Rightarrow> save_chunks dir chunks True (index + 1) snapshot written))"

definition snap_Save :: "path \<Rightarrow> ('d, 'j) db_ops \<Rightarrow> (slice \<Rightarrow> slice \<Rightarrow> ('d, string option) go) \<Rightarrow> (Snapshot \<Rightarrow> string + bytes) \<Rightarrow>
    64 word \<Rightarrow> 32 word \<Rightarrow> ReadCloser list \<Rightarrow> ('d SnapStore, Snapshot option \<times> snap_error option) go" where
  "snap_Save dir db setSync marshal height format chunks =
     (if height = 0 then ret (None, Some (ErrLogic ''snapshot height cannot be 0''))
      else
      go_bind (go_read (\<lambda>s. height \<in> set (ss_saving s))) (\<lambda>saving.
      go_bind (go_modify (\<lambda>s. s\<lparr>ss_saving := List.insert height (ss_saving s)\<rparr>)) (\<lambda>_.
      if saving then ret (None, Some (ErrConflict ''a snapshot is already being saved''))
      else go_defer (go_modify (\<lambda>s. s\<lparr>ss_saving := removeAll height (ss_saving s)\<rparr>))
        (go_bind (on_db (db_Has db (Some (encodeKey height format)))) (\<lambda>r.
         case r of Inl e \<Rightarrow> ret (None, Some (Err_db e))
         | Inr exists \<Rightarrow>
         if exists then ret (None, Some (ErrConflict ''snapshot already exists''))
         else go_bind (save_chunks dir chunks False 0
               \<lparr>sn_Height = height, sn_Format = format, sn_Chunks = 0, sn_Hash = [], sn_ChunkHashes = None\<rparr> []) (\<lambda>r.
           case r of Inl e \<Rightarrow> ret (None, Some e)
           | Inr snapshot \<Rightarrow> go_bind (saveSnapshot setSync marshal snapshot) (\<lambda>err. ret (Some snapshot, err))))))))"

end
