(* ===== verification/Snapshot_Laws.thy ===== *)
theory Snapshot_Laws
  imports Snapshot_Store
begin

text \<open>
  What the snapshot store computes: a saved snapshot loads back with its chunks and their hashes, and pruning keeps exactly the snapshots of the
  newest heights.
\<close>

section \<open>Keys\<close>

lemma length_encodeKey [simp]: "length (encodeKey h f) = 13"
  by (simp add: encodeKey_def)

lemma encodeKey_ne [simp]: "encodeKey h f \<noteq> []"
  by (simp add: encodeKey_def)

lemma be_value_put_word:
  "be_value (be_put 8 (unat (h :: 64 word))) = unat h" "be_value (be_put 4 (unat (f :: 32 word))) = unat f"
  using unsigned_less [of h, where ?'a = nat] unsigned_less [of f, where ?'a = nat] by (simp_all add: be_value_put)

lemma decode_encodeKey [simp]: "decodeKey (encodeKey h f) = Inr (h, f)"
  by (simp add: decodeKey_def encodeKey_def be_value_put_word)

lemma encodeKey_inj [simp]: "encodeKey h f = encodeKey h' f' \<longleftrightarrow> h = h' \<and> f = f'"
  by (metis Inr_inject decode_encodeKey prod.inject)

lemma less_append_same_length:
  "length a = length b \<Longrightarrow> (a @ c :: bytes) < b @ d \<longleftrightarrow> a < b \<or> a = b \<and> c < d"
proof (induction a b rule: list_induct2)
  case (Cons x xs y ys)
  then show ?case by auto
qed simp

lemma encodeKey_less: "encodeKey h f < encodeKey h' f' \<longleftrightarrow> h < h' \<or> h = h' \<and> f < f'"
proof -
  have "be_put 8 (unat h) < be_put 8 (unat h') \<longleftrightarrow> h < h'" "be_put 4 (unat f) < be_put 4 (unat f') \<longleftrightarrow> f < f'"
    using be_value_put_word by (simp_all add: be_value_mono word_less_nat_alt)
  moreover have "be_put 8 (unat h) = be_put 8 (unat h') \<longleftrightarrow> h = h'"
    by (metis be_value_put_word(1) unsigned_word_eqI)
  ultimately show ?thesis by (simp add: encodeKey_def less_append_same_length)
qed

section \<open>Paths\<close>

lemma unat_eq_iff: "unat a = unat b \<longleftrightarrow> a = b"
  by (auto intro: unsigned_word_eqI)

lemma PathChunk_inj [simp]: "PathChunk dir h f i = PathChunk dir h f j \<longleftrightarrow> i = j"
  by (simp add: PathChunk_def FormatUint_inj unat_eq_iff)

lemma prefix_pathSnapshot_iff [simp]: "prefix (pathSnapshot dir h f) (pathSnapshot dir h' f') \<longleftrightarrow> h = h' \<and> f = f'"
  by (auto simp: pathSnapshot_def pathHeight_def FormatUint_inj unat_eq_iff)

section \<open>Chunk files\<close>

text \<open>A file system without faults in which the files of a snapshot can be made.\<close>

definition snap_free :: "path \<Rightarrow> 64 word \<Rightarrow> 32 word \<Rightarrow> FS \<Rightarrow> bool" where
  "snap_free dir h f fs \<longleftrightarrow> fs_fault fs = (\<lambda>_ _. None) \<and> (\<forall>q. prefix q (pathSnapshot dir h f) \<longrightarrow> map_of (fs_files fs) q = None) \<and>
     (\<forall>i. PathChunk dir h f i \<notin> set (fs_dirs fs))"

lemma set_fold_insert: "set (fold List.insert xs ys) = set xs \<union> set ys"
  by (induction xs arbitrary: ys) auto

lemma os_MkdirAll_run:
  assumes "snap_free dir h f fs"
  shows "\<exists>fs'. os_MkdirAll (pathSnapshot dir h f) fs = Some (Inr None, fs') \<and> fs_files fs' = fs_files fs \<and> snap_free dir h f fs' \<and>
    is_dir fs' (pathSnapshot dir h f)"
proof -
  let ?fs = "fs\<lparr>fs_dirs := fold List.insert (filter (\<lambda>q. q \<noteq> []) (prefixes (pathSnapshot dir h f))) (fs_dirs fs)\<rparr>"
  have "\<not> prefix (PathChunk dir h f i) (pathSnapshot dir h f)" for i
    by (auto simp: PathChunk_def dest: prefix_length_le)
  then have "snap_free dir h f ?fs"
    using assms by (auto simp: snap_free_def set_fold_insert)
  moreover have "is_dir ?fs (pathSnapshot dir h f)"
    by (simp add: is_dir_def set_fold_insert)
  moreover have "os_MkdirAll (pathSnapshot dir h f) fs = Some (Inr None, ?fs)"
    using assms by (auto simp: snap_free_def os_MkdirAll_def sys_def go_bind_apply go_read_def go_modify_def ret_def)
  ultimately show ?thesis by fastforce
qed

lemma saveChunk_run:
  assumes "snap_free dir h f (ss_fs s)" "is_dir (ss_fs s) (pathSnapshot dir h f)" "rc_end c = IO_EOF" "rc_close c = None"
    and "sn_Height sn = h" "sn_Format sn = f"
  shows "\<exists>fs'. saveChunk dir c i sn w s = Some (Inr (Inr
      (sn\<lparr>sn_ChunkHashes := Some ((case sn_ChunkHashes sn of None \<Rightarrow> [] | Some hs \<Rightarrow> hs) @ [sha256 (concat (rc_data c))])\<rparr>,
       w @ concat (rc_data c))), s\<lparr>ss_fs := fs'\<rparr>) \<and> snap_free dir h f fs' \<and> is_dir fs' (pathSnapshot dir h f) \<and>
      map_of (fs_files fs') = (map_of (fs_files (ss_fs s)))(PathChunk dir h f i \<mapsto> concat (rc_data c))"
proof -
  let ?p = "PathChunk dir h f i" and ?d = "concat (rc_data c)" and ?fs = "ss_fs s"
  let ?fs' = "?fs\<lparr>fs_files := AList.update ?p ?d (AList.update ?p [] (fs_files ?fs))\<rparr>"
  have bl: "butlast ?p = pathSnapshot dir h f" "?p \<noteq> []" by (simp_all add: PathChunk_def)
  have "\<not> is_dir ?fs ?p" "fs_fault ?fs = (\<lambda>_ _. None)" using assms(1) bl(2) by (auto simp: snap_free_def is_dir_def)
  then have "saveChunk dir c i sn w s = Some (Inr (Inr
      (sn\<lparr>sn_ChunkHashes := Some ((case sn_ChunkHashes sn of None \<Rightarrow> [] | Some hs \<Rightarrow> hs) @ [sha256 ?d])\<rparr>, w @ ?d)), s\<lparr>ss_fs := ?fs'\<rparr>)"
    using assms(2-6) bl by (simp add: saveChunk_def Let_def on_fs_def go_zoom_def go_bind_apply os_Create_def file_Write_def file_Close_def
      sys_def put_file_def go_read_def go_modify_def ret_def is_dir_def update_conv')
  moreover have "map_of (fs_files ?fs') = (map_of (fs_files ?fs))(?p \<mapsto> ?d)" by (simp add: update_conv')
  moreover have "\<not> prefix ?p (pathSnapshot dir h f)" by (auto simp: PathChunk_def dest: prefix_length_le)
  then have "snap_free dir h f ?fs'" using assms(1) by (auto simp: snap_free_def update_conv')
  ultimately show ?thesis using assms(2) by (intro exI [of _ ?fs']) (simp add: is_dir_def)
qed

abbreviation chunk_data :: "ReadCloser \<Rightarrow> bytes" where
  "chunk_data c \<equiv> concat (rc_data c)"

text \<open>The loop stores the chunks from index \<open>i\<close> on and collects their hashes.\<close>

lemma save_chunks_run:
  assumes "snap_free dir h f (ss_fs s)" "created \<longrightarrow> is_dir (ss_fs s) (pathSnapshot dir h f)"
    and "\<forall>c \<in> set cs. rc_end c = IO_EOF \<and> rc_close c = None" "sn_Height sn = h" "sn_Format sn = f" "i + length cs < 2 ^ 32"
  shows "\<exists>sn' fs'. save_chunks dir cs created (word_of_nat i) sn w s = Some (Inr (Inr sn'), s\<lparr>ss_fs := fs'\<rparr>) \<and>
    sn' = sn\<lparr>sn_Chunks := word_of_nat (i + length cs), sn_Hash := sha256 (w @ concat (map chunk_data cs)),
      sn_ChunkHashes := (if cs = [] then sn_ChunkHashes sn
        else Some ((case sn_ChunkHashes sn of None \<Rightarrow> [] | Some hs \<Rightarrow> hs) @ map (sha256 \<circ> chunk_data) cs))\<rparr> \<and>
    snap_free dir h f fs' \<and>
    (\<forall>j. map_of (fs_files fs') (PathChunk dir h f (word_of_nat j)) =
      (if i \<le> j \<and> j < i + length cs then Some (chunk_data (cs ! (j - i)))
       else if j < 2 ^ 32 then map_of (fs_files (ss_fs s)) (PathChunk dir h f (word_of_nat j))
       else map_of (fs_files fs') (PathChunk dir h f (word_of_nat j))))"
  using assms
proof (induction cs arbitrary: i created s sn w)
  case Nil
  then show ?case by (intro exI conjI) (auto simp: ret_def snap_free_def)
next
  case (Cons c cs)
  obtain fs1 where 1: "(if created then ret None else on_fs (os_MkdirAll (pathSnapshot dir h f))) s = Some (Inr None, s\<lparr>ss_fs := fs1\<rparr>)"
      "fs_files fs1 = fs_files (ss_fs s)" "snap_free dir h f fs1" "is_dir fs1 (pathSnapshot dir h f)"
  proof (cases created)
    case True
    then show ?thesis using that [of "ss_fs s"] Cons.prems(1,2) by (simp add: ret_def)
  next
    case False
    then show ?thesis using that os_MkdirAll_run [OF Cons.prems(1)] by (auto simp: on_fs_def go_zoom_def)
  qed
  define sn1 where "sn1 = sn\<lparr>sn_ChunkHashes := Some ((case sn_ChunkHashes sn of None \<Rightarrow> [] | Some hs \<Rightarrow> hs) @ [sha256 (chunk_data c)])\<rparr>"
  obtain fs2 where 2: "saveChunk dir c (word_of_nat i) sn w (s\<lparr>ss_fs := fs1\<rparr>) = Some (Inr (Inr (sn1, w @ chunk_data c)), s\<lparr>ss_fs := fs2\<rparr>)"
      "snap_free dir h f fs2" "is_dir fs2 (pathSnapshot dir h f)"
      "map_of (fs_files fs2) = (map_of (fs_files fs1))(PathChunk dir h f (word_of_nat i) \<mapsto> chunk_data c)"
    using saveChunk_run [of dir h f "s\<lparr>ss_fs := fs1\<rparr>" c sn "word_of_nat i" w] 1(3,4) Cons.prems(3-5) by (auto simp: sn1_def)
  have prem: "snap_free dir h f (ss_fs (s\<lparr>ss_fs := fs2\<rparr>))" "True \<longrightarrow> is_dir (ss_fs (s\<lparr>ss_fs := fs2\<rparr>)) (pathSnapshot dir h f)"
      "\<forall>c \<in> set cs. rc_end c = IO_EOF \<and> rc_close c = None" "sn_Height sn1 = h" "sn_Format sn1 = f" "Suc i + length cs < 2 ^ 32"
    using 2(2,3) Cons.prems(3-6) by (simp_all add: sn1_def)
  obtain sn' fs' where 3: "save_chunks dir cs True (word_of_nat (Suc i)) sn1 (w @ chunk_data c) (s\<lparr>ss_fs := fs2\<rparr>) =
        Some (Inr (Inr sn'), s\<lparr>ss_fs := fs2, ss_fs := fs'\<rparr>)"
      "sn' = sn1\<lparr>sn_Chunks := word_of_nat (Suc i + length cs), sn_Hash := sha256 ((w @ chunk_data c) @ concat (map chunk_data cs)),
        sn_ChunkHashes := (if cs = [] then sn_ChunkHashes sn1
          else Some ((case sn_ChunkHashes sn1 of None \<Rightarrow> [] | Some hs \<Rightarrow> hs) @ map (sha256 \<circ> chunk_data) cs))\<rparr>"
      "snap_free dir h f fs'"
      "\<forall>j. map_of (fs_files fs') (PathChunk dir h f (word_of_nat j)) =
        (if Suc i \<le> j \<and> j < Suc i + length cs then Some (chunk_data (cs ! (j - Suc i)))
         else if j < 2 ^ 32 then map_of (fs_files (ss_fs (s\<lparr>ss_fs := fs2\<rparr>))) (PathChunk dir h f (word_of_nat j))
         else map_of (fs_files fs') (PathChunk dir h f (word_of_nat j)))"
    using Cons.IH [OF prem, of "w @ chunk_data c"] by blast
  have neq: "word_of_nat j = (word_of_nat i :: 32 word) \<longleftrightarrow> j = i" if "j < 2 ^ 32" for j
    using that Cons.prems(6) by (auto simp: word_of_nat_eq_iff take_bit_nat_eq_self)
  have "save_chunks dir (c # cs) created (word_of_nat i) sn w s = Some (Inr (Inr sn'), s\<lparr>ss_fs := fs'\<rparr>)"
    unfolding save_chunks.simps Cons.prems(4,5) using 3(1)
    by (simp add: add.commute split del: if_split
      add: go_bind_Inr [where m = "if created then ret None else on_fs (os_MkdirAll (pathSnapshot dir h f))" and s = s, OF 1(1)]
      go_bind_Inr [where m = "saveChunk dir c (word_of_nat i) sn w" and s = "s\<lparr>ss_fs := fs1\<rparr>", OF 2(1)])
  moreover have "map_of (fs_files fs') (PathChunk dir h f (word_of_nat j)) =
      (if i \<le> j \<and> j < i + length (c # cs) then Some (chunk_data ((c # cs) ! (j - i)))
       else if j < 2 ^ 32 then map_of (fs_files (ss_fs s)) (PathChunk dir h f (word_of_nat j))
       else map_of (fs_files fs') (PathChunk dir h f (word_of_nat j)))" for j
    using 3(4) [rule_format, of j] 2(4) 1(2) neq [of j] Cons.prems(6) by (cases "j = i") (auto simp: nth_Cons')
  moreover have "sn' = sn\<lparr>sn_Chunks := word_of_nat (i + length (c # cs)), sn_Hash := sha256 (w @ concat (map chunk_data (c # cs))),
      sn_ChunkHashes := Some ((case sn_ChunkHashes sn of None \<Rightarrow> [] | Some hs \<Rightarrow> hs) @ map (sha256 \<circ> chunk_data) (c # cs))\<rparr>"
    using 3(2) by (simp add: sn1_def)
  ultimately show ?case using 3(3) by (intro exI [of _ sn'] exI [of _ fs']) simp
qed

section \<open>Pruning\<close>

text \<open>The snapshots that the loop deletes, given the heights it has kept so far.\<close>

fun prune_plan :: "nat \<Rightarrow> 'h list \<Rightarrow> ('h \<times> 'f) list \<Rightarrow> ('h \<times> 'f) list" where
  "prune_plan r skip [] = []"
| "prune_plan r skip ((h, f) # xs) =
     (if h \<in> set skip \<or> length skip < r then prune_plan r (List.insert h skip) xs else (h, f) # prune_plan r skip xs)"

lemma set_prune_plan_subset: "set (prune_plan r skip xs) \<subseteq> set xs"
  by (induction r skip xs rule: prune_plan.induct) auto

lemma distinct_prune_plan: "distinct xs \<Longrightarrow> distinct (prune_plan r skip xs)"
proof (induction r skip xs rule: prune_plan.induct)
  case (2 r skip h f xs)
  then show ?case using set_prune_plan_subset [of r skip xs] by auto
qed simp

text \<open>On a list with falling heights, a snapshot is deleted when \<open>r\<close> heights above it have been kept.\<close>

lemma prune_plan_iff:
  fixes xs :: "('h :: linorder \<times> 'f) list"
  assumes "sorted_wrt (\<lambda>a b. fst b \<le> fst a) xs" "distinct skip" "length skip \<le> r"
  shows "x \<in> set (prune_plan r skip xs) \<longleftrightarrow>
    x \<in> set xs \<and> fst x \<notin> set skip \<and> r \<le> length skip + card {h \<in> fst ` set xs - set skip. fst x < h}"
  using assms
proof (induction r skip xs rule: prune_plan.induct)
  case (2 r skip h f xs)
  let ?C = "\<lambda>sk ys. {h \<in> fst ` set ys - set sk. fst x < h}"
  consider "h \<in> set skip" | "h \<notin> set skip" "length skip < r" | "h \<notin> set skip" "length skip = r"
    using 2(5) by linarith
  then show ?case
  proof cases
    case 1
    then have "?C skip ((h, f) # xs) = ?C skip xs" by auto
    then show ?thesis using 2(1) 2(3-5) 1 by (auto simp: insert_absorb)
  next
    case 2
    have IH: "x \<in> set (prune_plan r (h # skip) xs) \<longleftrightarrow>
        x \<in> set xs \<and> fst x \<notin> set (h # skip) \<and> r \<le> length (h # skip) + card (?C (h # skip) xs)"
      using "2.IH"(1) 2 "2.prems" by simp
    show ?thesis
    proof (cases "fst x < h")
      case True
      have "?C skip ((h, f) # xs) = insert h (?C (h # skip) xs)" using True 2 by auto
      moreover have "h \<notin> ?C (h # skip) xs" "finite (?C (h # skip) xs)" by auto
      ultimately have "card (?C skip ((h, f) # xs)) = Suc (card (?C (h # skip) xs))" by simp
      then show ?thesis using IH 2 True by auto
    next
      case False
      have plan: "prune_plan r skip ((h, f) # xs) = prune_plan r (h # skip) xs" using 2 by simp
      consider "x \<notin> set ((h, f) # xs)" | "fst x = h" using "2.prems"(1) False by fastforce
      then show ?thesis
      proof cases
        case 1
        then show ?thesis using IH plan by simp
      next
        case eq: 2
        have "?C skip ((h, f) # xs) = {}" using "2.prems"(1) eq by fastforce
        then have "card (?C skip ((h, f) # xs)) = 0" by (simp only: card.empty)
        then show ?thesis using IH plan eq 2(2) by (simp only: plan) simp
      qed
    qed
  next
    case 3
    have "x \<in> set (prune_plan r skip xs) \<longleftrightarrow> x \<in> set xs \<and> fst x \<notin> set skip \<and> r \<le> length skip + card (?C skip xs)"
      using "2.IH"(2) 3 "2.prems" by simp
    then show ?thesis using 3 by (cases x) auto
  qed
qed simp

text \<open>The effect of \<open>RemoveAll\<close>, and of a sequence of them.\<close>

definition rm :: "path \<Rightarrow> FS \<Rightarrow> FS" where
  "rm p fs = fs\<lparr>fs_dirs := filter (\<lambda>q. \<not> prefix p q) (fs_dirs fs), fs_files := filter (\<lambda>e. \<not> prefix p (fst e)) (fs_files fs)\<rparr>"

lemma rms_fault: "fs_fault (fold rm ps fs) = fs_fault fs"
  by (induction ps arbitrary: fs) (simp_all add: rm_def)

lemma rms_dirs: "set (fs_dirs (fold rm ps fs)) = {q \<in> set (fs_dirs fs). \<forall>p \<in> set ps. \<not> prefix p q}"
  by (induction ps arbitrary: fs) (auto simp: rm_def)

lemma rms_files: "map_of (fs_files (fold rm ps fs)) q = (if \<exists>p \<in> set ps. prefix p q then None else map_of (fs_files fs) q)"
  by (induction ps arbitrary: fs) (auto simp: rm_def map_of_filter_key [where Q = "\<lambda>k. \<not> prefix _ k"])

lemma rms_file_paths: "fst ` set (fs_files (fold rm ps fs)) = {q \<in> fst ` set (fs_files fs). \<forall>p \<in> set ps. \<not> prefix p q}"
  by (induction ps arbitrary: fs) (auto simp: rm_def)

text \<open>Removing empty directories of heights.\<close>

lemma pathHeight_inj [simp]: "pathHeight dir h = pathHeight dir h' \<longleftrightarrow> h = h'"
  by (simp add: pathHeight_def FormatUint_inj unat_eq_iff)

lemma remove_heights_run:
  assumes "distinct hs" "fs_fault fs = (\<lambda>_ _. None)"
    and "\<forall>h \<in> set hs. pathHeight dir h \<in> set (fs_dirs fs) \<and> map_of (fs_files fs) (pathHeight dir h) = None \<and>
      (\<forall>q \<in> set (fs_dirs fs) \<union> fst ` set (fs_files fs). \<not> strict_prefix (pathHeight dir h) q)"
  shows "\<exists>fs'. remove_heights dir hs fs = Some (Inr None, fs') \<and> fs_files fs' = fs_files fs"
  using assms
proof (induction hs arbitrary: fs)
  case Nil
  then show ?case by (simp add: ret_def)
next
  case (Cons h hs)
  let ?fs = "fs\<lparr>fs_dirs := removeAll (pathHeight dir h) (fs_dirs fs)\<rparr>"
  have "\<not> (\<exists>q \<in> set (fs_dirs fs) \<union> fst ` set (fs_files fs). strict_prefix (pathHeight dir h) q)" using Cons.prems(3) by auto
  then have "os_Remove (pathHeight dir h) fs = Some (Inr None, ?fs)"
    using Cons.prems(2,3) by (simp add: os_Remove_def sys_def go_bind_apply go_read_def go_modify_def ret_def)
  moreover have "\<exists>fs'. remove_heights dir hs ?fs = Some (Inr None, fs') \<and> fs_files fs' = fs_files ?fs"
    using Cons.prems by (intro Cons.IH) auto
  ultimately show ?case by (simp add: go_bind_apply)
qed

section \<open>The snapshots of a database\<close>

definition snaps :: "(bytes \<rightharpoonup> bytes) \<Rightarrow> (64 word \<times> 32 word) set" where
  "snaps m = {(h, f). m (encodeKey h f) \<noteq> None}"

text \<open>The database has only snapshots in the range that the store iterates over, whose end is excluded.\<close>

definition snap_keys :: "(bytes \<rightharpoonup> bytes) \<Rightarrow> bool" where
  "snap_keys m \<longleftrightarrow> m (encodeKey (- 1) (- 1)) = None \<and>
     (\<forall>k. m k \<noteq> None \<longrightarrow> in_domain (Some (encodeKey 0 0)) (Some (encodeKey (- 1) (- 1))) k \<longrightarrow> k \<in> range (case_prod encodeKey))"

text \<open>Each height has a directory, and everything in it belongs to a snapshot of that height.\<close>

definition snap_layout :: "path \<Rightarrow> (bytes \<rightharpoonup> bytes) \<Rightarrow> FS \<Rightarrow> bool" where
  "snap_layout dir m fs \<longleftrightarrow> (\<forall>h f. (h, f) \<in> snaps m \<longrightarrow>
     pathHeight dir h \<in> set (fs_dirs fs) \<and> map_of (fs_files fs) (pathHeight dir h) = None \<and>
     (\<forall>q \<in> set (fs_dirs fs) \<union> fst ` set (fs_files fs). strict_prefix (pathHeight dir h) q \<longrightarrow>
       (\<exists>f. (h, f) \<in> snaps m \<and> prefix (pathSnapshot dir h f) q)))"

text \<open>A height is kept when fewer than \<open>retain\<close> heights above it have a snapshot.\<close>

definition kept :: "32 word \<Rightarrow> (64 word \<times> 32 word) set \<Rightarrow> 64 word \<Rightarrow> bool" where
  "kept retain S h \<longleftrightarrow> card {h' \<in> fst ` S. h < h'} < unat retain"

lemma encodeKey_in_range:
  "in_domain (Some (encodeKey 0 0)) (Some (encodeKey (- 1) (- 1))) (encodeKey h f) \<longleftrightarrow> (h, f) \<noteq> (- 1, - 1)"
proof -
  have "encodeKey 0 0 \<le> encodeKey h f" by (simp add: not_less [symmetric] encodeKey_less)
  moreover have "h < - 1 \<longleftrightarrow> h \<noteq> - 1" "f < - 1 \<longleftrightarrow> f \<noteq> - 1"
    by (simp_all add: word_order.not_eq_extremum)
  ultimately show ?thesis by (auto simp: in_domain_def encodeKey_less)
qed

lemma covers_snaps:
  assumes "snap_keys m" "covers m (Some (encodeKey 0 0)) (Some (encodeKey (- 1) (- 1))) False items"
  obtains hfs where "map fst items = map (case_prod encodeKey) hfs" "set hfs = snaps m" "distinct hfs"
    "sorted_wrt (\<lambda>a b. fst b \<le> fst a) hfs"
proof
  let ?hfs = "map (projr \<circ> decodeKey \<circ> fst) items"
  note keys = covers_keys [OF assms(2)]
  have enc: "case_prod encodeKey (projr (decodeKey k)) = k" if "k \<in> set (map fst items)" for k
  proof -
    have "k \<in> range (case_prod encodeKey)" using that keys assms(1) by (auto simp: snap_keys_def)
    then show ?thesis by auto
  qed
  show map: "map fst items = map (case_prod encodeKey) ?hfs"
    using enc by (auto simp: case_prod_beta)
  have "case_prod encodeKey ` set ?hfs = case_prod encodeKey ` snaps m"
  proof -
    have "case_prod encodeKey ` set ?hfs = {k \<in> dom m. in_domain (Some (encodeKey 0 0)) (Some (encodeKey (- 1) (- 1))) k}"
      unfolding set_map [symmetric] map [symmetric] by (rule keys)
    also have "\<dots> = case_prod encodeKey ` snaps m"
      using assms(1) by (auto simp: snap_keys_def snaps_def encodeKey_in_range dom_def image_iff)
    finally show ?thesis .
  qed
  moreover have "inj (case_prod encodeKey)" by (auto simp: inj_def)
  ultimately show "set ?hfs = snaps m" using inj_image_eq_iff by blast
  have s: "sorted_wrt (before False) (map (case_prod encodeKey) ?hfs)" using assms(2) map by (simp add: covers_def)
  then show "distinct ?hfs" using sorted_before_distinct distinct_map by blast
  show "sorted_wrt (\<lambda>a b. fst b \<le> fst a) ?hfs"
    using s unfolding sorted_wrt_map
    by (rule sorted_wrt_mono_rel [rotated]) (auto simp: before_def case_prod_beta encodeKey_less)
qed

lemma distinct_fold_insert: "distinct ys \<Longrightarrow> distinct (fold List.insert xs ys)"
  by (induction xs arbitrary: ys) auto

text \<open>After the loop, the directories of the pruned heights are empty.\<close>

lemma pruned_heights_empty:
  assumes "snap_layout dir m fs" "set plan = {x \<in> snaps m. \<not> kept retain (snaps m) (fst x)}" "h \<in> fst ` set plan"
  defines "fs1 \<equiv> fold rm (map (case_prod (pathSnapshot dir)) plan) fs"
  shows "pathHeight dir h \<in> set (fs_dirs fs1) \<and> map_of (fs_files fs1) (pathHeight dir h) = None \<and>
    (\<forall>q \<in> set (fs_dirs fs1) \<union> fst ` set (fs_files fs1). \<not> strict_prefix (pathHeight dir h) q)"
proof -
  obtain f where hf: "(h, f) \<in> snaps m" "\<not> kept retain (snaps m) h" using assms(2,3) by auto
  have short: "\<not> prefix (pathSnapshot dir h' f') (pathHeight dir h)" for h' f'
    by (auto simp: pathSnapshot_def pathHeight_def dest: prefix_length_le)
  have "\<not> strict_prefix (pathHeight dir h) q" if q: "q \<in> set (fs_dirs fs1) \<union> fst ` set (fs_files fs1)" for q
  proof
    assume "strict_prefix (pathHeight dir h) q"
    then obtain f' where "(h, f') \<in> snaps m" "prefix (pathSnapshot dir h f') q"
      using assms(1) hf(1) q unfolding snap_layout_def fs1_def rms_dirs rms_file_paths by blast
    then show False
      using q hf(2) assms(2) unfolding fs1_def rms_dirs rms_file_paths by fastforce
  qed
  then show ?thesis
    using assms(1) hf(1) short unfolding snap_layout_def fs1_def rms_dirs rms_files by auto
qed

section \<open>The parameters\<close>

text \<open>
  \<open>SetSync\<close> and \<open>DeleteSync\<close> set and delete; iterators report no error. Nothing is said of an iterator that was open during a deletion. Protobuf decodes what it
  encodes, except that an empty list is decoded as nil.
\<close>

definition wire :: "Snapshot \<Rightarrow> Snapshot" where
  "wire s = (if sn_ChunkHashes s = Some [] then s\<lparr>sn_ChunkHashes := None\<rparr> else s)"

locale snapshot_db = database db d_inv d_contents di_inv di_items
  for db :: "('d, 'j) db_ops" and d_inv d_contents di_inv di_items +
  fixes setSync :: "slice \<Rightarrow> slice \<Rightarrow> ('d, string option) go"
    and deleteSync :: "slice \<Rightarrow> ('d, string option) go"
    and marshal :: "Snapshot \<Rightarrow> string + bytes"
    and unmarshal :: "bytes \<Rightarrow> string + Snapshot"
  assumes SetSync: "d_inv d \<Longrightarrow> k \<noteq> [] \<Longrightarrow>
      wp (setSync (Some k) (Some v)) (\<lambda>e d'. e = None \<and> d_inv d' \<and> d_contents d' = (d_contents d)(k \<mapsto> v)) d"
    and DeleteSync: "d_inv d \<Longrightarrow> k \<noteq> [] \<Longrightarrow>
      wp (deleteSync (Some k)) (\<lambda>e d'. e = None \<and> d_inv d' \<and> d_contents d' = (d_contents d)(k := None)) d"
    and Error: "d_inv d \<Longrightarrow> di_inv (d, i) \<Longrightarrow>
      wp (it_Error (db_iter db)) (\<lambda>e x. e = None \<and> d_inv (fst x) \<and> di_inv x \<and> d_contents (fst x) = d_contents d) (d, i)"
    and marshal: "\<exists>bz. marshal s = Inr bz \<and> unmarshal bz = Inr (wire s)"
begin

lemma snap_iterator: "iterator (snap_iter db) (\<lambda>x. d_inv (ss_db (fst x)) \<and> di_inv (ss_db (fst x), snd x))
    (\<lambda>x. di_items (ss_db (fst x), snd x)) (\<lambda>x. (d_contents (ss_db (fst x)), ss_fs (fst x), ss_saving (fst x)))"
proof -
  have "iterator (zoom_iter (\<lambda>(s, i). (ss_db s, i)) (\<lambda>(d, i) (s, _). (s\<lparr>ss_db := d\<rparr>, i)) (db_iter db))
      (\<lambda>x. d_inv (ss_db (fst x)) \<and> di_inv (ss_db (fst x), snd x)) (di_items \<circ> (\<lambda>(s, i). (ss_db s, i)))
      (\<lambda>x. (d_contents (ss_db (fst x)), ss_fs (fst x), ss_saving (fst x)))"
    by (rule iterator_zoom [OF db_iterator]) auto
  then show ?thesis by (simp add: snap_iter_def comp_def case_prod_beta)
qed

text \<open>Opening the iterator over all snapshots.\<close>

lemma with_snapshots_wp:
  assumes "d_inv (ss_db s)"
    and "\<And>d i. d_inv d \<Longrightarrow> d_contents d = d_contents (ss_db s) \<Longrightarrow> di_inv (d, i) \<Longrightarrow>
      covers (d_contents (ss_db s)) (Some (encodeKey 0 0)) (Some (encodeKey (- 1) (- 1))) False (di_items (d, i)) \<Longrightarrow>
      wp body (\<lambda>x y. d_inv (ss_db (fst y)) \<and> di_inv (ss_db (fst y), snd y) \<and>
        (\<forall>d'. d_inv d' \<longrightarrow> d_contents d' = d_contents (ss_db (fst y)) \<longrightarrow> Q x ((fst y)\<lparr>ss_db := d'\<rparr>))) (s\<lparr>ss_db := d\<rparr>, i)"
  shows "wp (with_snapshots db failed body) Q s"
proof -
  have "ok_range (Some (encodeKey 0 0)) (Some (encodeKey (- 1) (- 1)))"
    by (simp add: ok_range_def ok_bound_def le_less encodeKey_less word_greater_zero_iff)
  then obtain d i where opened: "db_ReverseIterator db (Some (encodeKey 0 0)) (Some (encodeKey (- 1) (- 1))) (ss_db s) = Some (Inr (Inr i), d)"
      and d: "d_inv d" "d_contents d = d_contents (ss_db s)" "di_inv (d, i)"
        "covers (d_contents (ss_db s)) (Some (encodeKey 0 0)) (Some (encodeKey (- 1) (- 1))) False (di_items (d, i))"
    using ReverseIterator [OF assms(1)] by (fastforce elim!: wpE)
  have "wp (go_bind (it_Close (snap_iter db)) (\<lambda>_. ret ())) (\<lambda>_ z. Q x (fst z)) y"
    if y: "d_inv (ss_db (fst y))" "di_inv (ss_db (fst y), snd y)"
      and Q: "\<forall>d'. d_inv d' \<longrightarrow> d_contents d' = d_contents (ss_db (fst y)) \<longrightarrow> Q x ((fst y)\<lparr>ss_db := d'\<rparr>)" for x y
    using db_Close [OF y] Q by (cases y) (auto simp: snap_iter_def wp_simps elim!: wp_mono)
  note close = this
  have body: "wp body (\<lambda>x y. wp (go_bind (it_Close (snap_iter db)) (\<lambda>_. ret ())) (\<lambda>_ z. Q x (fst z)) y) (s\<lparr>ss_db := d\<rparr>, i)"
    by (rule wp_mono [OF assms(2) [OF d]]) (elim conjE, rule close)
  show ?thesis
    unfolding with_snapshots_def on_db_def wp_bind wp_zoom
    by (rule wp_SomeI, rule opened) (use body in \<open>simp add: wp_simps case_prod_beta\<close>)
qed

end

lemma load_chunks_run:
  assumes "fs_fault (ss_fs s) = (\<lambda>_ _. None)" "\<forall>j < length ds. map_of (fs_files (ss_fs s)) (PathChunk dir h f (word_of_nat j)) = Some (ds ! j)"
  shows "load_chunks dir h f i (length ds) s = Some (Inr (map file_reader (drop i ds)), s)"
proof (induction "length ds - i" arbitrary: i)
  case 0
  then show ?case by (subst load_chunks.simps) (simp add: ret_def)
next
  case (Suc n)
  then have i: "i < length ds" by simp
  have 1: "loadChunkFile dir h f (word_of_nat i) s = Some (Inr (Inr (file_reader (ds ! i))), s)"
    using assms i by (simp add: loadChunkFile_def on_fs_def go_zoom_def go_bind_apply os_Open_def go_read_def ret_def)
  have 2: "load_chunks dir h f (Suc i) (length ds) s = Some (Inr (map file_reader (drop (Suc i) ds)), s)"
    using Suc by (intro Suc.hyps(1)) simp
  show ?case
    using 1 2 i by (subst load_chunks.simps) (simp add: go_bind_apply ret_def Cons_nth_drop_Suc [symmetric])
qed

text \<open>A reader of a file gives its content.\<close>

lemma file_reader_data [simp]: "concat (rc_data (file_reader d)) = d"
  by (simp add: file_reader_def)

context snapshot_db
begin

lemma Get_run:
  assumes "d_inv (ss_db s)"
  shows "\<exists>d'. d_inv d' \<and> d_contents d' = d_contents (ss_db s) \<and>
    snap_Get db unmarshal h f s = Some (Inr (case d_contents (ss_db s) (encodeKey h f) of None \<Rightarrow> Inr None
      | Some bz \<Rightarrow> (case unmarshal bz of Inl e \<Rightarrow> Inl (Err_proto e)
        | Inr sn \<Rightarrow> Inr (Some (if sn_ChunkHashes sn = None then sn\<lparr>sn_ChunkHashes := Some []\<rparr> else sn)))), s\<lparr>ss_db := d'\<rparr>)"
proof -
  obtain d' where d': "db_Get db (Some (encodeKey h f)) (ss_db s) = Some (Inr (Inr (d_contents (ss_db s) (encodeKey h f))), d')"
      "d_inv d'" "d_contents d' = d_contents (ss_db s)"
    using Get [OF assms encodeKey_ne, of h f] by (auto elim!: wpE)
  then show ?thesis
    by (intro exI [of _ d']) (auto simp: snap_Get_def on_db_def go_zoom_def go_bind_apply ret_def split: option.splits sum.splits)
qed

end

text \<open>Saving a new snapshot, and loading it.\<close>

definition saved_as :: "path \<Rightarrow> ('d \<Rightarrow> bytes \<rightharpoonup> bytes) \<Rightarrow> (bytes \<Rightarrow> string + Snapshot) \<Rightarrow> Snapshot \<Rightarrow> bytes list \<Rightarrow> 'd SnapStore \<Rightarrow> bool" where
  "saved_as dir contents unmarshal sn ds s \<longleftrightarrow>
     snap_free dir (sn_Height sn) (sn_Format sn) (ss_fs s) \<and> length ds < 2 ^ 32 \<and> sn_Chunks sn = word_of_nat (length ds) \<and>
     sn_ChunkHashes sn = (if ds = [] then None else Some (map sha256 ds)) \<and>
     (\<forall>j < length ds. map_of (fs_files (ss_fs s)) (PathChunk dir (sn_Height sn) (sn_Format sn) (word_of_nat j)) = Some (ds ! j)) \<and>
     (\<exists>bz. contents (ss_db s) (encodeKey (sn_Height sn) (sn_Format sn)) = Some bz \<and> unmarshal bz = Inr (wire sn))"

context snapshot_db
begin

lemma Save_run:
  assumes s: "d_inv (ss_db s)" "snap_free dir h f (ss_fs s)" "h \<notin> set (ss_saving s)" "d_contents (ss_db s) (encodeKey h f) = None"
    and h: "h \<noteq> 0" and cs: "\<forall>c \<in> set cs. rc_end c = IO_EOF \<and> rc_close c = None" "length cs < 2 ^ 32"
  shows "\<exists>sn s'. snap_Save dir db setSync marshal h f cs s = Some (Inr (Some sn, None), s') \<and> d_inv (ss_db s') \<and> ss_saving s' = ss_saving s \<and>
    sn_Height sn = h \<and> sn_Format sn = f \<and> sn_Hash sn = sha256 (concat (map chunk_data cs)) \<and>
    saved_as dir d_contents unmarshal sn (map chunk_data cs) s'"
proof -
  let ?s1 = "s\<lparr>ss_saving := List.insert h (ss_saving s)\<rparr>"
  obtain d1 where has: "db_Has db (Some (encodeKey h f)) (ss_db s) = Some (Inr (Inr False), d1)" "d_inv d1" "d_contents d1 = d_contents (ss_db s)"
    using Has [OF s(1) encodeKey_ne, of h f] s(4) by (auto elim!: wpE)
  let ?new = "\<lparr>sn_Height = h, sn_Format = f, sn_Chunks = 0, sn_Hash = [], sn_ChunkHashes = None\<rparr>"
  have prem: "snap_free dir h f (ss_fs (?s1\<lparr>ss_db := d1\<rparr>))" "False \<longrightarrow> is_dir (ss_fs (?s1\<lparr>ss_db := d1\<rparr>)) (pathSnapshot dir h f)"
      "sn_Height ?new = h" "sn_Format ?new = f" "0 + length cs < 2 ^ 32"
    using s(2) cs by simp_all
  obtain sn fs where save: "save_chunks dir cs False (word_of_nat 0) ?new [] (?s1\<lparr>ss_db := d1\<rparr>) = Some (Inr (Inr sn), ?s1\<lparr>ss_db := d1, ss_fs := fs\<rparr>)"
      and sn0: "sn = ?new\<lparr>sn_Chunks := word_of_nat (0 + length cs), sn_Hash := sha256 ([] @ concat (map chunk_data cs)),
        sn_ChunkHashes := (if cs = [] then sn_ChunkHashes ?new
          else Some ((case sn_ChunkHashes ?new of None \<Rightarrow> [] | Some hs \<Rightarrow> hs) @ map (sha256 \<circ> chunk_data) cs))\<rparr>"
      and fs: "snap_free dir h f fs"
      and files: "\<forall>j. map_of (fs_files fs) (PathChunk dir h f (word_of_nat j)) =
        (if 0 \<le> j \<and> j < 0 + length cs then Some (chunk_data (cs ! (j - 0)))
         else if j < 2 ^ 32 then map_of (fs_files (ss_fs (?s1\<lparr>ss_db := d1\<rparr>))) (PathChunk dir h f (word_of_nat j))
         else map_of (fs_files fs) (PathChunk dir h f (word_of_nat j)))"
    using save_chunks_run [OF prem(1,2) cs(1) prem(3-5), of "[]"] by blast
  have sn: "sn = ?new\<lparr>sn_Chunks := word_of_nat (length cs), sn_Hash := sha256 (concat (map chunk_data cs)),
      sn_ChunkHashes := (if cs = [] then None else Some (map (sha256 \<circ> chunk_data) cs))\<rparr>"
    using sn0 by (cases "cs = []") simp_all
  have stored: "map_of (fs_files fs) (PathChunk dir h f (word_of_nat j)) = Some (chunk_data (cs ! j))" if "j < length cs" for j
    using files [THEN spec, of j] that by simp
  obtain bz where bz: "marshal sn = Inr bz" "unmarshal bz = Inr (wire sn)" using marshal by blast
  obtain d2 where set: "setSync (Some (encodeKey h f)) (Some bz) d1 = Some (Inr None, d2)" "d_inv d2"
      "d_contents d2 = (d_contents (ss_db s))(encodeKey h f \<mapsto> bz)"
    using SetSync [OF has(2) encodeKey_ne, of h f bz] has(3) by (auto elim!: wpE)
  define s2 where "s2 = s\<lparr>ss_db := d2, ss_fs := fs\<rparr>"
  have "snap_Save dir db setSync marshal h f cs s = Some (Inr (Some sn, None), s2)"
    using h s(3) has(1) save bz(1) set(1) sn
    by (simp add: snap_Save_def go_bind_apply go_read_def go_modify_def go_defer_def on_db_def go_zoom_def saveSnapshot_def ret_def
      s2_def removeAll_id)
  then show ?thesis using sn stored set fs bz cs(2) by (intro exI [of _ sn] exI [of _ s2]) (auto simp: s2_def saved_as_def)
qed

lemma Load_run:
  assumes s: "d_inv (ss_db s)" "saved_as dir d_contents unmarshal sn ds s" and sn: "sn_Height sn = h" "sn_Format sn = f"
  shows "\<exists>d'. snap_Load dir db unmarshal h f s =
    Some (Inr (Inr (Some (sn\<lparr>sn_ChunkHashes := Some (map sha256 ds)\<rparr>, map file_reader ds))), s\<lparr>ss_db := d'\<rparr>) \<and> d_inv d'"
proof -
  let ?sn = "sn\<lparr>sn_ChunkHashes := Some (map sha256 ds)\<rparr>"
  obtain bz where bz: "d_contents (ss_db s) (encodeKey h f) = Some bz" "unmarshal bz = Inr (wire sn)" and n: "length ds < 2 ^ 32"
      and hashes: "sn_ChunkHashes sn = (if ds = [] then None else Some (map sha256 ds))" "sn_Chunks sn = word_of_nat (length ds)"
    using s(2) sn by (auto simp: saved_as_def)
  have "(if sn_ChunkHashes (wire sn) = None then (wire sn)\<lparr>sn_ChunkHashes := Some []\<rparr> else wire sn) = ?sn"
    using hashes by (simp add: wire_def)
  then obtain d' where get: "snap_Get db unmarshal h f s = Some (Inr (Inr (Some ?sn)), s\<lparr>ss_db := d'\<rparr>)" "d_inv d'"
    using Get_run [OF s(1), of h f] bz by auto
  have "unat (sn_Chunks ?sn) = length ds"
    using hashes n by (simp add: unat_of_nat take_bit_nat_eq_self)
  moreover have "load_chunks dir h f 0 (length ds) (s\<lparr>ss_db := d'\<rparr>) = Some (Inr (map file_reader (drop 0 ds)), s\<lparr>ss_db := d'\<rparr>)"
    using s(2) sn by (intro load_chunks_run) (auto simp: saved_as_def snap_free_def)
  ultimately show ?thesis
    using get by (intro exI [of _ d']) (simp add: snap_Load_def go_bind_apply ret_def)
qed

lemma Save_Load:
  assumes s: "d_inv (ss_db s)" "snap_free dir h f (ss_fs s)" "h \<notin> set (ss_saving s)" "d_contents (ss_db s) (encodeKey h f) = None"
    and h: "h \<noteq> 0" and cs: "\<forall>c \<in> set cs. rc_end c = IO_EOF \<and> rc_close c = None" "length cs < 2 ^ 32"
  shows "wp (snap_Save dir db setSync marshal h f cs) (\<lambda>r s'. ss_saving s' = ss_saving s \<and>
    (\<exists>sn. r = (Some sn, None) \<and> sn_Hash sn = sha256 (concat (map chunk_data cs)) \<and>
      wp (snap_Load dir db unmarshal h f) (\<lambda>r _. \<exists>ch. r = Inr (Some (sn\<lparr>sn_ChunkHashes := Some (map (sha256 \<circ> chunk_data) cs)\<rparr>, ch)) \<and>
        map chunk_data ch = map chunk_data cs) s')) s"
proof -
  obtain sn s' where save: "snap_Save dir db setSync marshal h f cs s = Some (Inr (Some sn, None), s')" "d_inv (ss_db s')" "ss_saving s' = ss_saving s"
      "sn_Height sn = h" "sn_Format sn = f" "sn_Hash sn = sha256 (concat (map chunk_data cs))"
      "saved_as dir d_contents unmarshal sn (map chunk_data cs) s'"
    using Save_run [OF assms] by blast
  then show ?thesis
    using Load_run [OF save(2,7,4,5)] by (auto simp: wp_def comp_def)
qed

end

text \<open>
  Iterators that a deletion leaves as they are. The interface of cosmos-db does not promise this, as it forbids writes within the domain of an open iterator; the
  backend goleveldb does, whose iterators work on a snapshot of the database and which documents that an iterator is safe to use while the
  database is modified.
\<close>

definition isolated_iterators :: "(slice \<Rightarrow> ('d, string option) go) \<Rightarrow> ('d \<Rightarrow> bool) \<Rightarrow> ('d \<times> 'j \<Rightarrow> bool) \<Rightarrow> ('d \<times> 'j \<Rightarrow> (bytes \<times> slice) list) \<Rightarrow> bool" where
  "isolated_iterators deleteSync d_inv di_inv di_items \<longleftrightarrow> (\<forall>d k e d' i. d_inv d \<and> deleteSync (Some k) d = Some (Inr e, d') \<and> di_inv (d, i) \<longrightarrow>
     di_inv (d', i) \<and> di_items (d', i) = di_items (d, i))"

context snapshot_db
begin

lemma Delete_run:
  assumes "d_inv (ss_db s)" "h \<notin> set (ss_saving s)" "fs_fault (ss_fs s) = (\<lambda>_ _. None)"
  obtains d where "snap_Delete dir deleteSync h f s = Some (Inr None, s\<lparr>ss_db := d, ss_fs := rm (pathSnapshot dir h f) (ss_fs s)\<rparr>)"
    "d_inv d" "d_contents d = (d_contents (ss_db s))(encodeKey h f := None)"
    "\<And>i. isolated_iterators deleteSync d_inv di_inv di_items \<Longrightarrow> di_inv (ss_db s, i) \<Longrightarrow> di_inv (d, i) \<and> di_items (d, i) = di_items (ss_db s, i)"
proof -
  obtain d where d: "deleteSync (Some (encodeKey h f)) (ss_db s) = Some (Inr None, d)" "d_inv d"
      "d_contents d = (d_contents (ss_db s))(encodeKey h f := None)"
    using DeleteSync [OF assms(1) encodeKey_ne, of h f] by (auto elim!: wpE)
  show ?thesis
  proof (rule that [of d])
    show "di_inv (d, i) \<and> di_items (d, i) = di_items (ss_db s, i)" if "isolated_iterators deleteSync d_inv di_inv di_items" "di_inv (ss_db s, i)" for i
      using that d(1) assms(1) unfolding isolated_iterators_def by blast
  qed (use d assms in \<open>auto simp: snap_Delete_def go_bind_apply go_read_def on_db_def on_fs_def go_zoom_def os_RemoveAll_def sys_def
      go_modify_def ret_def rm_def\<close>)
qed

abbreviation snap_ok :: "'d SnapStore \<times> 'j \<Rightarrow> bool" where
  "snap_ok x \<equiv> d_inv (ss_db (fst x)) \<and> di_inv (ss_db (fst x), snd x)"

text \<open>One step of an iteration, run.\<close>

lemma snap_iter_run:
  assumes "snap_ok x"
  shows "\<exists>x'. it_Valid (snap_iter db) x = Some (Inr (di_items (ss_db (fst x), snd x) \<noteq> []), x') \<and> snap_ok x' \<and>
      di_items (ss_db (fst x'), snd x') = di_items (ss_db (fst x), snd x) \<and>
      d_contents (ss_db (fst x')) = d_contents (ss_db (fst x)) \<and> ss_fs (fst x') = ss_fs (fst x) \<and> ss_saving (fst x') = ss_saving (fst x)"
    and "di_items (ss_db (fst x), snd x) = (k, v) # r \<Longrightarrow>
      \<exists>x'. it_Key (snap_iter db) x = Some (Inr (Some k), x') \<and> snap_ok x' \<and>
        di_items (ss_db (fst x'), snd x') = di_items (ss_db (fst x), snd x) \<and>
        d_contents (ss_db (fst x')) = d_contents (ss_db (fst x)) \<and> ss_fs (fst x') = ss_fs (fst x) \<and> ss_saving (fst x') = ss_saving (fst x)"
    and "di_items (ss_db (fst x), snd x) = (k, v) # r \<Longrightarrow>
      \<exists>x'. it_Next (snap_iter db) x = Some (Inr (), x') \<and> snap_ok x' \<and> di_items (ss_db (fst x'), snd x') = r \<and>
        d_contents (ss_db (fst x')) = d_contents (ss_db (fst x)) \<and> ss_fs (fst x') = ss_fs (fst x) \<and> ss_saving (fst x') = ss_saving (fst x)"
  using iterator.Valid [OF snap_iterator assms] iterator.Key [OF snap_iterator assms] iterator.Next [OF snap_iterator assms]
  unfolding wp_def by fastforce+

lemma prune_loop_run:
  assumes iso: "isolated_iterators deleteSync d_inv di_inv di_items"
    and "snap_ok x" "map fst (di_items (ss_db (fst x), snd x)) = map (case_prod encodeKey) hfs"
    and "fs_fault (ss_fs (fst x)) = (\<lambda>_ _. None)" "\<forall>e \<in> set hfs. fst e \<notin> set (ss_saving (fst x))" "length skip \<le> unat retain"
  shows "\<exists>x'. prune_loop dir db deleteSync retain pruned ph skip x =
      Some (Inr (Inr (pruned + word_of_nat (length (prune_plan (unat retain) skip hfs)),
        fold List.insert (map fst (prune_plan (unat retain) skip hfs)) ph)), x') \<and>
    snap_ok x' \<and> ss_saving (fst x') = ss_saving (fst x) \<and>
    d_contents (ss_db (fst x')) = (\<lambda>k. if k \<in> case_prod encodeKey ` set (prune_plan (unat retain) skip hfs) then None
      else d_contents (ss_db (fst x)) k) \<and>
    ss_fs (fst x') = fold rm (map (case_prod (pathSnapshot dir)) (prune_plan (unat retain) skip hfs)) (ss_fs (fst x))"
  using assms(2-)
proof (induction hfs arbitrary: x pruned ph skip)
  case Nil
  then obtain x' where "it_Valid (snap_iter db) x = Some (Inr False, x')" "snap_ok x'"
      "d_contents (ss_db (fst x')) = d_contents (ss_db (fst x))" "ss_fs (fst x') = ss_fs (fst x)" "ss_saving (fst x') = ss_saving (fst x)"
    using snap_iter_run(1) [OF Nil.prems(1)] by auto
  then show ?case by (subst prune_loop.simps) (simp add: go_bind_apply ret_def)
next
  case (Cons e hfs)
  obtain h f where e: "e = (h, f)" by fastforce
  obtain v r where items: "di_items (ss_db (fst x), snd x) = (encodeKey h f, v) # r" "map fst r = map (case_prod encodeKey) hfs"
    using Cons.prems(2) e by (cases "di_items (ss_db (fst x), snd x)") auto
  obtain x1 where 1: "it_Valid (snap_iter db) x = Some (Inr True, x1)" "snap_ok x1"
      "di_items (ss_db (fst x1), snd x1) = (encodeKey h f, v) # r" "d_contents (ss_db (fst x1)) = d_contents (ss_db (fst x))"
      "ss_fs (fst x1) = ss_fs (fst x)" "ss_saving (fst x1) = ss_saving (fst x)"
    using snap_iter_run(1) [OF Cons.prems(1)] items(1) by auto
  obtain x2 where 2: "it_Key (snap_iter db) x1 = Some (Inr (Some (encodeKey h f)), x2)" "snap_ok x2"
      "di_items (ss_db (fst x2), snd x2) = (encodeKey h f, v) # r" "d_contents (ss_db (fst x2)) = d_contents (ss_db (fst x))"
      "ss_fs (fst x2) = ss_fs (fst x)" "ss_saving (fst x2) = ss_saving (fst x)"
    using snap_iter_run(2) [OF 1(2,3)] 1(3-6) by auto
  have len: "(word_of_nat (length skip) :: 32 word) < retain \<longleftrightarrow> length skip < unat retain"
    using Cons.prems(5) unsigned_less [of retain, where ?'a = nat]
    by (simp add: word_less_nat_alt unat_of_nat take_bit_nat_eq_self)
  show ?case
  proof (cases "h \<in> set skip \<or> length skip < unat retain")
    case True
    obtain x3 where 3: "it_Next (snap_iter db) x2 = Some (Inr (), x3)" "snap_ok x3" "di_items (ss_db (fst x3), snd x3) = r"
        "d_contents (ss_db (fst x3)) = d_contents (ss_db (fst x))" "ss_fs (fst x3) = ss_fs (fst x)" "ss_saving (fst x3) = ss_saving (fst x)"
      using snap_iter_run(3) [OF 2(2,3)] 2(4-6) by auto
    have "prune_loop dir db deleteSync retain pruned ph skip x =
        prune_loop dir db deleteSync retain pruned ph (List.insert h skip) x3"
      using True 1(1) 2(1) 3(1) len by (subst prune_loop.simps) (simp add: go_bind_apply Let_def)
    moreover have "length (List.insert h skip) \<le> unat retain" using True Cons.prems(5) by (auto simp: List.insert_def)
    ultimately show ?thesis
      using Cons.IH [of x3 "List.insert h skip" pruned ph] 3 items(2) Cons.prems(3,4) e True by (simp cong: if_cong)
  next
    case False
    obtain d where del: "snap_Delete dir deleteSync h f (fst x2) =
          Some (Inr None, (fst x2)\<lparr>ss_db := d, ss_fs := rm (pathSnapshot dir h f) (ss_fs (fst x2))\<rparr>)"
        "d_inv d" "d_contents d = (d_contents (ss_db (fst x2)))(encodeKey h f := None)"
        "\<And>i. di_inv (ss_db (fst x2), i) \<Longrightarrow> di_inv (d, i) \<and> di_items (d, i) = di_items (ss_db (fst x2), i)"
      using Delete_run [of "fst x2" h dir f] 2(2,5,6) Cons.prems(3,4) e iso by auto
    let ?x3 = "((fst x2)\<lparr>ss_db := d, ss_fs := rm (pathSnapshot dir h f) (ss_fs (fst x2))\<rparr>, snd x2)"
    have x3: "snap_ok ?x3" "di_items (ss_db (fst ?x3), snd ?x3) = (encodeKey h f, v) # r" using del 2(2,3) by auto
    obtain x4 where 4: "it_Next (snap_iter db) ?x3 = Some (Inr (), x4)" "snap_ok x4" "di_items (ss_db (fst x4), snd x4) = r"
        "d_contents (ss_db (fst x4)) = d_contents d" "ss_fs (fst x4) = rm (pathSnapshot dir h f) (ss_fs (fst x))"
        "ss_saving (fst x4) = ss_saving (fst x)"
      using snap_iter_run(3) [OF x3] 2(5,6) by auto
    have "prune_loop dir db deleteSync retain pruned ph skip x =
        prune_loop dir db deleteSync retain (pruned + 1) (List.insert h ph) skip x4"
      using False 1(1) 2(1) del(1) 4(1) len by (subst prune_loop.simps) (simp add: go_bind_apply go_zoom_def Let_def)
    moreover have "fs_fault (ss_fs (fst x4)) = (\<lambda>_ _. None)" using 4(5) Cons.prems(3) by (simp add: rm_def)
    ultimately show ?thesis
      using Cons.IH [of x4 skip "pruned + 1" "List.insert h ph"] 4 items(2) Cons.prems(4,5) e False del(3) 2(4)
      by (auto simp: fun_eq_iff)
  qed
qed

end

context snapshot_db
begin

lemma Prune_run:
  assumes iso: "isolated_iterators deleteSync d_inv di_inv di_items"
    and s: "d_inv (ss_db s)" "fs_fault (ss_fs s) = (\<lambda>_ _. None)" "\<forall>x \<in> snaps (d_contents (ss_db s)). fst x \<notin> set (ss_saving s)"
    and m: "snap_keys (d_contents (ss_db s))" "snap_layout dir (d_contents (ss_db s)) (ss_fs s)"
  defines "S \<equiv> snaps (d_contents (ss_db s))"
  shows "wp (snap_Prune dir db deleteSync retain) (\<lambda>r s'.
    r = (word_of_nat (card {x \<in> S. \<not> kept retain S (fst x)}), None) \<and>
    (\<forall>h f. d_contents (ss_db s') (encodeKey h f) = (if kept retain S h then d_contents (ss_db s) (encodeKey h f) else None)) \<and>
    (\<forall>h f q. (h, f) \<in> S \<and> kept retain S h \<and> prefix (pathSnapshot dir h f) q \<longrightarrow>
      map_of (fs_files (ss_fs s')) q = map_of (fs_files (ss_fs s)) q)) s"
  unfolding snap_Prune_def
proof (rule with_snapshots_wp [OF s(1)])
  fix d i
  assume d: "d_inv d" "d_contents d = d_contents (ss_db s)" "di_inv (d, i)"
    and "covers (d_contents (ss_db s)) (Some (encodeKey 0 0)) (Some (encodeKey (- 1) (- 1))) False (di_items (d, i))"
  then obtain hfs where hfs: "map fst (di_items (d, i)) = map (case_prod encodeKey) hfs" "set hfs = S" "distinct hfs"
      "sorted_wrt (\<lambda>a b. fst b \<le> fst a) hfs"
    using covers_snaps [OF m(1)] S_def by metis
  define plan where "plan = prune_plan (unat retain) [] hfs"
  have plan: "set plan = {x \<in> S. \<not> kept retain S (fst x)}" "distinct plan"
    using prune_plan_iff [OF hfs(4), of "[]" "unat retain"] hfs(2) distinct_prune_plan [OF hfs(3)]
    by (auto simp: plan_def kept_def not_less)
  let ?x = "(s\<lparr>ss_db := d\<rparr>, i)"
  obtain x1 where 1: "prune_loop dir db deleteSync retain 0 [] [] ?x =
        Some (Inr (Inr (0 + word_of_nat (length plan), fold List.insert (map fst plan) [])), x1)" "snap_ok x1"
      "d_contents (ss_db (fst x1)) = (\<lambda>k. if k \<in> case_prod encodeKey ` set plan then None else d_contents (ss_db (fst ?x)) k)"
      "ss_fs (fst x1) = fold rm (map (case_prod (pathSnapshot dir)) plan) (ss_fs (fst ?x))"
    using prune_loop_run [OF iso, of ?x hfs "[]" retain dir 0 "[]"] d hfs(1,2) s(2,3) S_def unfolding plan_def by fastforce
  let ?hs = "fold List.insert (map fst plan) []"
  obtain fs2 where 2: "remove_heights dir ?hs (ss_fs (fst x1)) = Some (Inr None, fs2)" "fs_files fs2 = fs_files (ss_fs (fst x1))"
    using remove_heights_run [of ?hs "ss_fs (fst x1)" dir] pruned_heights_empty [OF m(2) plan(1) [unfolded S_def]] 1(4) s(2)
    by (auto simp: distinct_fold_insert set_fold_insert rms_fault)
  let ?x2 = "((fst x1)\<lparr>ss_fs := fs2\<rparr>, snd x1)"
  obtain d3 i3 where 3: "it_Error (db_iter db) (ss_db (fst x1), snd x1) = Some (Inr None, (d3, i3))" "d_inv d3" "di_inv (d3, i3)"
      "d_contents d3 = d_contents (ss_db (fst x1))"
    using Error [of "ss_db (fst x1)" "snd x1"] 1(2) by (auto elim!: wpE)
  have len: "length plan = card {x \<in> S. \<not> kept retain S (fst x)}" using plan distinct_card by metis
  have cont: "d_contents d' (encodeKey h f) = (if kept retain S h then d_contents (ss_db s) (encodeKey h f) else None)"
    if "d_contents d' = d_contents (ss_db (fst x1))" for d' h f
    using that 1(3) d(2) plan(1) by (auto simp: S_def snaps_def image_iff)
  have files: "map_of (fs_files fs2) q = map_of (fs_files (ss_fs s)) q"
    if "(h, f) \<in> S" "kept retain S h" "prefix (pathSnapshot dir h f) q" for h f q
  proof -
    have "\<not> prefix (pathSnapshot dir h' f') q" if "(h', f') \<in> set plan" for h' f'
      using that \<open>kept retain S h\<close> \<open>prefix (pathSnapshot dir h f) q\<close> plan(1)
      by (auto simp: pathSnapshot_def pathHeight_def FormatUint_inj unat_eq_iff prefix_def)
    then show ?thesis using 2(2) 1(4) by (auto simp: rms_files)
  qed
  show "wp (go_bind (prune_loop dir db deleteSync retain 0 [] []) (\<lambda>r. case r of Inl e \<Rightarrow> ret (0, Some e)
        | Inr (pruned, prunedHeights) \<Rightarrow>
            go_bind (go_zoom fst (\<lambda>s x. (s, snd x)) (on_fs (remove_heights dir prunedHeights))) (\<lambda>err.
            case err of None \<Rightarrow> go_bind (it_Error (snap_iter db)) (\<lambda>err. ret (pruned, map_option Err_db err))
            | Some e \<Rightarrow> ret (0, Some (Err_os e ''failed to remove snapshot directory'')))))
      (\<lambda>x y. d_inv (ss_db (fst y)) \<and> di_inv (ss_db (fst y), snd y) \<and> (\<forall>d'. d_inv d' \<longrightarrow> d_contents d' = d_contents (ss_db (fst y)) \<longrightarrow>
        x = (word_of_nat (card {x \<in> S. \<not> kept retain S (fst x)}), None) \<and>
        (\<forall>h f. d_contents (ss_db ((fst y)\<lparr>ss_db := d'\<rparr>)) (encodeKey h f) =
          (if kept retain S h then d_contents (ss_db s) (encodeKey h f) else None)) \<and>
        (\<forall>h f q. (h, f) \<in> S \<and> kept retain S h \<and> prefix (pathSnapshot dir h f) q \<longrightarrow>
          map_of (fs_files (ss_fs ((fst y)\<lparr>ss_db := d'\<rparr>))) q = map_of (fs_files (ss_fs s)) q))) ?x"
    using 1(1) 2(1) 3 len cont files
    by (simp add: wp_def go_bind_apply go_zoom_def on_fs_def snap_iter_def case_prod_beta ret_def) blast
qed

end

text \<open>The parameters can be had: the reference database, and a protobuf code that keeps the fields apart.\<close>

definition ref_marshal :: "Snapshot \<Rightarrow> string + bytes" where
  "ref_marshal s = Inr (be_put 8 (unat (sn_Height s)) @ be_put 4 (unat (sn_Format s)) @ be_put 4 (unat (sn_Chunks s)) @ ref_bytes (sn_Hash s) @
     (case sn_ChunkHashes s of None \<Rightarrow> [] | Some hs \<Rightarrow> replicate (length hs) 1 @ (if hs = [] then [] else [0]) @ concat (map ref_bytes hs)))"

definition ref_unmarshal :: "bytes \<Rightarrow> string + Snapshot" where
  "ref_unmarshal bz = (let p = ref_parse (drop 16 bz); r = snd p in
     Inr \<lparr>sn_Height = word_of_nat (be_value (take 8 bz)), sn_Format = word_of_nat (be_value (take 4 (drop 8 bz))),
       sn_Chunks = word_of_nat (be_value (take 4 (drop 12 bz))), sn_Hash = fst p,
       sn_ChunkHashes = (if r = [] then None
         else let n = length (takeWhile (\<lambda>x. x = 1) r) in Some (ref_parse_list n (drop (Suc n) r)))\<rparr>)"

lemma ref_unmarshal_marshal: "\<exists>bz. ref_marshal s = Inr bz \<and> ref_unmarshal bz = Inr (wire s)"
proof -
  have tw: "takeWhile (\<lambda>x. x = 1) (replicate n 1 @ 0 # bz) = replicate n (1 :: byte)" for n bz
    by (induction n) simp_all
  have f: "word_of_nat (be_value (be_put 8 (unat h))) = h" "word_of_nat (be_value (be_put 4 (unat i))) = i" for h :: "64 word" and i :: "32 word"
    by (simp_all add: be_value_put_word)
  have l: "ref_parse_list (length hs) (concat (map ref_bytes hs)) = hs" for hs
    using ref_parse_list_bytes [of hs "[]"] by simp
  have p: "ref_parse (ref_bytes b) = (b, [])" for b
    using ref_parse_bytes [of b "[]"] by simp
  show ?thesis
    by (cases s; cases "sn_ChunkHashes s")
      (auto simp: ref_marshal_def ref_unmarshal_def Let_def ref_parse_bytes p f tw l wire_def)
qed

interpretation ref_snapshots: snapshot_db ref_db ref_d_inv map_of "\<lambda>_. True" ref_di_items "db_Set ref_db" "db_Delete ref_db" ref_marshal ref_unmarshal
proof (rule snapshot_db.intro [OF ref_database.database_axioms], unfold_locales)
  fix d :: ref_db_state and k v :: bytes
  assume "ref_d_inv d" "k \<noteq> []"
  then show "wp (db_Set ref_db (Some k) (Some v)) (\<lambda>e d'. e = None \<and> ref_d_inv d' \<and> map_of d' = (map_of d)(k \<mapsto> v)) d"
    by (rule ref_database.Set)
next
  fix d :: ref_db_state and k :: bytes
  assume "ref_d_inv d" "k \<noteq> []"
  then show "wp (db_Delete ref_db (Some k)) (\<lambda>e d'. e = None \<and> ref_d_inv d' \<and> map_of d' = (map_of d)(k := None)) d"
    by (rule ref_database.Delete)
qed (simp_all add: ref_db_defs wp_simps ref_unmarshal_marshal)

section \<open>Properties\<close>

text \<open>C13. A snapshot loads as it was saved. Saving chunks under a new height and format returns a snapshot whose hash is the SHA-256 of all chunks, frees the
  height for other savers, and loading it afterwards gives the same snapshot with the SHA-256 of each chunk, and the chunks.\<close>

theorem snapshot_save_load:
  assumes "snapshot_db db d_inv d_contents di_inv di_items setSync deleteSync marshal unmarshal"
    and "d_inv (ss_db s)" "snap_free dir h f (ss_fs s)" "h \<notin> set (ss_saving s)" "d_contents (ss_db s) (encodeKey h f) = None"
    and "h \<noteq> 0" "\<forall>c \<in> set cs. rc_end c = IO_EOF \<and> rc_close c = None" "length cs < 2 ^ 32"
  shows "wp (snap_Save dir db setSync marshal h f cs) (\<lambda>r s'. ss_saving s' = ss_saving s \<and>
    (\<exists>sn. r = (Some sn, None) \<and> sn_Hash sn = sha256 (concat (map chunk_data cs)) \<and>
      wp (snap_Load dir db unmarshal h f) (\<lambda>r _. \<exists>ch. r = Inr (Some (sn\<lparr>sn_ChunkHashes := Some (map (sha256 \<circ> chunk_data) cs)\<rparr>, ch)) \<and>
        map chunk_data ch = map chunk_data cs) s')) s"
  using assms(2-8) by (rule snapshot_db.Save_Load [OF assms(1)])

definition demo_snapshots :: "ref_db_state \<Rightarrow> path list \<Rightarrow> (path \<times> bytes) list \<Rightarrow> ref_db_state SnapStore" where
  "demo_snapshots d dirs files = \<lparr>ss_db = d, ss_fs = \<lparr>fs_dirs = dirs, fs_files = files, fs_fault = (\<lambda>_ _. None)\<rparr>, ss_saving = []\<rparr>"

theorem snapshot_save_load_witness:
  "wp (snap_Save [''data''] ref_db (db_Set ref_db) ref_marshal 7 3 [file_reader [1, 2], file_reader [3]]) (\<lambda>r s'. ss_saving s' = ss_saving (demo_snapshots [] [] []) \<and>
    (\<exists>sn. r = (Some sn, None) \<and> sn_Hash sn = sha256 (concat (map chunk_data [file_reader [1, 2], file_reader [3]])) \<and>
      wp (snap_Load [''data''] ref_db ref_unmarshal 7 3) (\<lambda>r _. \<exists>ch. r = Inr (Some (sn\<lparr>sn_ChunkHashes :=
          Some (map (sha256 \<circ> chunk_data) [file_reader [1, 2], file_reader [3]])\<rparr>, ch)) \<and>
        map chunk_data ch = map chunk_data [file_reader [1, 2], file_reader [3]]) s')) (demo_snapshots [] [] [])"
  by (rule snapshot_save_load [OF ref_snapshots.snapshot_db_axioms])
    (simp_all add: demo_snapshots_def snap_free_def ref_d_inv_def file_reader_def)

end
