(* ===== verification/Snapshot_Prune.thy ===== *)
theory Snapshot_Prune
  imports Snapshot_Laws
begin

text \<open>
  Pruning of the snapshot store, which deletes while its iterator is open. Under the documented contract of the database, which says nothing of such an iterator, the
  newest heights are safe; with iterators that do not notice deletions the outcome is exact.
\<close>

section \<open>Programs that may not return\<close>

text \<open>\<open>every m Q s\<close>: if \<open>m\<close> returns or panics, the result and the state satisfy \<open>Q\<close>.\<close>

definition every :: "('s, 'a) go \<Rightarrow> (panic + 'a \<Rightarrow> 's \<Rightarrow> bool) \<Rightarrow> 's \<Rightarrow> bool" where
  "every m Q s \<longleftrightarrow> (\<forall>r s'. m s = Some (r, s') \<longrightarrow> Q r s')"

lemma every_simps [simp]: "every (ret x) Q s \<longleftrightarrow> Q (Inr x) s" "every (go_bind (go_read g) f) Q s \<longleftrightarrow> every (f (g s)) Q s"
  by (simp_all add: every_def ret_def go_bind_def go_read_def)

lemma every_bind: "every m (\<lambda>r s1. case r of Inl p \<Rightarrow> Q (Inl p) s1 | Inr x \<Rightarrow> every (f x) Q s1) s \<Longrightarrow> every (go_bind m f) Q s"
  by (fastforce simp: every_def go_bind_def split: option.splits sum.splits)

lemma every_mono: "every m Q s \<Longrightarrow> (\<And>r s'. Q r s' \<Longrightarrow> R r s') \<Longrightarrow> every m R s"
  by (simp add: every_def)

lemma every_zoom: "every m (\<lambda>r t. Q r (put t s)) (get s) \<Longrightarrow> every (go_zoom get put m) Q s"
  by (auto simp: every_def go_zoom_def split: option.splits)

lemma every_local: "every m (\<lambda>r sl. Q (map_sum id (\<lambda>x. (x, snd sl)) r) (fst sl)) (s, l) \<Longrightarrow> every (go_local l m) Q s"
  by (fastforce simp: every_def go_local_def split: option.splits sum.splits)

lemma every_defer:
  "every m (\<lambda>r s1. every d (\<lambda>rd s2. Q (case rd of Inl p \<Rightarrow> Inl p | Inr _ \<Rightarrow> r) s2) s1) s \<Longrightarrow> every (go_defer d m) Q s"
  by (fastforce simp: every_def go_defer_def split: option.splits sum.splits)

lemma every_wp: "wp m Q s \<Longrightarrow> (\<And>x s'. Q x s' \<Longrightarrow> R (Inr x) s') \<Longrightarrow> every m R s"
  by (auto simp: every_def wp_def)

section \<open>What is safe\<close>

text \<open>The methods of an iterator read: whatever they return, also after a write, they do not change what the database holds.\<close>

definition reads_only :: "('d \<Rightarrow> bool) \<Rightarrow> ('d \<Rightarrow> bytes \<rightharpoonup> bytes) \<Rightarrow> ('d \<times> 'j) iter_ops \<Rightarrow> bool" where
  "reads_only d_inv d_contents it \<longleftrightarrow> (\<forall>x. d_inv (fst x) \<longrightarrow> (let same = (\<lambda>x'. d_inv (fst x') \<and> d_contents (fst x') = d_contents (fst x)) in
     every (it_Valid it) (\<lambda>_. same) x \<and> every (it_Key it) (\<lambda>_. same) x \<and> every (it_Next it) (\<lambda>_. same) x \<and>
     every (it_Error it) (\<lambda>_. same) x \<and> every (it_Close it) (\<lambda>_. same) x))"

text \<open>The entries and files of the snapshots of some heights are as they were in \<open>s0\<close>.\<close>

definition heights_safe :: "path \<Rightarrow> ('d \<Rightarrow> bool) \<Rightarrow> ('d \<Rightarrow> bytes \<rightharpoonup> bytes) \<Rightarrow> 64 word set \<Rightarrow> 'd SnapStore \<Rightarrow> 'd SnapStore \<Rightarrow> bool" where
  "heights_safe dir d_inv d_contents H s0 s \<longleftrightarrow> d_inv (ss_db s) \<and> (\<forall>h \<in> H. \<forall>f.
     d_contents (ss_db s) (encodeKey h f) = d_contents (ss_db s0) (encodeKey h f) \<and>
     (\<forall>q. prefix (pathSnapshot dir h f) q \<longrightarrow> map_of (fs_files (ss_fs s)) q = map_of (fs_files (ss_fs s0)) q))"

lemma pathSnapshot_heights:
  "prefix (pathSnapshot dir h f) q \<Longrightarrow> prefix (pathSnapshot dir h' f') q \<Longrightarrow> h = h'"
  "\<not> prefix (pathSnapshot dir h f) (pathHeight dir h')"
  by (auto simp: pathSnapshot_def pathHeight_def FormatUint_inj unat_eq_iff prefix_def)

lemma remove_heights_safe:
  assumes "heights_safe dir d_inv d_contents H s0 s"
  shows "every (on_fs (remove_heights dir hs)) (\<lambda>_. heights_safe dir d_inv d_contents H s0) s"
proof -
  have "every (remove_heights dir hs) (\<lambda>_ fs'. \<forall>h f q. prefix (pathSnapshot dir h f) q \<longrightarrow> map_of (fs_files fs') q = map_of (fs_files fs) q) fs" for fs
  proof (induction hs arbitrary: fs)
    case (Cons h hs)
    have "every (os_Remove (pathHeight dir h)) (\<lambda>_ fs'. \<forall>h f q. prefix (pathSnapshot dir h f) q \<longrightarrow> map_of (fs_files fs') q = map_of (fs_files fs) q) fs"
      by (auto simp: every_def os_Remove_def sys_def go_bind_apply go_read_def go_modify_def ret_def delete_conv' pathSnapshot_heights(2)
        split: option.splits if_splits)
    then show ?case
      unfolding remove_heights.simps
      by (intro every_bind) (erule every_mono, auto split: sum.splits intro!: every_mono [OF Cons.IH])
  qed simp
  then show ?thesis
    using assms unfolding on_fs_def by (intro every_zoom) (auto simp: every_def heights_safe_def)
qed

text \<open>The heights that the loop skips, which include those that are not pruned.\<close>

fun newest :: "nat \<Rightarrow> 'h list \<Rightarrow> ('h \<times> 'f) list \<Rightarrow> 'h list" where
  "newest r skip [] = skip"
| "newest r skip ((h, f) # xs) = (if length skip < r then newest r (List.insert h skip) xs else skip)"

lemma newest_or_pruned:
  assumes "x \<in> set xs" "fst x \<notin> set (newest r skip xs)"
  shows "x \<in> set (prune_plan r skip xs)"
proof -
  have skipped: "set skip \<subseteq> set (newest r skip xs)" for r and skip :: "'a list" and xs :: "('a \<times> 'b) list"
    by (induction r skip xs rule: newest.induct) auto
  have full: "x \<in> set (prune_plan r skip xs)" if "x \<in> set xs" "fst x \<notin> set skip" "\<not> length skip < r" for r x and skip :: "'a list" and xs :: "('a \<times> 'b) list"
    using that by (induction r skip xs rule: prune_plan.induct) (auto simp: List.insert_def)
  show ?thesis
    using assms
  proof (induction r skip xs rule: newest.induct)
    case (2 r skip h f xs)
    show ?case
    proof (cases "length skip < r")
      case True
      then have "h \<in> set (newest r skip ((h, f) # xs))" using skipped [of "List.insert h skip" r xs] by auto
      then have "x \<in> set xs" using "2.prems" by auto
      then show ?thesis using 2 True by simp
    next
      case False
      then show ?thesis using full [of x "(h, f) # xs" skip r] "2.prems" by simp
    qed
  qed simp
qed

context snapshot_db
begin

abbreviation safe :: "path \<Rightarrow> 64 word set \<Rightarrow> 'd SnapStore \<Rightarrow> 'd SnapStore \<Rightarrow> bool" where
  "safe dir H s0 \<equiv> heights_safe dir d_inv d_contents H s0"

lemma Delete_safe:
  assumes "safe dir H s0 s" "h \<notin> H"
  shows "every (snap_Delete dir deleteSync h f) (\<lambda>_. safe dir H s0) s"
proof -
  obtain d where d: "deleteSync (Some (encodeKey h f)) (ss_db s) = Some (Inr None, d)" "d_inv d"
      "d_contents d = (d_contents (ss_db s))(encodeKey h f := None)"
    using DeleteSync [OF _ encodeKey_ne, of "ss_db s" h f] assms(1) by (auto simp: heights_safe_def elim!: wpE)
  have files: "map_of (filter (\<lambda>e. \<not> prefix (pathSnapshot dir h f) (fst e)) (fs_files (ss_fs s))) q = map_of (fs_files (ss_fs s0)) q"
    if "prefix (pathSnapshot dir h' f') q" "h' \<in> H" for q h' f'
  proof -
    have "\<not> prefix (pathSnapshot dir h f) q" using that assms(2) pathSnapshot_heights(1) by metis
    then show ?thesis using assms(1) that by (subst map_of_filter_key [where Q = "\<lambda>k. \<not> prefix _ k"]) (auto simp: heights_safe_def)
  qed
  show ?thesis
    using d assms
    by (auto intro: files simp: every_def snap_Delete_def go_bind_apply go_read_def on_db_def on_fs_def go_zoom_def os_RemoveAll_def sys_def go_modify_def ret_def
      heights_safe_def split: option.splits if_splits)
qed

lemma zoom_safe:
  assumes "safe dir H s0 (fst x)" "every m (\<lambda>_ x'. d_inv (fst x') \<and> d_contents (fst x') = d_contents (ss_db (fst x))) (ss_db (fst x), snd x)"
  shows "every (go_zoom (\<lambda>(s, i). (ss_db s, i)) (\<lambda>(d, i) (s, _). (s\<lparr>ss_db := d\<rparr>, i)) m) (\<lambda>_ x'. safe dir H s0 (fst x')) x"
  using assms by (intro every_zoom) (cases x, auto simp: every_def heights_safe_def)

lemma iter_safe:
  assumes "reads_only d_inv d_contents (db_iter db)" "safe dir H s0 (fst x)"
  shows "every (it_Valid (snap_iter db)) (\<lambda>_ x'. safe dir H s0 (fst x')) x" "every (it_Key (snap_iter db)) (\<lambda>_ x'. safe dir H s0 (fst x')) x"
    "every (it_Next (snap_iter db)) (\<lambda>_ x'. safe dir H s0 (fst x')) x" "every (it_Error (snap_iter db)) (\<lambda>_ x'. safe dir H s0 (fst x')) x"
    "every (it_Close (snap_iter db)) (\<lambda>_ x'. safe dir H s0 (fst x')) x"
proof -
  have inv: "d_inv (fst (ss_db (fst x), snd x))" using assms(2) by (simp add: heights_safe_def)
  note reads = assms(1) [unfolded reads_only_def Let_def, rule_format, OF inv, unfolded fst_conv]
  show "every (it_Valid (snap_iter db)) (\<lambda>_ x'. safe dir H s0 (fst x')) x"
    unfolding snap_iter_def zoom_iter_simps by (rule zoom_safe [OF assms(2) reads [THEN conjunct1]])
  show "every (it_Key (snap_iter db)) (\<lambda>_ x'. safe dir H s0 (fst x')) x"
    unfolding snap_iter_def zoom_iter_simps by (rule zoom_safe [OF assms(2) reads [THEN conjunct2, THEN conjunct1]])
  show "every (it_Next (snap_iter db)) (\<lambda>_ x'. safe dir H s0 (fst x')) x"
    unfolding snap_iter_def zoom_iter_simps by (rule zoom_safe [OF assms(2) reads [THEN conjunct2, THEN conjunct2, THEN conjunct1]])
  show "every (it_Error (snap_iter db)) (\<lambda>_ x'. safe dir H s0 (fst x')) x"
    unfolding snap_iter_def zoom_iter_simps by (rule zoom_safe [OF assms(2) reads [THEN conjunct2, THEN conjunct2, THEN conjunct2, THEN conjunct1]])
  show "every (it_Close (snap_iter db)) (\<lambda>_ x'. safe dir H s0 (fst x')) x"
    unfolding snap_iter_def zoom_iter_simps by (rule zoom_safe [OF assms(2) reads [THEN conjunct2, THEN conjunct2, THEN conjunct2, THEN conjunct2]])
qed

text \<open>Once enough heights are skipped, only other heights are deleted, whatever keys the iterator returns.\<close>

lemma prune_loop_safe:
  assumes "reads_only d_inv d_contents (db_iter db)" "safe dir H s0 (fst x)" "H \<subseteq> set skip" "length skip = unat retain"
  shows "every (prune_loop dir db deleteSync retain pruned ph skip) (\<lambda>_ x'. safe dir H s0 (fst x')) x"
proof -
  define P where "P = (\<lambda>dir' (db' :: ('d, 'j) db_ops) ds' retain' (pruned :: 64 word) (ph :: 64 word list) skip' (x :: 'd SnapStore \<times> 'j)
      (y :: (panic + snap_error + 64 word \<times> 64 word list) \<times> 'd SnapStore \<times> 'j).
    dir' = dir \<longrightarrow> db' = db \<longrightarrow> ds' = deleteSync \<longrightarrow> retain' = retain \<longrightarrow> skip' = skip \<longrightarrow> safe dir H s0 (fst x) \<longrightarrow> safe dir H s0 (fst (snd y)))"
  have len: "\<not> (word_of_nat (length skip) :: 32 word) < retain"
    using unsigned_less [of retain, where ?'a = nat] by (simp add: assms(4) word_less_nat_alt unat_of_nat take_bit_nat_eq_self)
  have "P dir db deleteSync retain pruned ph skip x y" if "prune_loop dir db deleteSync retain pruned ph skip x = Some y" for pruned ph x y
    using that
  proof (rule prune_loop.raw_induct [where P = P and xa = "(((((((dir, db), deleteSync), retain), pruned), ph), skip), x)", unfolded prod.case, rotated])
    fix loop :: "path \<Rightarrow> ('d, 'j) db_ops \<Rightarrow> (slice \<Rightarrow> ('d, string option) go) \<Rightarrow> 32 word \<Rightarrow> 64 word \<Rightarrow> 64 word list \<Rightarrow> 64 word list \<Rightarrow>
      ('d SnapStore \<times> 'j, snap_error + (64 word \<times> 64 word list)) go"
    fix dir' :: path and db' :: "('d, 'j) db_ops" and ds' :: "slice \<Rightarrow> ('d, string option) go" and retain' pruned ph skip' x y
    let ?body = "\<lambda>dir db deleteSync retain pruned prunedHeights skip. go_bind (it_Valid (snap_iter db)) (\<lambda>valid.
      if \<not> valid then ret (Inr (pruned, prunedHeights))
      else go_bind (it_Key (snap_iter db)) (\<lambda>k.
        if isl (decodeKey (bs k)) then ret (Inl (projl (decodeKey (bs k))))
        else let height = fst (projr (decodeKey (bs k))); format = snd (projr (decodeKey (bs k))) in
          if height \<in> set skip \<or> (word_of_nat (length skip) :: 32 word) < retain
          then go_bind (it_Next (snap_iter db)) (\<lambda>_. loop dir db deleteSync retain pruned prunedHeights (List.insert height skip))
          else go_bind (go_zoom fst (\<lambda>s x. (s, snd x)) (snap_Delete dir deleteSync height format)) (\<lambda>err.
            if err \<noteq> None then ret (Inl (the err))
            else go_bind (it_Next (snap_iter db)) (\<lambda>_. loop dir db deleteSync retain (pruned + 1) (List.insert height prunedHeights) skip))))"
    assume IH: "\<And>dir' db' ds' retain' pruned ph skip' x y. loop dir' db' ds' retain' pruned ph skip' x = Some y \<Longrightarrow> P dir' db' ds' retain' pruned ph skip' x y"
      and run: "?body dir' db' ds' retain' pruned ph skip' x = Some y"
    have loop: "every (loop dir db deleteSync retain n hs skip) (\<lambda>_ x'. safe dir H s0 (fst x')) z" if "safe dir H s0 (fst z)" for n hs z
      using IH that unfolding every_def P_def by fastforce
    have "every (?body dir db deleteSync retain pruned ph skip) (\<lambda>_ x'. safe dir H s0 (fst x')) x" if "safe dir H s0 (fst x)"
    proof (rule every_bind, rule every_mono [OF iter_safe(1) [OF assms(1) that]], goal_cases)
      case (1 r x1)
      have step: "every (go_bind (it_Next (snap_iter db)) (\<lambda>_. loop dir db deleteSync retain n hs skip)) (\<lambda>_ x'. safe dir H s0 (fst x')) z"
        if "safe dir H s0 (fst z)" for n hs z
        by (rule every_bind, rule every_mono [OF iter_safe(3) [OF assms(1) that]]) (auto intro: loop split: sum.splits)
      have del: "every (go_bind (go_zoom fst (\<lambda>s x. (s, snd x)) (snap_Delete dir deleteSync h f)) (\<lambda>err.
          if err \<noteq> None then ret (Inl (the err))
          else go_bind (it_Next (snap_iter db)) (\<lambda>_. loop dir db deleteSync retain n hs skip))) (\<lambda>_ x'. safe dir H s0 (fst x')) z"
        if "safe dir H s0 (fst z)" "h \<notin> set skip" for h f n hs z
        by (rule every_bind, rule every_zoom, rule every_mono [OF Delete_safe [OF that(1)]]) (use that assms(3) step in \<open>auto split: sum.splits\<close>)
      have keyed: "every (go_bind (it_Key (snap_iter db)) (\<lambda>k.
          if isl (decodeKey (bs k)) then ret (Inl (projl (decodeKey (bs k))))
          else let height = fst (projr (decodeKey (bs k))); format = snd (projr (decodeKey (bs k))) in
            if height \<in> set skip \<or> (word_of_nat (length skip) :: 32 word) < retain
            then go_bind (it_Next (snap_iter db)) (\<lambda>_. loop dir db deleteSync retain pruned ph (List.insert height skip))
            else go_bind (go_zoom fst (\<lambda>s x. (s, snd x)) (snap_Delete dir deleteSync height format)) (\<lambda>err.
              if err \<noteq> None then ret (Inl (the err))
              else go_bind (it_Next (snap_iter db)) (\<lambda>_. loop dir db deleteSync retain (pruned + 1) (List.insert height ph) skip))))
          (\<lambda>_ x'. safe dir H s0 (fst x')) x1" if "safe dir H s0 (fst x1)"
        by (rule every_bind, rule every_mono [OF iter_safe(2) [OF assms(1) that]])
          (auto simp: Let_def len in_set_insert simp del: not_None_eq intro: step del split: sum.splits)
      show ?case using 1 keyed by (auto split: sum.splits)
    qed
    then show "P dir' db' ds' retain' pruned ph skip' x y" using run unfolding P_def every_def by (cases y) auto
  qed
  then show ?thesis using assms(2) by (fastforce simp: every_def P_def)
qed

text \<open>Up to the first deletion the iterator is a documented one, and returns the newest snapshots first.\<close>

lemma prune_loop_start:
  assumes "reads_only d_inv d_contents (db_iter db)" "H \<subseteq> set (newest (unat retain) skip hfs)" "length skip \<le> unat retain"
    and "snap_ok x" "map fst (di_items (ss_db (fst x), snd x)) = map (case_prod encodeKey) hfs" "safe dir H s0 (fst x)"
  shows "every (prune_loop dir db deleteSync retain pruned ph skip) (\<lambda>_ x'. safe dir H s0 (fst x')) x"
  using assms(2-)
proof (induction hfs arbitrary: skip x)
  case Nil
  then obtain x' where "it_Valid (snap_iter db) x = Some (Inr False, x')" "snap_ok x'"
      "d_contents (ss_db (fst x')) = d_contents (ss_db (fst x))" "ss_fs (fst x') = ss_fs (fst x)"
    using snap_iter_run(1) [OF Nil.prems(3)] by auto
  then show ?case using Nil.prems(5) by (cases x') (simp add: every_def prune_loop.simps go_bind_apply ret_def heights_safe_def)
next
  case (Cons e hfs)
  show ?case
  proof (cases "length skip = unat retain")
    case True
    then have "H \<subseteq> set skip" using Cons.prems(1) by (cases e) simp
    then show ?thesis using prune_loop_safe [OF assms(1) Cons.prems(5) _ True] by blast
  next
    case False
    obtain h f where e: "e = (h, f)" by fastforce
    obtain v r where items: "di_items (ss_db (fst x), snd x) = (encodeKey h f, v) # r" "map fst r = map (case_prod encodeKey) hfs"
      using Cons.prems(4) e by (cases "di_items (ss_db (fst x), snd x)") auto
    obtain x1 where 1: "it_Valid (snap_iter db) x = Some (Inr True, x1)" "snap_ok x1" "di_items (ss_db (fst x1), snd x1) = (encodeKey h f, v) # r"
        "d_contents (ss_db (fst x1)) = d_contents (ss_db (fst x))" "ss_fs (fst x1) = ss_fs (fst x)"
      using snap_iter_run(1) [OF Cons.prems(3)] items(1) by auto
    obtain x2 where 2: "it_Key (snap_iter db) x1 = Some (Inr (Some (encodeKey h f)), x2)" "snap_ok x2"
        "di_items (ss_db (fst x2), snd x2) = (encodeKey h f, v) # r" "d_contents (ss_db (fst x2)) = d_contents (ss_db (fst x))" "ss_fs (fst x2) = ss_fs (fst x)"
      using snap_iter_run(2) [OF 1(2,3)] 1(3-5) by auto
    obtain x3 where 3: "it_Next (snap_iter db) x2 = Some (Inr (), x3)" "snap_ok x3" "di_items (ss_db (fst x3), snd x3) = r"
        "d_contents (ss_db (fst x3)) = d_contents (ss_db (fst x))" "ss_fs (fst x3) = ss_fs (fst x)"
      using snap_iter_run(3) [OF 2(2,3)] 2(4,5) by auto
    have less: "length skip < unat retain" using False Cons.prems(2) by simp
    then have "(word_of_nat (length skip) :: 32 word) < retain"
      using unsigned_less [of retain, where ?'a = nat] by (simp add: word_less_nat_alt unat_of_nat take_bit_nat_eq_self)
    then have "prune_loop dir db deleteSync retain pruned ph skip x = prune_loop dir db deleteSync retain pruned ph (List.insert h skip) x3"
      using 1(1) 2(1) 3(1) by (subst prune_loop.simps) (simp add: go_bind_apply Let_def)
    moreover have "every (prune_loop dir db deleteSync retain pruned ph (List.insert h skip)) (\<lambda>_ x'. safe dir H s0 (fst x')) x3"
      using Cons.prems(1,5) less 3 items(2) e by (intro Cons.IH) (auto simp: heights_safe_def List.insert_def)
    ultimately show ?thesis by (simp add: every_def)
  qed
qed

lemma Prune_safe:
  assumes reads: "reads_only d_inv d_contents (db_iter db)" and s: "d_inv (ss_db s)" "snap_keys (d_contents (ss_db s))"
  defines "S \<equiv> snaps (d_contents (ss_db s))"
  shows "every (snap_Prune dir db deleteSync retain) (\<lambda>_. safe dir {h \<in> fst ` S. kept retain S h} s) s"
proof -
  let ?H = "{h \<in> fst ` S. kept retain S h}"
  have "ok_range (Some (encodeKey 0 0)) (Some (encodeKey (- 1) (- 1)))"
    by (simp add: ok_range_def ok_bound_def le_less encodeKey_less word_greater_zero_iff)
  then obtain d i where opened: "db_ReverseIterator db (Some (encodeKey 0 0)) (Some (encodeKey (- 1) (- 1))) (ss_db s) = Some (Inr (Inr i), d)"
      and d: "d_inv d" "d_contents d = d_contents (ss_db s)" "di_inv (d, i)"
        "covers (d_contents (ss_db s)) (Some (encodeKey 0 0)) (Some (encodeKey (- 1) (- 1))) False (di_items (d, i))"
    using ReverseIterator [OF s(1)] by (fastforce elim!: wpE)
  obtain hfs where hfs: "map fst (di_items (d, i)) = map (case_prod encodeKey) hfs" "set hfs = S" "sorted_wrt (\<lambda>a b. fst b \<le> fst a) hfs"
    using covers_snaps [OF s(2) d(4)] S_def by metis
  have "?H \<subseteq> set (newest (unat retain) [] hfs)"
    using newest_or_pruned [of _ hfs "unat retain" "[]"] prune_plan_iff [OF hfs(3), of "[]" "unat retain"] hfs(2) by (force simp: kept_def)
  then have loop: "every (prune_loop dir db deleteSync retain 0 [] []) (\<lambda>_ x'. safe dir ?H s (fst x')) (s\<lparr>ss_db := d\<rparr>, i)"
    using d hfs(1) by (intro prune_loop_start [OF reads]) (auto simp: heights_safe_def)
  have finish: "every (go_bind (go_zoom fst (\<lambda>s x. (s, snd x)) (on_fs (remove_heights dir hs))) (\<lambda>err.
      case err of Some e \<Rightarrow> ret (0, Some (Err_os e ''failed to remove snapshot directory''))
      | None \<Rightarrow> go_bind (it_Error (snap_iter db)) (\<lambda>err. ret (n, map_option Err_db err)))) (\<lambda>_ x'. safe dir ?H s (fst x')) x"
    if "safe dir ?H s (fst x)" for hs n x
  proof -
    have err: "every (go_bind (it_Error (snap_iter db)) (\<lambda>err. ret (n, map_option Err_db err))) (\<lambda>_ x'. safe dir ?H s (fst x')) z" if "safe dir ?H s (fst z)" for z
      by (rule every_bind, rule every_mono [OF iter_safe(4) [OF reads that]]) (auto split: sum.splits)
    show ?thesis
      by (rule every_bind, rule every_zoom, rule every_mono [OF remove_heights_safe [OF that]]) (auto intro: err split: sum.splits option.splits)
  qed
  have body: "every (go_bind (prune_loop dir db deleteSync retain 0 [] []) (\<lambda>r.
      case r of Inl e \<Rightarrow> ret (0, Some e)
      | Inr (pruned, prunedHeights) \<Rightarrow>
          go_bind (go_zoom fst (\<lambda>s x. (s, snd x)) (on_fs (remove_heights dir prunedHeights))) (\<lambda>err.
          case err of Some e \<Rightarrow> ret (0, Some (Err_os e ''failed to remove snapshot directory''))
          | None \<Rightarrow> go_bind (it_Error (snap_iter db)) (\<lambda>err. ret (pruned, map_option Err_db err)))))
      (\<lambda>_ x'. safe dir ?H s (fst x')) (s\<lparr>ss_db := d\<rparr>, i)"
    by (rule every_bind, rule every_mono [OF loop]) (auto intro: finish split: sum.splits)
  have close: "every (go_bind (it_Close (snap_iter db)) (\<lambda>_. ret ())) (\<lambda>_ x'. safe dir ?H s (fst x')) x" if "safe dir ?H s (fst x)" for x
    by (rule every_bind, rule every_mono [OF iter_safe(5) [OF reads that]]) (auto split: sum.splits)
  have rest: "every (go_bind (go_local i (go_defer (go_bind (it_Close (snap_iter db)) (\<lambda>_. ret ())) m)) (\<lambda>(x, _). ret x)) (\<lambda>_. safe dir ?H s) (s\<lparr>ss_db := d\<rparr>)"
    if m: "every m (\<lambda>_ x'. safe dir ?H s (fst x')) (s\<lparr>ss_db := d\<rparr>, i)" for m :: "('d SnapStore \<times> 'j, 64 word \<times> snap_error option) go"
  proof (rule every_bind, rule every_local, rule every_defer, rule every_mono [OF m])
    fix r and x :: "'d SnapStore \<times> 'j"
    assume "safe dir ?H s (fst x)"
    then show "every (go_bind (it_Close (snap_iter db)) (\<lambda>_. ret ())) (\<lambda>rd s2. case map_sum id (\<lambda>x. (x, snd s2)) (case rd of Inl p \<Rightarrow> Inl p | Inr _ \<Rightarrow> r) of
        Inl p \<Rightarrow> safe dir ?H s (fst s2) | Inr x \<Rightarrow> every (case x of (x, _) \<Rightarrow> ret x) (\<lambda>_. safe dir ?H s) (fst s2)) x"
      by (intro every_mono [OF close]) (auto split: sum.splits)
  qed
  show ?thesis
    unfolding snap_Prune_def with_snapshots_def on_db_def
    by (rule every_bind, rule every_zoom) (use rest [OF body] in \<open>simp add: every_def opened\<close>)
qed

end

lemma ref_reads_only: "reads_only ref_d_inv map_of (db_iter ref_db)"
  by (auto simp: reads_only_def every_def ref_db_defs go_defs split: list.splits)

section \<open>The property\<close>

text \<open>C23. Pruning keeps the newest heights. Whatever the iterator of the database does after the first deletion, which the interface leaves open, and whatever the file
  system refuses: when \<open>Prune\<close> returns, the entries and files of the snapshots of the newest \<open>retain\<close> heights are untouched. With iterators
  that a deletion leaves as they are, as those of goleveldb, and a file system that works, \<open>Prune\<close> returns, has deleted exactly the snapshots (of any format) of the heights that have
  at least \<open>retain\<close> heights with snapshots above them, and returns their number.\<close>

theorem snapshot_prune_newest:
  assumes "snapshot_db db d_inv d_contents di_inv di_items setSync deleteSync marshal unmarshal" "reads_only d_inv d_contents (db_iter db)"
    and "d_inv (ss_db s)" "snap_keys (d_contents (ss_db s))" "S = snaps (d_contents (ss_db s))"
  shows "(\<forall>r s'. snap_Prune dir db deleteSync retain s = Some (r, s') \<longrightarrow> (\<forall>h f. (h, f) \<in> S \<and> kept retain S h \<longrightarrow>
      d_contents (ss_db s') (encodeKey h f) = d_contents (ss_db s) (encodeKey h f) \<and>
      (\<forall>q. prefix (pathSnapshot dir h f) q \<longrightarrow> map_of (fs_files (ss_fs s')) q = map_of (fs_files (ss_fs s)) q))) \<and>
    (isolated_iterators deleteSync d_inv di_inv di_items \<and> fs_fault (ss_fs s) = (\<lambda>_ _. None) \<and> (\<forall>x \<in> S. fst x \<notin> set (ss_saving s)) \<and>
      snap_layout dir (d_contents (ss_db s)) (ss_fs s) \<longrightarrow>
     wp (snap_Prune dir db deleteSync retain) (\<lambda>r s'. r = (word_of_nat (card {x \<in> S. \<not> kept retain S (fst x)}), None) \<and>
       (\<forall>h f. d_contents (ss_db s') (encodeKey h f) = (if kept retain S h then d_contents (ss_db s) (encodeKey h f) else None))) s)"
proof (intro conjI impI allI)
  fix r s' h f
  assume "snap_Prune dir db deleteSync retain s = Some (r, s')" "(h, f) \<in> S \<and> kept retain S h"
  then show "d_contents (ss_db s') (encodeKey h f) = d_contents (ss_db s) (encodeKey h f)"
      "\<And>q. prefix (pathSnapshot dir h f) q \<Longrightarrow> map_of (fs_files (ss_fs s')) q = map_of (fs_files (ss_fs s)) q"
    using snapshot_db.Prune_safe [OF assms(1-4), of dir retain] unfolding every_def heights_safe_def assms(5) by force+
next
  assume "isolated_iterators deleteSync d_inv di_inv di_items \<and> fs_fault (ss_fs s) = (\<lambda>_ _. None) \<and> (\<forall>x \<in> S. fst x \<notin> set (ss_saving s)) \<and>
    snap_layout dir (d_contents (ss_db s)) (ss_fs s)"
  then show "wp (snap_Prune dir db deleteSync retain) (\<lambda>r s'. r = (word_of_nat (card {x \<in> S. \<not> kept retain S (fst x)}), None) \<and>
      (\<forall>h f. d_contents (ss_db s') (encodeKey h f) = (if kept retain S h then d_contents (ss_db s) (encodeKey h f) else None))) s"
    using snapshot_db.Prune_run [OF assms(1) _ assms(3) _ _ assms(4), of dir retain] by (auto simp: assms(5) elim!: wp_mono)
qed

definition demo_saved :: "ref_db_state SnapStore" where
  "demo_saved = demo_snapshots [(encodeKey 7 3, [9])] [pathHeight [''data''] 7, pathSnapshot [''data''] 7 3] [(PathChunk [''data''] 7 3 0, [1])]"

lemma demo_saved_snaps: "snaps (map_of (ss_db demo_saved)) = {(7, 3)}"
  by (auto simp: snaps_def demo_saved_def demo_snapshots_def split: if_splits)

theorem snapshot_prune_newest_witness:
  "wp (snap_Prune [''data''] ref_db (db_Delete ref_db) 0) (\<lambda>r s'. r = (1, None) \<and> (\<forall>h f. map_of (ss_db s') (encodeKey h f) = None)) demo_saved"
proof -
  have keys: "snap_keys (map_of (ss_db demo_saved))" "ref_d_inv (ss_db demo_saved)"
    by (auto simp: snap_keys_def demo_saved_def demo_snapshots_def ref_d_inv_def split: if_splits)
  have "snap_layout [''data''] (map_of (ss_db demo_saved)) (ss_fs demo_saved)"
    unfolding snap_layout_def demo_saved_snaps by (auto simp: demo_saved_def demo_snapshots_def PathChunk_def pathSnapshot_def)
  moreover have "isolated_iterators (db_Delete ref_db) ref_d_inv (\<lambda>_. True) ref_di_items"
    by (auto simp: isolated_iterators_def ref_db_defs)
  moreover have "\<not> kept 0 S h" for S h by (simp add: kept_def)
  ultimately show ?thesis
    using snapshot_prune_newest [OF ref_snapshots.snapshot_db_axioms ref_reads_only keys(2,1) refl, of "[''data'']" 0]
    by (simp add: demo_saved_snaps) (simp add: demo_saved_def demo_snapshots_def)
qed

end
