(* ===== verification/Snapshot_Stream.thy ===== *)
theory Snapshot_Stream
  imports Snapshot_Laws
begin

text \<open>
  snapshots/stream.go and snapshots/types/util.go: the streams of snapshot items through delimited protobuf, zlib, a buffer and the chunk
  writer, and back. zlib and the protobuf writers and readers are parameters: the writes they make for a message, and the messages they find in a stream
  of bytes. The buffer is \<open>bufio.Writer\<close> of the standard library.
\<close>

unbundle bit_operations_syntax

section \<open>Items\<close>

datatype SnapshotItem =
    SnapshotItem_Store string
  | SnapshotItem_IAVL slice slice "64 word" "32 word"
  | SnapshotItem_Extension string "32 word"
  | SnapshotItem_ExtensionPayload bytes

text \<open>
  The encoded size of an item, as the generated code computes it: a field is left out when it has its default value, and otherwise takes a mark, its length
  when it is a string of bytes, and its content.
\<close>

definition sovSnapshot :: "64 word \<Rightarrow> nat" where
  "sovSnapshot x = (bits_Len (unat (x OR 1)) + 6) div 7"

lemma sovSnapshot_le: "sovSnapshot x \<le> 10"
proof -
  define n where "n = unat (x OR 1)"
  have "n < 2 ^ 64" using unsigned_less [of "x OR 1"] by (simp add: n_def)
  have "bits_Len n \<le> 64"
  proof (cases "n = 0")
    case True
    then show ?thesis by (simp add: bits_Len.simps)
  next
    case False
    then have "(2 :: nat) ^ (bits_Len n - 1) < 2 ^ 64" using bits_Len_bounds [of n] \<open>n < 2 ^ 64\<close> by linarith
    then have "bits_Len n - 1 < 64" by (rule power_less_imp_less_exp [rotated]) simp
    then show ?thesis by linarith
  qed
  then show ?thesis by (simp add: sovSnapshot_def flip: n_def)
qed

definition size_bytes :: "nat \<Rightarrow> nat" where
  "size_bytes l = (if l > 0 then 1 + l + sovSnapshot (word_of_nat l) else 0)"

definition size_int :: "64 word \<Rightarrow> nat" where
  "size_int x = (if x \<noteq> 0 then 1 + sovSnapshot x else 0)"

definition SnapshotItem_Size :: "SnapshotItem \<Rightarrow> nat" where
  "SnapshotItem_Size item =
     (let l = (case item of
          SnapshotItem_Store name \<Rightarrow> size_bytes (length name)
        | SnapshotItem_IAVL k v version height \<Rightarrow> size_bytes (length (bs k)) + size_bytes (length (bs v)) + size_int version + size_int (scast height)
        | SnapshotItem_Extension name format \<Rightarrow> size_bytes (length name) + size_int (ucast format)
        | SnapshotItem_ExtensionPayload payload \<Rightarrow> size_bytes (length payload))
      in 1 + l + sovSnapshot (word_of_nat l))"

text \<open>The overhead of an item over the bytes it carries is small.\<close>

definition item_length :: "SnapshotItem \<Rightarrow> nat" where
  "item_length item = (case item of
     SnapshotItem_Store name \<Rightarrow> length name
   | SnapshotItem_IAVL k v version height \<Rightarrow> length (bs k) + length (bs v)
   | SnapshotItem_Extension name format \<Rightarrow> length name
   | SnapshotItem_ExtensionPayload payload \<Rightarrow> length payload)"

lemma SnapshotItem_Size_le: "SnapshotItem_Size item \<le> item_length item + 55"
proof -
  have size: "size_bytes n \<le> n + 11" "size_int w \<le> 11" "sovSnapshot w \<le> 10" for n w
    using sovSnapshot_le [of w] sovSnapshot_le [of "word_of_nat n"] by (simp_all add: size_bytes_def size_int_def)
  have step: "1 + l + sovSnapshot w \<le> n + 55" if "l \<le> n + 44" for l n w using that size(3) [of w] by linarith
  have parts: "size_bytes n \<le> n + 44" "size_bytes n + size_int w \<le> n + 44" "size_bytes n + size_bytes k + size_int w + size_int u \<le> n + k + 44" for n k w u
    using size(1) [of n] size(1) [of k] size(2) [of w] size(2) [of u] by linarith+
  show ?thesis
    unfolding SnapshotItem_Size_def Let_def by (rule step) (cases item; simp add: item_length_def parts)
qed

definition snapshotMaxItemSize :: nat where
  "snapshotMaxItemSize = 64000000"

definition snapshotChunkSize :: nat where
  "snapshotChunkSize = 10000000"

definition snapshotBufferSize :: nat where
  "snapshotBufferSize = snapshotChunkSize"

section \<open>The buffered writer\<close>

record bufWriter =
  bw_wr :: ChunkWriter
  bw_buf :: bytes
  bw_err :: "io_error option"

definition bufio_NewWriter :: "ChunkWriter \<Rightarrow> bufWriter" where
  "bufio_NewWriter w = \<lparr>bw_wr = w, bw_buf = [], bw_err = None\<rparr>"

definition bufio_Flush :: "(nat \<Rightarrow> nat option) \<Rightarrow> bufWriter \<Rightarrow> io_error option \<times> bufWriter" where
  "bufio_Flush takes b =
     (if bw_err b \<noteq> None then (bw_err b, b)
      else if bw_buf b = [] then (None, b)
      else case cw_Write takes (bw_buf b) (bw_wr b) of ((n, err), w) \<Rightarrow>
        (err, b\<lparr>bw_wr := w, bw_buf := drop n (bw_buf b), bw_err := err\<rparr>))"

text \<open>One pass of the loop of \<open>Write\<close>: what does not fit is written directly when the buffer is empty, and otherwise fills the buffer, which is flushed.\<close>

definition bufio_pass :: "(nat \<Rightarrow> nat option) \<Rightarrow> nat \<Rightarrow> bytes \<Rightarrow> bufWriter \<Rightarrow> nat \<times> bufWriter" where
  "bufio_pass takes sz p b =
     (if bw_buf b = []
      then (case cw_Write takes p (bw_wr b) of ((n, err), w) \<Rightarrow> (n, b\<lparr>bw_wr := w, bw_err := err\<rparr>))
      else let n = sz - length (bw_buf b) in (n, snd (bufio_Flush takes (b\<lparr>bw_buf := bw_buf b @ take n p\<rparr>))))"

text \<open>A chunk writer that reports no error has written everything, and a flush that reports none has emptied the buffer.\<close>

lemma Pipe_Write_all: "snd (fst (Pipe_Write data p)) = None \<Longrightarrow> fst (fst (Pipe_Write data p)) = length data"
  by (auto simp: Pipe_Write_def split: option.splits if_splits)

lemma cw_write_loop_all:
  "snd (fst (cw_write_loop takes nTotal data w)) = None \<Longrightarrow> fst (fst (cw_write_loop takes nTotal data w)) = nTotal + length data"
proof (induction takes nTotal data w rule: cw_write_loop.induct)
  case (1 takes nTotal data w)
  show ?case
  proof (cases "data = []")
    case True
    then show ?thesis by (simp add: cw_write_loop.simps)
  next
    case False
    define w1 where "w1 = cw_ready takes w"
    define sz where "sz = writeSize data w1"
    define r where "r = Pipe_Write (take sz data) (the (cw_pipe w1))"
    define w2 where "w2 = w1\<lparr>cw_pipe := Some (snd r), cw_written := cw_written w1 + fst (fst r)\<rparr>"
    have le: "sz \<le> length data" by (simp add: sz_def writeSize_def Let_def)
    have step: "cw_write_loop takes nTotal data w = (case snd (fst r) of Some err \<Rightarrow> ((nTotal + fst (fst r), Some err), w2)
        | None \<Rightarrow> cw_write_loop takes (nTotal + fst (fst r)) (drop sz data) w2)"
      using False by (subst cw_write_loop.simps) (simp only: Let_def w1_def sz_def r_def w2_def if_False)
    show ?thesis
    proof (cases "snd (fst r)")
      case None
      then have n: "fst (fst r) = sz" using Pipe_Write_all [of "take sz data" "the (cw_pipe w1)"] le by (simp add: r_def)
      have "fst (fst (cw_write_loop takes (nTotal + sz) (drop sz data) w2)) = nTotal + sz + length (drop sz data)"
        using "1.IH" [OF False w1_def sz_def r_def refl w2_def] 1(2) None step n by simp
      then show ?thesis using step None n le by simp
    next
      case (Some e)
      then show ?thesis using 1(2) step by simp
    qed
  qed
qed

lemma cw_Write_all: "snd (fst (cw_Write takes data w)) = None \<Longrightarrow> fst (fst (cw_Write takes data w)) = length data"
  using cw_write_loop_all [of takes 0 data w] by (auto simp: cw_Write_def split: if_splits)

lemma bufio_Flush_empty: "bw_err (snd (bufio_Flush takes b)) = None \<Longrightarrow> bw_buf (snd (bufio_Flush takes b)) = []"
  using cw_Write_all [of takes "bw_buf b" "bw_wr b"] by (auto simp: bufio_Flush_def split: prod.splits if_splits)

function bufio_Write :: "(nat \<Rightarrow> nat option) \<Rightarrow> nat \<Rightarrow> bytes \<Rightarrow> bufWriter \<Rightarrow> io_error option \<times> bufWriter" where
  "bufio_Write takes sz p b =
     (if sz - length (bw_buf b) < length p \<and> bw_err b = None
      then let (n, b') = bufio_pass takes sz p b in bufio_Write takes sz (drop n p) b'
      else if bw_err b \<noteq> None then (bw_err b, b)
      else (None, b\<lparr>bw_buf := bw_buf b @ p\<rparr>))"
  by auto
termination
proof (relation "measure (\<lambda>(_, _, p, b). if bw_err b = None then Suc (length p + length (bw_buf b)) else 0)", goal_cases)
  case (2 takes sz p b x n b')
  show ?case
  proof (cases "bw_buf b = []")
    case True
    then show ?thesis
      using 2 cw_Write_all [of takes p "bw_wr b"] by (auto simp: bufio_pass_def split: prod.splits)
  next
    case False
    then have "n = sz - length (bw_buf b)" "b' = snd (bufio_Flush takes (b\<lparr>bw_buf := bw_buf b @ take n p\<rparr>))"
      using 2 by (auto simp: bufio_pass_def Let_def)
    moreover obtain m where m: "length (bw_buf b) = Suc m" using False by (cases "bw_buf b") auto
    ultimately show ?thesis
      using 2 bufio_Flush_empty [of takes "b\<lparr>bw_buf := bw_buf b @ take n p\<rparr>"] by (auto simp: m)
  qed
qed simp

declare bufio_Write.simps [simp del]

section \<open>StreamWriter\<close>

text \<open>
  The compressor and the delimited protobuf coder. \<open>zp_msg\<close> gives the writes that \<open>WriteMsg\<close> makes to the buffer and its own error, \<open>zp_close\<close> those of
  closing; \<open>zp_read\<close> gives what the readers, the last of which takes messages of at most the given size, find in bytes that end with an error (or
  with \<open>None\<close>, when more may follow): \<open>None\<close> when opening waits for more, the error of opening, or the messages and the error after the last one.
\<close>

record 'z codec =
  zp_new :: "io_error + 'z"
  zp_msg :: "SnapshotItem \<Rightarrow> 'z \<Rightarrow> (bytes list \<times> io_error option) \<times> 'z"
  zp_close :: "'z \<Rightarrow> bytes list \<times> io_error option"
  zp_read :: "nat \<Rightarrow> bytes \<Rightarrow> io_error option \<Rightarrow> (io_error + (SnapshotItem list \<times> io_error option)) option"

text \<open>The chunk writer is in the buffer that writes to it.\<close>

record 'z StreamWriter =
  sw_buf :: bufWriter
  sw_z :: 'z

definition NewStreamWriter :: "'z codec \<Rightarrow> (nat \<Rightarrow> nat option) \<Rightarrow> ChunkWriter + 'z StreamWriter" where
  "NewStreamWriter Z takes =
     (let chunkWriter = NewChunkWriter snapshotChunkSize in
      case zp_new Z of Inl err \<Rightarrow> Inl (cw_CloseWithError takes (Some err) chunkWriter)
      | Inr z \<Rightarrow> Inr \<lparr>sw_buf = bufio_NewWriter chunkWriter, sw_z = z\<rparr>)"

text \<open>The writes of a coder, until one fails.\<close>

primrec buf_writes :: "(nat \<Rightarrow> nat option) \<Rightarrow> bytes list \<Rightarrow> bufWriter \<Rightarrow> io_error option \<times> bufWriter" where
  "buf_writes takes [] b = (None, b)"
| "buf_writes takes (p # ps) b =
     (case bufio_Write takes snapshotBufferSize p b of (Some err, b') \<Rightarrow> (Some err, b') | (None, b') \<Rightarrow> buf_writes takes ps b')"

definition sw_WriteMsg :: "'z codec \<Rightarrow> (nat \<Rightarrow> nat option) \<Rightarrow> SnapshotItem \<Rightarrow> 'z StreamWriter \<Rightarrow> io_error option \<times> 'z StreamWriter" where
  "sw_WriteMsg Z takes msg sw =
     (case zp_msg Z msg (sw_z sw) of ((ws, err), z) \<Rightarrow>
      (case buf_writes takes ws (sw_buf sw) of
         (Some err', b) \<Rightarrow> (Some err', \<lparr>sw_buf = b, sw_z = z\<rparr>)
       | (None, b) \<Rightarrow> (err, \<lparr>sw_buf = b, sw_z = z\<rparr>)))"

definition sw_CloseWithError :: "(nat \<Rightarrow> nat option) \<Rightarrow> io_error option \<Rightarrow> 'z StreamWriter \<Rightarrow> 'z StreamWriter" where
  "sw_CloseWithError takes err sw = sw\<lparr>sw_buf := (sw_buf sw)\<lparr>bw_wr := cw_CloseWithError takes err (bw_wr (sw_buf sw))\<rparr>\<rparr>"

definition sw_Close :: "'z codec \<Rightarrow> (nat \<Rightarrow> nat option) \<Rightarrow> 'z StreamWriter \<Rightarrow> io_error option \<times> 'z StreamWriter" where
  "sw_Close Z takes sw =
     (case zp_close Z (sw_z sw) of (ws, cerr) \<Rightarrow>
      case buf_writes takes ws (sw_buf sw) of (werr, b) \<Rightarrow>
      let sw1 = sw\<lparr>sw_buf := b\<rparr>; err = (if werr \<noteq> None then werr else cerr) in
      if err \<noteq> None then (err, sw_CloseWithError takes err sw1)
      else case bufio_Flush takes b of (ferr, b') \<Rightarrow>
        let sw2 = sw\<lparr>sw_buf := b'\<rparr> in
        if ferr \<noteq> None then (ferr, sw_CloseWithError takes ferr sw2)
        else case cw_Close (bw_wr b') of (err, w) \<Rightarrow> (err, sw\<lparr>sw_buf := b'\<lparr>bw_wr := w\<rparr>\<rparr>))"

definition WriteExtensionPayload :: "'z codec \<Rightarrow> (nat \<Rightarrow> nat option) \<Rightarrow> bytes \<Rightarrow> 'z StreamWriter \<Rightarrow> io_error option \<times> 'z StreamWriter" where
  "WriteExtensionPayload Z takes payload = sw_WriteMsg Z takes (SnapshotItem_ExtensionPayload payload)"

section \<open>StreamReader\<close>

text \<open>
  The reader of a stream has the messages still to come and the error after them; \<open>None\<close> stands for a channel that is still open, on which
  the reader waits. The bytes of the stream are those that the chunk reader delivers to the buffer of the decompressor.
\<close>

record StreamReader =
  sr_items :: "SnapshotItem list"
  sr_end :: "io_error option"

definition stream_bytes :: "ReadCloser list \<Rightarrow> bool \<Rightarrow> (bytes \<times> io_error option) option" where
  "stream_bytes chunks closed =
     (case cr_ReadAll (\<lambda>_. 4096) 0 [] (NewChunkReader chunks) of
        None \<Rightarrow> None
      | Some ((bz, err), _) \<Rightarrow> Some (bz, if err \<noteq> None then err else if closed then Some IO_EOF else None))"

definition NewStreamReader :: "'z codec \<Rightarrow> ReadCloser list \<Rightarrow> bool \<Rightarrow> (io_error + StreamReader) option" where
  "NewStreamReader Z chunks closed =
     (case stream_bytes chunks closed of None \<Rightarrow> None
      | Some (bz, err) \<Rightarrow> map_option (map_sum id (\<lambda>(items, e). \<lparr>sr_items = items, sr_end = e\<rparr>)) (zp_read Z snapshotMaxItemSize bz err))"

definition sr_ReadMsg :: "(StreamReader, io_error + SnapshotItem) go" where
  "sr_ReadMsg sr =
     (case sr_items sr of x # xs \<Rightarrow> Some (Inr (Inr x), sr\<lparr>sr_items := xs\<rparr>)
      | [] \<Rightarrow> (case sr_end sr of None \<Rightarrow> None | Some err \<Rightarrow> Some (Inr (Inl err), sr)))"

text \<open>Closing the reader closes the chunk reader, which receives from the channel until it is closed.\<close>

definition sr_Close :: "bool \<Rightarrow> ('s, unit) go" where
  "sr_Close closed s = (if closed then Some (Inr (), s) else None)"

section \<open>What is written is read\<close>

definition buf_inv :: "bufWriter \<Rightarrow> bytes \<Rightarrow> bool" where
  "buf_inv b c \<longleftrightarrow> bw_err b = None \<and> (\<exists>c1. cw_inv snapshotChunkSize (bw_wr b) c1 \<and> c = c1 @ bw_buf b)"

lemma bufio_Flush_run:
  assumes "buf_inv b c"
  shows "\<exists>b'. bufio_Flush (\<lambda>_. None) b = (None, b') \<and> buf_inv b' c \<and> bw_buf b' = []"
proof (cases "bw_buf b = []")
  case True
  then show ?thesis using assms by (auto simp: bufio_Flush_def buf_inv_def)
next
  case False
  obtain c1 where c1: "cw_inv snapshotChunkSize (bw_wr b) c1" "c = c1 @ bw_buf b" using assms by (auto simp: buf_inv_def)
  then show ?thesis
    using cw_Write_run [OF c1(1), of "bw_buf b"] False assms by (auto simp: bufio_Flush_def buf_inv_def)
qed

lemma bufio_Write_run:
  assumes "buf_inv b c"
  shows "\<exists>b'. bufio_Write (\<lambda>_. None) sz p b = (None, b') \<and> buf_inv b' (c @ p)"
  using assms
proof (induction "\<lambda>_::nat. None :: nat option" sz p b arbitrary: c rule: bufio_Write.induct)
  case (1 sz p b)
  show ?case
  proof (cases "sz - length (bw_buf b) < length p")
    case True
    obtain n b1 where pass: "bufio_pass (\<lambda>_. None) sz p b = (n, b1)" by (cases "bufio_pass (\<lambda>_. None) sz p b")
    have "buf_inv b1 (c @ take n p)"
    proof (cases "bw_buf b = []")
      case True
      then show ?thesis
        using pass 1(2) cw_Write_run [of snapshotChunkSize "bw_wr b" c p] by (auto simp: bufio_pass_def buf_inv_def)
    next
      case False
      let ?b = "b\<lparr>bw_buf := bw_buf b @ take n p\<rparr>"
      have "buf_inv ?b (c @ take n p)" using 1(2) by (auto simp: buf_inv_def)
      then show ?thesis
        using False pass bufio_Flush_run [of ?b "c @ take n p"] by (auto simp: bufio_pass_def Let_def)
    qed
    then show ?thesis
      using "1.hyps" [of "(n, b1)" n b1 "c @ take n p"] pass True 1(2)
      by (subst bufio_Write.simps) (auto simp: buf_inv_def)
  next
    case False
    then show ?thesis using 1(2) by (subst bufio_Write.simps) (auto simp: buf_inv_def)
  qed
qed

lemma buf_writes_run:
  assumes "buf_inv b c"
  shows "\<exists>b'. buf_writes (\<lambda>_. None) ps b = (None, b') \<and> buf_inv b' (c @ concat ps)"
  using assms
proof (induction ps arbitrary: b c)
  case (Cons p ps)
  then show ?case using bufio_Write_run [OF Cons.prems, of snapshotBufferSize p] by fastforce
qed simp

end
