(* ===== verification/Snapshot_Manager.thy ===== *)
theory Snapshot_Manager
  imports Snapshot_Stream "HOL-Library.Char_ord"
begin

text \<open>
  snapshots/manager.go and snapshots/types/snapshotter.go: the manager that creates, prunes and restores snapshots, one operation at a time.
  The multistore and the extensions are parameters (\<open>Snapshotter\<close>, \<open>ExtensionSnapshotter\<close>). A goroutine that produces or consumes a stream is run
  when its result is received. Logging is left out.
\<close>

section \<open>Interfaces\<close>

text \<open>
  \<open>snp_Snapshot\<close> gives the items that \<open>Snapshot\<close> writes and the error it returns after them; it returns the error of a write that fails.
  \<open>snp_Restore\<close> reads from a stream and returns the first item that it does not handle, or none at the end.
\<close>

record 'm Snapshotter =
  snp_Snapshot :: "64 word \<Rightarrow> 'm \<Rightarrow> SnapshotItem list \<times> io_error option"
  snp_PruneSnapshotHeight :: "64 word \<Rightarrow> ('m, unit) go"
  snp_Restore :: "64 word \<Rightarrow> 32 word \<Rightarrow> ('m \<times> StreamReader, snap_error + SnapshotItem option) go"

text \<open>\<open>ext_RestoreExtension\<close> takes the reader of payloads, a program on the next item and the stream.\<close>

type_synonym payload_reader = "(SnapshotItem option \<times> StreamReader, io_error + bytes) go"

record 'x ExtensionSnapshotter =
  ext_SnapshotName :: "'x \<Rightarrow> string"
  ext_SnapshotFormat :: "'x \<Rightarrow> 32 word"
  ext_SupportedFormats :: "'x \<Rightarrow> 32 word list"
  ext_SnapshotExtension :: "64 word \<Rightarrow> 'x \<Rightarrow> bytes list \<times> io_error option"
  ext_RestoreExtension :: "64 word \<Rightarrow> 32 word \<Rightarrow> payload_reader \<Rightarrow> ('x \<times> (SnapshotItem option \<times> StreamReader), snap_error option) go"

text \<open>What the manager is built on: the directory and database of its store, the protobuf code, the multistore, the extensions and the codec.\<close>

record ('d, 'j, 'm, 'x, 'z) snap_env =
  en_dir :: path
  en_db :: "('d, 'j) db_ops"
  en_setSync :: "slice \<Rightarrow> slice \<Rightarrow> ('d, string option) go"
  en_deleteSync :: "slice \<Rightarrow> ('d, string option) go"
  en_Close :: "('d, string option) go"
  en_marshal :: "Snapshot \<Rightarrow> string + bytes"
  en_unmarshal :: "bytes \<Rightarrow> string + Snapshot"
  en_multistore :: "'m Snapshotter"
  en_ext :: "'x ExtensionSnapshotter"
  en_codec :: "'z codec"

text \<open>A nil list of hashes has length 0.\<close>

definition chunk_hashes :: "Snapshot \<Rightarrow> bytes list" where
  "chunk_hashes s = (case sn_ChunkHashes s of None \<Rightarrow> [] | Some hs \<Rightarrow> hs)"

section \<open>State\<close>

datatype operation = opNone | opSnapshot | opPrune | opRestore

text \<open>
  The goroutines that \<open>Restore\<close> starts: the snapshot, the chunk indices sent to them so far, and whether the channel of indices is closed.
\<close>

record RestoreRun =
  rr_snapshot :: Snapshot
  rr_ids :: "32 word list"
  rr_closed :: bool

text \<open>\<open>sm_chRestore\<close>: the channel of indices is not nil; \<open>sm_chRestoreDone\<close>: the goroutines at the other end of the channel of results, or nil.\<close>

record ('d, 'm, 'x) SnapManager =
  sm_extensions :: "(string \<times> 'x) list"
  sm_store :: "'d SnapStore"
  sm_opts :: SnapshotOptions
  sm_multistore :: 'm
  sm_operation :: operation
  sm_chRestore :: bool
  sm_chRestoreDone :: "RestoreRun option"
  sm_restoreSnapshot :: "Snapshot option"
  sm_restoreChunkIndex :: "32 word"

definition on_snaps :: "('d SnapStore, 'a) go \<Rightarrow> (('d, 'm, 'x) SnapManager, 'a) go" where
  "on_snaps = go_zoom sm_store (\<lambda>s m. m\<lparr>sm_store := s\<rparr>)"

definition on_multistore :: "('m, 'a) go \<Rightarrow> (('d, 'm, 'x) SnapManager, 'a) go" where
  "on_multistore = go_zoom sm_multistore (\<lambda>s m. m\<lparr>sm_multistore := s\<rparr>)"

definition snap_NewManager :: "'d SnapStore \<Rightarrow> SnapshotOptions \<Rightarrow> 'm \<Rightarrow> (string \<times> 'x) list option \<Rightarrow> ('d, 'm, 'x) SnapManager" where
  "snap_NewManager store opts multistore extensions =
     \<lparr>sm_extensions = (case extensions of None \<Rightarrow> [] | Some es \<Rightarrow> es), sm_store = store, sm_opts = opts, sm_multistore = multistore,
      sm_operation = opNone, sm_chRestore = False, sm_chRestoreDone = None, sm_restoreSnapshot = None, sm_restoreChunkIndex = 0\<rparr>"

definition IsFormatSupported :: "'x ExtensionSnapshotter \<Rightarrow> 'x \<Rightarrow> 32 word \<Rightarrow> bool" where
  "IsFormatSupported E snapshotter format \<longleftrightarrow> format \<in> set (ext_SupportedFormats E snapshotter)"

primrec RegisterExtensions :: "'x ExtensionSnapshotter \<Rightarrow> 'x list \<Rightarrow> (('d, 'm, 'x) SnapManager, snap_error option) go" where
  "RegisterExtensions E [] = ret None"
| "RegisterExtensions E (x # xs) =
     go_bind (go_read sm_extensions) (\<lambda>es.
     if map_of es (ext_SnapshotName E x) \<noteq> None then ret (Some (Err_new ''duplicated snapshotter name''))
     else if \<not> IsFormatSupported E x (ext_SnapshotFormat E x) then ret (Some (Err_new ''snapshotter don't support it's own snapshot format''))
     else go_bind (go_modify (\<lambda>m. m\<lparr>sm_extensions := AList.update (ext_SnapshotName E x) x es\<rparr>)) (\<lambda>_. RegisterExtensions E xs))"

text \<open>\<open>begin\<close> and \<open>end\<close> take the lock around \<open>beginLocked\<close> and \<open>endLocked\<close>.\<close>

definition beginLocked :: "operation \<Rightarrow> (('d, 'm, 'x) SnapManager, snap_error option) go" where
  "beginLocked oper =
     (if oper = opNone then ret (Some (ErrLogic ''can't begin a none operation''))
      else go_bind (go_read sm_operation) (\<lambda>current.
        if current \<noteq> opNone then ret (Some (ErrConflict ''an operation is in progress''))
        else go_bind (go_modify (\<lambda>m. m\<lparr>sm_operation := oper\<rparr>)) (\<lambda>_. ret None)))"

text \<open>Closing the channel of indices closes it for the goroutines, but they are not received from again.\<close>

definition endLocked :: "(('d, 'm, 'x) SnapManager, unit) go" where
  "endLocked = go_modify (\<lambda>m. m\<lparr>sm_operation := opNone, sm_chRestore := False, sm_chRestoreDone := None, sm_restoreSnapshot := None,
     sm_restoreChunkIndex := 0\<rparr>)"

definition GetInterval :: "('d, 'm, 'x) SnapManager \<Rightarrow> 64 word" where
  "GetInterval m = so_Interval (sm_opts m)"

definition GetKeepRecent :: "('d, 'm, 'x) SnapManager \<Rightarrow> 32 word" where
  "GetKeepRecent m = so_KeepRecent (sm_opts m)"

text \<open>The product wraps around and the result is read as an \<open>int64\<close>.\<close>

definition GetSnapshotBlockRetentionHeights :: "('d, 'm, 'x) SnapManager \<Rightarrow> 64 word" where
  "GetSnapshotBlockRetentionHeights m = so_Interval (sm_opts m) * ucast (so_KeepRecent (sm_opts m))"

section \<open>Creating a snapshot\<close>

text \<open>The names are those of a map, so they are distinct.\<close>

definition sortedExtensionNames :: "(string \<times> 'x) list \<Rightarrow> string list" where
  "sortedExtensionNames es = sort (map fst es)"

text \<open>Writing items, or the payloads of an extension, until a write fails; then the error given.\<close>

primrec write_items :: "'z codec \<Rightarrow> (nat \<Rightarrow> nat option) \<Rightarrow> SnapshotItem list \<Rightarrow> io_error option \<Rightarrow> 'z StreamWriter \<Rightarrow> io_error option \<times> 'z StreamWriter" where
  "write_items Z takes [] err sw = (err, sw)"
| "write_items Z takes (x # xs) err sw =
     (case sw_WriteMsg Z takes x sw of (Some e, sw') \<Rightarrow> (Some e, sw') | (None, sw') \<Rightarrow> write_items Z takes xs err sw')"

primrec write_payloads :: "'z codec \<Rightarrow> (nat \<Rightarrow> nat option) \<Rightarrow> bytes list \<Rightarrow> io_error option \<Rightarrow> 'z StreamWriter \<Rightarrow> io_error option \<times> 'z StreamWriter" where
  "write_payloads Z takes [] err sw = (err, sw)"
| "write_payloads Z takes (p # ps) err sw =
     (case WriteExtensionPayload Z takes p sw of (Some e, sw') \<Rightarrow> (Some e, sw') | (None, sw') \<Rightarrow> write_payloads Z takes ps err sw')"

primrec write_extensions :: "('d, 'j, 'm, 'x, 'z) snap_env \<Rightarrow> (nat \<Rightarrow> nat option) \<Rightarrow> 64 word \<Rightarrow> (string \<times> 'x) list \<Rightarrow> string list \<Rightarrow>
    'z StreamWriter \<Rightarrow> io_error option \<times> 'z StreamWriter" where
  "write_extensions env takes height es [] sw = (None, sw)"
| "write_extensions env takes height es (name # names) sw =
     (let extension = the (map_of es name) in
      case sw_WriteMsg (en_codec env) takes (SnapshotItem_Extension name (ext_SnapshotFormat (en_ext env) extension)) sw of
        (Some err, sw1) \<Rightarrow> (Some err, sw1)
      | (None, sw1) \<Rightarrow>
          (case ext_SnapshotExtension (en_ext env) height extension of (payloads, err) \<Rightarrow>
           case write_payloads (en_codec env) takes payloads err sw1 of
             (Some err, sw2) \<Rightarrow> (Some err, sw2)
           | (None, sw2) \<Rightarrow> write_extensions env takes height es names sw2))"

text \<open>
  The chunks that \<open>createSnapshot\<close> sends. The deferred close comes last; its error, if any, has already closed the chunk writer. A failed
  \<open>NewStreamWriter\<close> has sent the chunk that carries the error.
\<close>

definition createSnapshot :: "('d, 'j, 'm, 'x, 'z) snap_env \<Rightarrow> (nat \<Rightarrow> nat option) \<Rightarrow> 64 word \<Rightarrow> 'm \<Rightarrow> (string \<times> 'x) list \<Rightarrow> Pipe list" where
  "createSnapshot env takes height multistore es =
     (case NewStreamWriter (en_codec env) takes of
        Inl w \<Rightarrow> cw_sent w
      | Inr streamWriter \<Rightarrow>
          let (items, serr) = snp_Snapshot (en_multistore env) height multistore;
              (err, sw) = (case write_items (en_codec env) takes items serr streamWriter of
                  (Some err, sw1) \<Rightarrow> (Some err, sw1)
                | (None, sw1) \<Rightarrow> write_extensions env takes height es (sortedExtensionNames es) sw1);
              sw' = (if err \<noteq> None then sw_CloseWithError takes err sw else sw);
              (cerr, sw'') = sw_Close (en_codec env) takes sw';
              closed = (if cerr \<noteq> None then sw_CloseWithError takes cerr sw'' else sw'')
          in cw_sent (bw_wr (sw_buf closed)))"

text \<open>
  \<open>Create\<close> between \<open>begin\<close> and \<open>end\<close>. \<open>Save\<close> reads every chunk to its end, or fails and closes the others, so the chunks are those that
  \<open>createSnapshot\<close> sends to readers that take everything.
\<close>

definition create_body :: "('d, 'j, 'm, 'x, 'z) snap_env \<Rightarrow> 64 word \<Rightarrow> (('d, 'm, 'x) SnapManager, Snapshot option \<times> snap_error option) go" where
  "create_body env height =
     go_bind (on_snaps (snap_GetLatest (en_db env) (en_unmarshal env))) (\<lambda>(latest, err).
     if err \<noteq> None then ret (None, err)
     else if latest \<noteq> None \<and> sn_Height (the latest) \<ge> height
     then ret (None, Some (ErrConflict ''a more recent snapshot already exists''))
     else go_bind (go_read (\<lambda>m. createSnapshot env (\<lambda>_. None) height (sm_multistore m) (sm_extensions m))) (\<lambda>ch.
       on_snaps (snap_Save (en_dir env) (en_db env) (en_setSync env) (en_marshal env) height CurrentFormat (map pipe_reader ch))))"

definition create_run :: "('d, 'j, 'm, 'x, 'z) snap_env \<Rightarrow> 64 word \<Rightarrow> (('d, 'm, 'x) SnapManager, Snapshot option \<times> snap_error option) go" where
  "create_run env height =
     go_defer (on_multistore (snp_PruneSnapshotHeight (en_multistore env) height))
       (go_bind (beginLocked opSnapshot) (\<lambda>err.
        if err \<noteq> None then ret (None, err) else go_defer endLocked (create_body env height)))"

text \<open>The receiver of \<open>Create\<close> may be nil.\<close>

definition mgr_Create :: "('d, 'j, 'm, 'x, 'z) snap_env \<Rightarrow> 64 word \<Rightarrow> (('d, 'm, 'x) SnapManager option, Snapshot option \<times> snap_error option) go" where
  "mgr_Create env height =
     go_bind (go_read (\<lambda>m. m = None)) (\<lambda>is_nil.
     if is_nil then ret (None, Some (ErrLogic ''no snapshot store configured''))
     else go_zoom the (\<lambda>m _. Some m) (create_run env height))"

definition mgr_List :: "('d, 'j, 'm, 'x, 'z) snap_env \<Rightarrow> (('d, 'm, 'x) SnapManager, Snapshot list \<times> snap_error option) go" where
  "mgr_List env = on_snaps (snap_List (en_db env) (en_unmarshal env))"

text \<open>A file is read to its end.\<close>

definition mgr_LoadChunk :: "('d, 'j, 'm, 'x, 'z) snap_env \<Rightarrow> 64 word \<Rightarrow> 32 word \<Rightarrow> 32 word \<Rightarrow> (('d, 'm, 'x) SnapManager, os_error + slice) go" where
  "mgr_LoadChunk env height format chunk =
     go_bind (on_snaps (snap_LoadChunk (en_dir env) height format chunk)) (\<lambda>r.
     ret (map_sum id (map_option (\<lambda>reader. concat (rc_data reader))) r))"

definition prune_body :: "('d, 'j, 'm, 'x, 'z) snap_env \<Rightarrow> 32 word \<Rightarrow> (('d, 'm, 'x) SnapManager, 64 word \<times> snap_error option) go" where
  "prune_body env retain = on_snaps (snap_Prune (en_dir env) (en_db env) (en_deleteSync env) retain)"

definition mgr_Prune :: "('d, 'j, 'm, 'x, 'z) snap_env \<Rightarrow> 32 word \<Rightarrow> (('d, 'm, 'x) SnapManager, 64 word \<times> snap_error option) go" where
  "mgr_Prune env retain =
     go_bind (beginLocked opPrune) (\<lambda>err. if err \<noteq> None then ret (0, err) else go_defer endLocked (prune_body env retain))"

section \<open>Restoring\<close>

text \<open>The closure \<open>payloadReader\<close>: the next item and the stream are variables of the caller.\<close>

definition payloadReader :: payload_reader where
  "payloadReader =
     go_bind (go_modify (\<lambda>(_, sr). (None, sr))) (\<lambda>_.
     go_bind (go_zoom snd (\<lambda>sr x. (fst x, sr)) sr_ReadMsg) (\<lambda>r.
     case r of Inl err \<Rightarrow> ret (Inl err)
     | Inr item \<Rightarrow> go_bind (go_modify (\<lambda>(_, sr). (Some item, sr))) (\<lambda>_.
         ret (case item of SnapshotItem_ExtensionPayload payload \<Rightarrow> Inr payload | _ \<Rightarrow> Inl IO_EOF))))"

text \<open>
  The loop over the extensions. In the last branch the code wraps the variable \<open>err\<close> of the enclosing function, which is nil there, and wrapping nil
  gives nil.
\<close>

definition is_payload :: "SnapshotItem option \<Rightarrow> bool" where
  "is_payload item = (case item of Some (SnapshotItem_ExtensionPayload _) \<Rightarrow> True | _ \<Rightarrow> False)"

definition extension_of :: "SnapshotItem option \<Rightarrow> (string \<times> 32 word) option" where
  "extension_of item = (case item of Some (SnapshotItem_Extension name format) \<Rightarrow> Some (name, format) | _ \<Rightarrow> None)"

partial_function (option) restore_loop ::
  "'x ExtensionSnapshotter \<Rightarrow> 64 word \<Rightarrow> ((string \<times> 'x) list \<times> (SnapshotItem option \<times> StreamReader), snap_error option) go" where
  "restore_loop E height x =
     go_bind (go_read (\<lambda>(es, item, sr). (es, item))) (\<lambda>y.
     if snd y = None then ret None
     else if extension_of (snd y) = None then ret (Some (ErrLogic ''unknown snapshot item''))
     else let name = fst (the (extension_of (snd y))); format = snd (the (extension_of (snd y))) in
       if map_of (fst y) name = None then ret (Some (ErrLogic ''unknown extension snapshotter''))
       else if \<not> IsFormatSupported E (the (map_of (fst y) name)) format then ret (Some (ErrUnknownFormat ''format for extension''))
       else go_bind (go_zoom (\<lambda>(es, st). (the (map_of es name), st)) (\<lambda>(e, st) (es, _). (AList.update name e es, st))
              (ext_RestoreExtension E height format payloadReader)) (\<lambda>err.
         if err \<noteq> None then ret err
         else go_bind (go_read (\<lambda>(es, item, sr). is_payload item)) (\<lambda>left_over.
           if left_over then ret None else restore_loop E height))) x"

text \<open>\<open>closed\<close>: the channel of chunks will be closed after the given ones. The reader of the stream is closed in the end.\<close>

definition doRestoreSnapshot :: "('d, 'j, 'm, 'x, 'z) snap_env \<Rightarrow> Snapshot \<Rightarrow> ReadCloser list \<Rightarrow> bool \<Rightarrow>
    (('d, 'm, 'x) SnapManager, snap_error option) go" where
  "doRestoreSnapshot env snapshot chunks closed =
     go_bind (on_snaps (on_fs (os_MkdirAll (pathSnapshot (en_dir env) (sn_Height snapshot) (sn_Format snapshot))))) (\<lambda>err.
     case err of Some e \<Rightarrow> ret (Some (Err_os e ''failed to create snapshot directory''))
     | None \<Rightarrow>
     (case NewStreamReader (en_codec env) chunks closed of
        None \<Rightarrow> (\<lambda>_. None)
      | Some (Inl err) \<Rightarrow> ret (Some (Err_io err ''zlib failure''))
      | Some (Inr streamReader) \<Rightarrow>
          go_defer (sr_Close closed)
            (go_bind (go_local streamReader (go_zoom (\<lambda>(m, sr). (sm_multistore m, sr)) (\<lambda>(s, sr) (m, _). (m\<lparr>sm_multistore := s\<rparr>, sr))
               (snp_Restore (en_multistore env) (sn_Height snapshot) (sn_Format snapshot)))) (\<lambda>(r, sr).
             case r of Inl err \<Rightarrow> ret (Some err)
             | Inr nextItem \<Rightarrow>
                 go_bind (go_local (nextItem, sr) (go_zoom (\<lambda>(m, st). (sm_extensions m, st)) (\<lambda>(es, st) (m, _). (m\<lparr>sm_extensions := es\<rparr>, st))
                   (restore_loop (en_ext env) (sn_Height snapshot)))) (\<lambda>(err, _). ret err)))))"

text \<open>
  The goroutine of \<open>loadChunkStream\<close> on the indices sent so far: the chunks, and whether it has stopped at a file that it cannot open.
\<close>

primrec loadChunkStream :: "path \<Rightarrow> 64 word \<Rightarrow> 32 word \<Rightarrow> 32 word list \<Rightarrow> ('d SnapStore, ReadCloser list \<times> bool) go" where
  "loadChunkStream dir height format [] = ret ([], False)"
| "loadChunkStream dir height format (chunkID # ids) =
     go_bind (loadChunkFile dir height format chunkID) (\<lambda>r.
     case r of Inl err \<Rightarrow> ret ([], True)
     | Inr chunk \<Rightarrow> go_bind (loadChunkStream dir height format ids) (\<lambda>(chunks, stopped). ret (chunk # chunks, stopped)))"

definition restore_goroutine :: "('d, 'j, 'm, 'x, 'z) snap_env \<Rightarrow> RestoreRun \<Rightarrow> (('d, 'm, 'x) SnapManager, snap_error option) go" where
  "restore_goroutine env run =
     go_bind (on_snaps (loadChunkStream (en_dir env) (sn_Height (rr_snapshot run)) (sn_Format (rr_snapshot run)) (rr_ids run))) (\<lambda>(chunks, stopped).
     doRestoreSnapshot env (rr_snapshot run) chunks (rr_closed run \<or> stopped))"

definition mgr_Restore :: "('d, 'j, 'm, 'x, 'z) snap_env \<Rightarrow> Snapshot \<Rightarrow> (('d, 'm, 'x) SnapManager, snap_error option) go" where
  "mgr_Restore env snapshot =
     (if sn_Chunks snapshot = 0 then ret (Some (ErrInvalidMetadata ''no chunks''))
      else if word_of_nat (length (chunk_hashes snapshot)) \<noteq> sn_Chunks snapshot
      then ret (Some (ErrInvalidMetadata ''chunk hashes and chunks differ''))
      else if sn_Format snapshot \<noteq> CurrentFormat then ret (Some (ErrUnknownFormat ''snapshot format''))
      else if sn_Height snapshot = 0 then ret (Some (ErrLogic ''cannot restore snapshot at height 0''))
      else if unat (sn_Height snapshot) > 2 ^ 63 - 1 then ret (Some (ErrInvalidMetadata ''snapshot height cannot exceed MaxInt64''))
      else go_bind (beginLocked opRestore) (\<lambda>err.
        if err \<noteq> None then ret err
        else go_bind (on_snaps (on_fs (os_MkdirAll (pathSnapshot (en_dir env) (sn_Height snapshot) (sn_Format snapshot))))) (\<lambda>err.
          case err of Some e \<Rightarrow> ret (Some (Err_os e ''failed to create snapshot directory''))
          | None \<Rightarrow> go_bind (go_modify (\<lambda>m. m\<lparr>sm_chRestore := True,
              sm_chRestoreDone := Some \<lparr>rr_snapshot = snapshot, rr_ids = [], rr_closed = False\<rparr>,
              sm_restoreSnapshot := Some snapshot, sm_restoreChunkIndex := 0\<rparr>)) (\<lambda>_. ret None))))"

text \<open>
  The select of \<open>RestoreChunk\<close>: with \<open>ready\<close> the goroutines have had the time to go as far as they can; their result is received
  when there is one.
\<close>

definition poll :: "bool \<Rightarrow> ('s, 'a) go \<Rightarrow> ('s, 'a option) go" where
  "poll ready m s =
     (if \<not> ready then Some (Inr None, s)
      else case m s of None \<Rightarrow> Some (Inr None, s) | Some (Inl p, s') \<Rightarrow> Some (Inl p, s') | Some (Inr x, s') \<Rightarrow> Some (Inr (Some x), s'))"

definition receive_done :: "('d, 'j, 'm, 'x, 'z) snap_env \<Rightarrow> (('d, 'm, 'x) SnapManager, snap_error option) go" where
  "receive_done env =
     go_bind (go_read sm_chRestoreDone) (\<lambda>ch. case ch of None \<Rightarrow> (\<lambda>_. None) | Some run \<Rightarrow> restore_goroutine env run)"

text \<open>A send on a nil channel waits forever, and closing one panics.\<close>

definition send_index :: "(('d, 'm, 'x) SnapManager, unit) go" where
  "send_index m =
     (if sm_chRestore m
      then Some (Inr (), m\<lparr>sm_chRestoreDone := map_option (\<lambda>r. r\<lparr>rr_ids := rr_ids r @ [sm_restoreChunkIndex m]\<rparr>) (sm_chRestoreDone m)\<rparr>)
      else None)"

definition close_restore :: "(('d, 'm, 'x) SnapManager, unit) go" where
  "close_restore =
     go_bind (go_read sm_chRestore) (\<lambda>open_ch.
     if \<not> open_ch then go_panic (Panic_runtime ''close of nil channel'')
     else go_modify (\<lambda>m. m\<lparr>sm_chRestore := False, sm_chRestoreDone := map_option (\<lambda>r. r\<lparr>rr_closed := True\<rparr>) (sm_chRestoreDone m)\<rparr>))"

text \<open>The rest of \<open>RestoreChunk\<close> for the last chunk.\<close>

definition finish_restore :: "('d, 'j, 'm, 'x, 'z) snap_env \<Rightarrow> Snapshot \<Rightarrow> (('d, 'm, 'x) SnapManager, bool \<times> snap_error option) go" where
  "finish_restore env snapshot =
     go_bind close_restore (\<lambda>_.
     go_bind (on_snaps (saveSnapshot (en_setSync env) (en_marshal env) snapshot)) (\<lambda>err.
     if err \<noteq> None then ret (False, err)
     else go_bind (receive_done env) (\<lambda>err.
       go_bind endLocked (\<lambda>_. if err \<noteq> None then ret (False, err) else ret (True, None)))))"

text \<open>\<open>RestoreChunk\<close> once the hash of the chunk has been checked.\<close>

definition accept_chunk :: "('d, 'j, 'm, 'x, 'z) snap_env \<Rightarrow> bytes \<Rightarrow> 32 word \<Rightarrow> Snapshot \<Rightarrow> (('d, 'm, 'x) SnapManager, bool \<times> snap_error option) go" where
  "accept_chunk env chunk index snapshot =
     go_bind (on_snaps (saveChunkContent (en_dir env) chunk index snapshot)) (\<lambda>err.
     case err of Some e \<Rightarrow> ret (False, Some (Err_os e ''save chunk content''))
     | None \<Rightarrow>
     go_bind send_index (\<lambda>_.
     go_bind (go_modify (\<lambda>m. m\<lparr>sm_restoreChunkIndex := index + 1\<rparr>)) (\<lambda>_.
     if unat (index + 1) \<ge> length (chunk_hashes snapshot) then finish_restore env snapshot else ret (False, None))))"

definition mgr_RestoreChunk :: "('d, 'j, 'm, 'x, 'z) snap_env \<Rightarrow> bool \<Rightarrow> bytes \<Rightarrow> (('d, 'm, 'x) SnapManager, bool \<times> snap_error option) go" where
  "mgr_RestoreChunk env ready chunk =
     go_bind (go_read id) (\<lambda>m.
     if sm_operation m \<noteq> opRestore then ret (False, Some (ErrLogic ''no restore operation in progress''))
     else case sm_restoreSnapshot m of None \<Rightarrow> go_panic nil_deref
     | Some snapshot \<Rightarrow>
     let hashes = chunk_hashes snapshot; index = sm_restoreChunkIndex m in
     if unat index \<ge> length hashes then ret (False, Some (ErrLogic ''received unexpected chunk''))
     else go_bind (poll ready (receive_done env)) (\<lambda>outcome.
     case outcome of
       Some err \<Rightarrow> go_bind endLocked (\<lambda>_. ret (False, if err \<noteq> None then err else Some (ErrLogic ''restore ended unexpectedly'')))
     | None \<Rightarrow>
     if sha256 chunk \<noteq> hashes ! unat index then ret (False, Some (ErrChunkHashMismatch ''expected hash differs''))
     else accept_chunk env chunk index snapshot))"

text \<open>\<open>RestoreLocalSnapshot\<close> loads the snapshot before it takes the lock; the second part runs under the lock.\<close>

definition restore_loaded :: "('d, 'j, 'm, 'x, 'z) snap_env \<Rightarrow> snap_error + (Snapshot \<times> ReadCloser list) option \<Rightarrow> (('d, 'm, 'x) SnapManager, snap_error option) go" where
  "restore_loaded env r =
     (case r of Inl err \<Rightarrow> ret (Some err)
      | Inr None \<Rightarrow> ret (Some (Err_new ''snapshot doesn't exist''))
      | Inr (Some (snapshot, ch)) \<Rightarrow>
          go_bind (beginLocked opRestore) (\<lambda>err.
          if err \<noteq> None then ret err else go_defer endLocked (doRestoreSnapshot env snapshot ch True)))"

definition RestoreLocalSnapshot :: "('d, 'j, 'm, 'x, 'z) snap_env \<Rightarrow> 64 word \<Rightarrow> 32 word \<Rightarrow> (('d, 'm, 'x) SnapManager, snap_error option) go" where
  "RestoreLocalSnapshot env height format =
     go_bind (on_snaps (snap_Load (en_dir env) (en_db env) (en_unmarshal env) height format)) (restore_loaded env)"

section \<open>Snapshots of an application\<close>

definition shouldTakeSnapshot :: "('d, 'm, 'x) SnapManager \<Rightarrow> 64 word \<Rightarrow> bool" where
  "shouldTakeSnapshot m height \<longleftrightarrow> so_Interval (sm_opts m) > 0 \<and> height mod so_Interval (sm_opts m) = 0"

definition mgr_snapshot :: "('d, 'j, 'm, 'x, 'z) snap_env \<Rightarrow> 64 word \<Rightarrow> (('d, 'm, 'x) SnapManager, unit) go" where
  "mgr_snapshot env height =
     (if height \<le>s 0 then ret ()
      else go_bind (create_run env height) (\<lambda>(_, err).
        if err \<noteq> None then ret ()
        else go_bind (go_read (\<lambda>m. so_KeepRecent (sm_opts m))) (\<lambda>keep.
          if keep > 0 then go_bind (mgr_Prune env keep) (\<lambda>_. ret ()) else ret ())))"

text \<open>The goroutine that takes the snapshot is run to its end.\<close>

definition SnapshotIfApplicable :: "('d, 'j, 'm, 'x, 'z) snap_env \<Rightarrow> 64 word \<Rightarrow> (('d, 'm, 'x) SnapManager option, unit) go" where
  "SnapshotIfApplicable env height =
     go_bind (go_read (\<lambda>m. m = None \<or> \<not> shouldTakeSnapshot (the m) height)) (\<lambda>skip.
     if skip then ret () else go_zoom the (\<lambda>m _. Some m) (mgr_snapshot env height))"

definition mgr_Close :: "('d, 'j, 'm, 'x, 'z) snap_env \<Rightarrow> (('d, 'm, 'x) SnapManager, string option) go" where
  "mgr_Close env = on_snaps (on_db (en_Close env))"

section \<open>Snapshots in ABCI\<close>

text \<open>
  snapshots/types/convert.go: the ABCI message carries the metadata as protobuf, whose coder is a parameter.
\<close>

record ABCI_Snapshot =
  as_Height :: "64 word"
  as_Format :: "32 word"
  as_Chunks :: "32 word"
  as_Hash :: bytes
  as_Metadata :: bytes

definition SnapshotFromABCI :: "(bytes \<Rightarrow> string + bytes list option) \<Rightarrow> ABCI_Snapshot \<Rightarrow> snap_error + Snapshot" where
  "SnapshotFromABCI unmarshalMetadata inp =
     (case unmarshalMetadata (as_Metadata inp) of Inl e \<Rightarrow> Inl (Err_proto e)
      | Inr hashes \<Rightarrow> Inr \<lparr>sn_Height = as_Height inp, sn_Format = as_Format inp, sn_Chunks = as_Chunks inp, sn_Hash = as_Hash inp, sn_ChunkHashes = hashes\<rparr>)"

definition ToABCI :: "(bytes list option \<Rightarrow> string + bytes) \<Rightarrow> Snapshot \<Rightarrow> snap_error + ABCI_Snapshot" where
  "ToABCI marshalMetadata s =
     (case marshalMetadata (sn_ChunkHashes s) of Inl e \<Rightarrow> Inl (Err_proto e)
      | Inr bz \<Rightarrow> Inr \<lparr>as_Height = sn_Height s, as_Format = sn_Format s, as_Chunks = sn_Chunks s, as_Hash = sn_Hash s, as_Metadata = bz\<rparr>)"

lemma ABCI_roundtrip:
  assumes "marshalMetadata (sn_ChunkHashes s) = Inr bz" "unmarshalMetadata bz = Inr (sn_ChunkHashes s)"
  shows "\<exists>a. ToABCI marshalMetadata s = Inr a \<and> SnapshotFromABCI unmarshalMetadata a = Inr s"
  using assms by (simp add: ToABCI_def SnapshotFromABCI_def)

text \<open>
  An extension that returns without an error before it has read all its payloads ends the restoration, which then reports success; the rest of the stream, with the other
  extensions, is not restored.
\<close>

lemma leftover_payload_is_success:
  assumes "map_of es name = Some x" "IsFormatSupported E x f"
    and "ext_RestoreExtension E h f payloadReader (x, Some (SnapshotItem_Extension name f), sr) = Some (Inr None, (x', Some (SnapshotItem_ExtensionPayload p), sr'))"
  shows "restore_loop E h (es, Some (SnapshotItem_Extension name f), sr) =
    Some (Inr None, (AList.update name x' es, Some (SnapshotItem_ExtensionPayload p), sr'))"
  using assms
  by (subst restore_loop.simps) (simp add: go_bind_apply go_read_def go_zoom_def extension_of_def is_payload_def ret_def)

end
