(* ===== verification/Snapshot_MgrLaws.thy ===== *)
theory Snapshot_MgrLaws
  imports Snapshot_Manager
begin

text \<open>
  The snapshot manager as a state machine: every interleaving of its methods keeps at most one long operation running, and the chunks that a restoration has
  accepted are on disk with the hashes of the snapshot. A restoration that fails to create its directory blocks the manager for good.
\<close>

section \<open>What the operations leave alone\<close>

text \<open>The part of the manager that controls the operations.\<close>

definition ctl :: "('d, 'm, 'x) SnapManager \<Rightarrow> operation \<times> bool \<times> RestoreRun option \<times> Snapshot option \<times> 32 word" where
  "ctl m = (sm_operation m, sm_chRestore m, sm_chRestoreDone m, sm_restoreSnapshot m, sm_restoreChunkIndex m)"

definition snap_files :: "'d SnapStore \<Rightarrow> (path \<times> bytes) list" where
  "snap_files s = fs_files (ss_fs s)"

definition files :: "('d, 'm, 'x) SnapManager \<Rightarrow> (path \<times> bytes) list" where
  "files m = snap_files (sm_store m)"

lemma ctl_update [simp]:
  "ctl (m\<lparr>sm_store := s\<rparr>) = ctl m" "ctl (m\<lparr>sm_multistore := t\<rparr>) = ctl m" "ctl (m\<lparr>sm_extensions := es\<rparr>) = ctl m"
  by (simp_all add: ctl_def)

lemma files_update [simp]:
  "files (m\<lparr>sm_store := s\<rparr>) = snap_files s" "files (m\<lparr>sm_multistore := t\<rparr>) = files m" "files (m\<lparr>sm_extensions := es\<rparr>) = files m"
  by (simp_all add: files_def)

lemma keeps_on_snaps [keeps_intros]: "keeps ctl (on_snaps m)"
  unfolding on_snaps_def by (intro keeps_intros) simp

lemma keeps_on_multistore [keeps_intros]: "keeps ctl (on_multistore m)" "keeps files (on_multistore m)"
  unfolding on_multistore_def by (intro keeps_intros; simp)+

lemma files_on_snaps: "keeps snap_files p \<Longrightarrow> keeps files (on_snaps p)"
  unfolding on_snaps_def by (erule keeps_zoom_part) (simp add: files_def)

lemma files_on_fs [keeps_intros]: "keeps fs_files p \<Longrightarrow> keeps snap_files (on_fs p)"
  unfolding on_fs_def by (erule keeps_zoom_part) (simp add: snap_files_def)

lemma files_on_db [keeps_intros]: "keeps snap_files (on_db p)"
  unfolding on_db_def by (intro keeps_intros) (simp add: snap_files_def)

lemma files_MkdirAll [keeps_intros]: "keeps fs_files (os_MkdirAll p)"
  unfolding os_MkdirAll_def sys_def by (intro keeps_intros) simp

lemma files_loadChunkFile [keeps_intros]: "keeps snap_files (loadChunkFile dir h f i)"
  unfolding loadChunkFile_def os_Open_def by (intro keeps_intros)

lemma files_loadChunkStream [keeps_intros]: "keeps snap_files (loadChunkStream dir h f ids)"
  by (induction ids) (auto intro!: keeps_intros)

lemma files_saveSnapshot [keeps_intros]: "keeps snap_files (saveSnapshot setSync marshal sn)"
  unfolding saveSnapshot_def by (intro keeps_intros)

lemma files_load_chunks [keeps_intros]: "keeps snap_files (load_chunks dir h f i n)"
proof (induction dir h f i n rule: load_chunks.induct)
  case (1 dir h f i n)
  show ?case by (subst load_chunks.simps) (intro keeps_intros 1; assumption)
qed

lemma files_Load [keeps_intros]: "keeps snap_files (snap_Load dir db unmarshal h f)"
  unfolding snap_Load_def snap_Get_def by (intro keeps_intros)

lemma keeps_sr_Close [keeps_intros]: "keeps f (sr_Close closed)"
  by (simp add: keeps_def sr_Close_def)

lemma keeps_doRestoreSnapshot [keeps_intros]: "keeps ctl (doRestoreSnapshot env sn chunks closed)" "keeps files (doRestoreSnapshot env sn chunks closed)"
  unfolding doRestoreSnapshot_def by (intro keeps_intros files_on_snaps; auto)+

lemma keeps_restore_goroutine [keeps_intros]: "keeps ctl (restore_goroutine env run)" "keeps files (restore_goroutine env run)"
  unfolding restore_goroutine_def by (intro keeps_intros files_on_snaps)+

lemma keeps_receive_done [keeps_intros]: "keeps ctl (receive_done env)" "keeps files (receive_done env)"
  unfolding receive_done_def by (intro keeps_intros)+

lemma keeps_poll [keeps_intros]: "keeps f m \<Longrightarrow> keeps f (poll ready m)"
  by (fastforce simp: keeps_def poll_def split: option.splits sum.splits if_splits)

section \<open>The state machine\<close>

text \<open>
  The long operations run between \<open>begin\<close> and \<open>end\<close> without the lock, so that other calls come in between. A state has the manager and the long operations
  that are running. \<open>RestoreLocalSnapshot\<close> is two steps, as it loads without the lock; what the second restores may be anything that was loaded at any time before.
\<close>

datatype long_op = Long_create "64 word" | Long_prune "32 word"

inductive mgr_step :: "('d, 'j, 'm, 'x, 'z) snap_env \<Rightarrow> ('d, 'm, 'x) SnapManager \<times> long_op list \<Rightarrow> ('d, 'm, 'x) SnapManager \<times> long_op list \<Rightarrow> bool"
  for env where
  create_begin: "beginLocked opSnapshot m = Some (Inr None, m') \<Longrightarrow> mgr_step env (m, ops) (m', Long_create h # ops)"
| create_end: "Long_create h \<in> set ops \<Longrightarrow> go_defer endLocked (create_body env h) m = Some (r, m') \<Longrightarrow>
    mgr_step env (m, ops) (m', remove1 (Long_create h) ops)"
| prune_height: "on_multistore (snp_PruneSnapshotHeight (en_multistore env) h) m = Some (r, m') \<Longrightarrow> mgr_step env (m, ops) (m', ops)"
| prune_begin: "beginLocked opPrune m = Some (Inr None, m') \<Longrightarrow> mgr_step env (m, ops) (m', Long_prune k # ops)"
| prune_end: "Long_prune k \<in> set ops \<Longrightarrow> go_defer endLocked (prune_body env k) m = Some (r, m') \<Longrightarrow>
    mgr_step env (m, ops) (m', remove1 (Long_prune k) ops)"
| restore: "mgr_Restore env sn m = Some (r, m') \<Longrightarrow> mgr_step env (m, ops) (m', ops)"
| restore_chunk: "mgr_RestoreChunk env ready chunk m = Some (r', m') \<Longrightarrow> mgr_step env (m, ops) (m', ops)"
| local_load: "on_snaps (snap_Load (en_dir env) (en_db env) (en_unmarshal env) h f) m = Some (loaded, m') \<Longrightarrow> mgr_step env (m, ops) (m', ops)"
| local_restore: "restore_loaded env loaded' m = Some (e, m') \<Longrightarrow> mgr_step env (m, ops) (m', ops)"
| register: "RegisterExtensions (en_ext env) xs m = Some (r, m') \<Longrightarrow> mgr_step env (m, ops) (m', ops)"

inductive_cases mgr_stepE: "mgr_step env (m, ops) (m', ops')"

text \<open>The chunks below the index are on disk and have the hashes of the snapshot.\<close>

definition accepted :: "path \<Rightarrow> Snapshot \<Rightarrow> nat \<Rightarrow> (path \<times> bytes) list \<Rightarrow> bool" where
  "accepted dir sn n fs \<longleftrightarrow> n \<le> length (chunk_hashes sn) \<and>
     (\<forall>i < n. \<exists>d. map_of fs (PathChunk dir (sn_Height sn) (sn_Format sn) (word_of_nat i)) = Some d \<and> sha256 d = chunk_hashes sn ! i)"

definition running :: "operation \<Rightarrow> long_op list \<Rightarrow> bool" where
  "running oper ops = (case oper of opSnapshot \<Rightarrow> \<exists>h. ops = [Long_create h] | opPrune \<Rightarrow> \<exists>k. ops = [Long_prune k] | _ \<Rightarrow> ops = [])"

definition mgr_inv :: "('d, 'j, 'm, 'x, 'z) snap_env \<Rightarrow> ('d, 'm, 'x) SnapManager \<times> long_op list \<Rightarrow> bool" where
  "mgr_inv env = (\<lambda>(m, ops). running (sm_operation m) ops \<and>
     (case ctl m of (oper, _, _, snapshot, index) \<Rightarrow>
        (oper \<noteq> opRestore \<longrightarrow> snapshot = None) \<and> (\<forall>sn. snapshot = Some sn \<longrightarrow> accepted (en_dir env) sn (unat index) (files m))))"

lemma beginLocked_run: "beginLocked oper m =
    (if oper = opNone then Some (Inr (Some (ErrLogic ''can't begin a none operation'')), m)
     else if sm_operation m \<noteq> opNone then Some (Inr (Some (ErrConflict ''an operation is in progress'')), m)
     else Some (Inr None, m\<lparr>sm_operation := oper\<rparr>))"
  by (simp add: beginLocked_def go_bind_apply go_read_def go_modify_def ret_def)

text \<open>An operation that ends: the manager is idle, whatever the body did.\<close>

lemma mgr_inv_ended:
  assumes "go_defer endLocked body m = Some (r, m')"
  shows "mgr_inv env (m', [])"
  using assms
  by (auto simp: mgr_inv_def running_def ctl_def go_defer_def endLocked_def go_modify_def split: option.splits)

text \<open>A step that leaves the control and the files alone.\<close>

lemma mgr_inv_kept:
  assumes "mgr_inv env (m, ops)" "ctl m' = ctl m" "files m' = files m"
  shows "mgr_inv env (m', ops)"
  using assms by (simp add: mgr_inv_def ctl_def)

lemma ret_apply: "ret x s = Some (Inr x, s)"
  by (simp add: ret_def)

lemma Restore_inv:
  assumes "mgr_inv env (m, ops)" "mgr_Restore env sn m = Some (r, m')"
  shows "mgr_inv env (m', ops)"
proof (cases "m' = m")
  case False
  define mk where "mk = os_MkdirAll (pathSnapshot (en_dir env) (sn_Height sn) (sn_Format sn))"
  define m1 where "m1 = m\<lparr>sm_operation := opRestore\<rparr>"
  have idle: "sm_operation m = opNone"
    and rest: "go_bind (on_snaps (on_fs mk)) (\<lambda>err. case err of Some e \<Rightarrow> ret (Some (Err_os e ''failed to create snapshot directory''))
          | None \<Rightarrow> go_bind (go_modify (\<lambda>m. m\<lparr>sm_chRestore := True,
              sm_chRestoreDone := Some \<lparr>rr_snapshot = sn, rr_ids = [], rr_closed = False\<rparr>,
              sm_restoreSnapshot := Some sn, sm_restoreChunkIndex := 0\<rparr>)) (\<lambda>_. ret None)) m1 = Some (r, m')"
    using assms(2) False
    by (auto simp: mgr_Restore_def go_bind_apply beginLocked_run ret_apply mk_def m1_def split: if_splits)
  obtain r2 m2 where mk: "on_snaps (on_fs mk) m1 = Some (r2, m2)"
    using rest by (auto simp: go_bind_apply split: option.splits)
  have m2: "ctl m2 = ctl m1" by (rule keepsD [OF keeps_on_snaps mk])
  have none: "ops = []" "sm_restoreSnapshot m = None" using assms(1) idle by (auto simp: mgr_inv_def running_def ctl_def)
  show ?thesis
    using rest mk m2 none
    by (auto simp: go_bind_apply go_modify_def ret_apply mgr_inv_def running_def ctl_def m1_def accepted_def split: sum.splits option.splits)
qed (use assms in simp)

text \<open>Every outcome of a program, return or panic, leaves a state with the property.\<close>

definition always :: "('s, 'a) go \<Rightarrow> ('s \<Rightarrow> bool) \<Rightarrow> 's \<Rightarrow> bool" where
  "always m P s \<longleftrightarrow> (\<forall>r s'. m s = Some (r, s') \<longrightarrow> P s')"

lemma always_simps:
  "always (ret x) P s \<longleftrightarrow> P s" "always (go_panic p) P s \<longleftrightarrow> P s" "always (go_modify f) P s \<longleftrightarrow> P (f s)"
  "always (go_bind (go_read g) k) P s \<longleftrightarrow> always (k (g s)) P s" "always (go_bind (go_modify f) h) P s \<longleftrightarrow> always (h ()) P (f s)"
  by (simp_all add: always_def ret_def go_panic_def go_modify_def go_bind_def go_read_def)

lemma always_bind:
  assumes "\<And>p s'. m s = Some (Inl p, s') \<Longrightarrow> P s'" "\<And>x s'. m s = Some (Inr x, s') \<Longrightarrow> always (f x) P s'"
  shows "always (go_bind m f) P s"
  using assms by (auto simp: always_def go_bind_def split: option.splits sum.splits)

lemma mgr_inv_idle: "mgr_inv env (m\<lparr>sm_operation := opNone, sm_chRestore := c, sm_chRestoreDone := d, sm_restoreSnapshot := None, sm_restoreChunkIndex := i\<rparr>, [])"
  by (simp add: mgr_inv_def running_def ctl_def)

lemma finish_restore_inv:
  assumes "mgr_inv env (m, [])"
  shows "always (finish_restore env sn) (\<lambda>m'. mgr_inv env (m', [])) m"
proof -
  have step: "always (go_bind p f) (\<lambda>m'. mgr_inv env (m', [])) m1"
    if "keeps ctl p" "keeps files p" "mgr_inv env (m1, [])" "\<And>x m2. mgr_inv env (m2, []) \<Longrightarrow> always (f x) (\<lambda>m'. mgr_inv env (m', [])) m2"
    for p :: "(_, 'g) go" and f :: "'g \<Rightarrow> (_, 'h) go" and m1
    using that mgr_inv_kept [of env m1 "[]"] by (intro always_bind) (blast intro: keepsD)+
  have rest: "always (go_bind (on_snaps (saveSnapshot (en_setSync env) (en_marshal env) sn)) (\<lambda>err.
     if err \<noteq> None then ret (False, err)
     else go_bind (receive_done env) (\<lambda>err.
       go_bind endLocked (\<lambda>_. if err \<noteq> None then ret (False, err) else ret (True, None))))) (\<lambda>m'. mgr_inv env (m', [])) m1"
    if "mgr_inv env (m1, [])" for m1
    by (rule step, rule keeps_on_snaps, rule files_on_snaps, rule files_saveSnapshot, rule that)
      (auto simp: always_simps endLocked_def mgr_inv_idle intro!: step [OF keeps_receive_done])
  have "mgr_inv env (m\<lparr>sm_chRestore := False, sm_chRestoreDone := d\<rparr>, [])" for d
    using assms by (simp add: mgr_inv_def ctl_def files_def)
  then show ?thesis
    unfolding finish_restore_def close_restore_def go_bind_assoc always_simps
    using assms by (simp del: not_None_eq add: always_simps rest)
qed

lemma saveChunkContent_run:
  "saveChunkContent dir chunk i sn s = Some (r, s') \<Longrightarrow>
    (\<exists>e. r = Inr (Some e) \<and> snap_files s' = snap_files s) \<or>
    (r = Inr None \<and> snap_files s' = AList.update (PathChunk dir (sn_Height sn) (sn_Format sn) i) chunk (snap_files s))"
  by (auto simp: saveChunkContent_def on_fs_def go_zoom_def os_WriteFile_def sys_def put_file_def go_bind_apply go_read_def go_modify_def ret_def
      snap_files_def split: option.splits if_splits)

lemma accepted_next:
  assumes "accepted dir sn (unat i) fs" "unat i < length (chunk_hashes sn)" "sha256 chunk = chunk_hashes sn ! unat i"
  shows "accepted dir sn (unat (i + 1)) (AList.update (PathChunk dir (sn_Height sn) (sn_Format sn) i) chunk fs)"
proof (cases "i + 1 = 0")
  case True
  then show ?thesis by (simp add: accepted_def)
next
  case False
  then have n: "unat (i + 1) = Suc (unat i)" using unatSuc [of i] by (simp add: add.commute)
  have "\<exists>d. map_of (AList.update (PathChunk dir (sn_Height sn) (sn_Format sn) i) chunk fs)
        (PathChunk dir (sn_Height sn) (sn_Format sn) (word_of_nat j)) = Some d \<and> sha256 d = chunk_hashes sn ! j" if "j < Suc (unat i)" for j
  proof (cases "j = unat i")
    case True
    then show ?thesis using assms(3) by (simp add: update_conv')
  next
    case False
    then have "j < unat i" using that by simp
    then have "word_of_nat j \<noteq> i"
      using False unat_of_nat [where 'a = 32, of j] less_trans [OF _ unsigned_less [of i]] by (auto simp: take_bit_nat_eq_self)
    then show ?thesis using assms(1) \<open>j < unat i\<close> by (simp add: update_conv' accepted_def)
  qed
  then show ?thesis using assms(2) n by (simp add: accepted_def)
qed

lemma accept_chunk_inv:
  assumes inv: "mgr_inv env (m, [])" and m: "sm_operation m = opRestore" "sm_restoreSnapshot m = Some sn" "sm_restoreChunkIndex m = i"
    and i: "unat i < length (chunk_hashes sn)" "sha256 chunk = chunk_hashes sn ! unat i"
  shows "always (accept_chunk env chunk i sn) (\<lambda>m'. mgr_inv env (m', [])) m"
  unfolding accept_chunk_def
proof (rule always_bind)
  fix p m1
  assume "on_snaps (saveChunkContent (en_dir env) chunk i sn) m = Some (Inl p, m1)"
  then show "mgr_inv env (m1, [])" by (auto simp: on_snaps_def go_zoom_def split: option.splits dest!: saveChunkContent_run)
next
  fix err m1
  assume "on_snaps (saveChunkContent (en_dir env) chunk i sn) m = Some (Inr err, m1)"
  then obtain s1 where s1: "saveChunkContent (en_dir env) chunk i sn (sm_store m) = Some (Inr err, s1)" "m1 = m\<lparr>sm_store := s1\<rparr>"
    by (auto simp: on_snaps_def go_zoom_def split: option.splits)
  show "always (case err of Some e \<Rightarrow> ret (False, Some (Err_os e ''save chunk content''))
     | None \<Rightarrow>
     go_bind send_index (\<lambda>_.
     go_bind (go_modify (\<lambda>m. m\<lparr>sm_restoreChunkIndex := i + 1\<rparr>)) (\<lambda>_.
     if unat (i + 1) \<ge> length (chunk_hashes sn) then finish_restore env sn else ret (False, None)))) (\<lambda>m'. mgr_inv env (m', [])) m1"
  proof (cases err)
    case None
    have fs: "snap_files s1 = AList.update (PathChunk (en_dir env) (sn_Height sn) (sn_Format sn) i) chunk (files m)"
      using saveChunkContent_run [OF s1(1)] None by (simp add: files_def)
    have "accepted (en_dir env) sn (unat i) (files m)" using inv m by (simp add: mgr_inv_def ctl_def)
    then have "accepted (en_dir env) sn (unat (i + 1)) (snap_files s1)" using fs accepted_next i by simp
    then have next_inv: "mgr_inv env (m1\<lparr>sm_chRestoreDone := d, sm_restoreChunkIndex := i + 1\<rparr>, [])" for d
      using m s1(2) by (simp add: mgr_inv_def ctl_def running_def files_def)
    have send: "send_index m1 = Some (r, m2) \<Longrightarrow> \<exists>d. m2 = m1\<lparr>sm_chRestoreDone := d\<rparr> \<and> r = Inr ()" for r m2
      by (auto simp: send_index_def split: if_splits)
    show ?thesis
      unfolding None option.case
      using next_inv by (auto simp: always_simps go_modify_def intro!: always_bind finish_restore_inv dest!: send)
  next
    case (Some e)
    have "mgr_inv env (m1, [])"
      by (rule mgr_inv_kept [OF inv]) (use saveChunkContent_run [OF s1(1)] Some s1(2) in \<open>simp_all add: files_def\<close>)
    then show ?thesis using Some by (simp add: always_simps)
  qed
qed

lemma RestoreChunk_inv:
  assumes "mgr_inv env (m, ops)"
  shows "always (mgr_RestoreChunk env ready chunk) (\<lambda>m'. mgr_inv env (m', ops)) m"
proof (cases "sm_operation m = opRestore \<and> sm_restoreSnapshot m \<noteq> None")
  case False
  then show ?thesis
    using assms unfolding mgr_RestoreChunk_def always_simps by (auto simp: always_simps split: option.splits)
next
  case True
  then obtain sn where m: "sm_operation m = opRestore" "sm_restoreSnapshot m = Some sn" and ops: "ops = []"
    using assms by (auto simp: mgr_inv_def running_def)
  have inv: "mgr_inv env (m, [])" using assms ops by simp
  have kept: "mgr_inv env (m', [])" if "poll ready (receive_done env) m = Some (r, m')" for r m'
    by (rule mgr_inv_kept [OF inv])
      (rule keepsD [OF keeps_poll [OF keeps_receive_done(1)] that], rule keepsD [OF keeps_poll [OF keeps_receive_done(2)] that])
  have same: "m' = m" if "poll ready (receive_done env) m = Some (Inr None, m')" for m'
    using that by (auto simp: poll_def split: option.splits sum.splits if_splits)
  show ?thesis
    unfolding mgr_RestoreChunk_def always_simps id_apply ops Let_def
    using m inv kept
    by (auto simp: always_simps endLocked_def mgr_inv_idle split: option.splits intro!: always_bind accept_chunk_inv dest: same)
qed

lemma restore_loaded_inv:
  assumes "mgr_inv env (m, ops)"
  shows "always (restore_loaded env r) (\<lambda>m'. mgr_inv env (m', ops)) m"
proof -
  have idle: "always (go_defer endLocked p) (\<lambda>m'. mgr_inv env (m', ops)) m2" if "sm_operation m = opNone" for p :: "(_, 'g) go" and m2
  proof -
    have "ops = []" using assms that by (simp add: mgr_inv_def running_def)
    then show ?thesis using mgr_inv_ended [of p m2] by (auto simp: always_def)
  qed
  show ?thesis
    unfolding restore_loaded_def
    using assms by (auto simp: always_simps beginLocked_run split: sum.splits option.splits if_splits intro!: always_bind idle)
qed

lemma keeps_RegisterExtensions: "keeps ctl (RegisterExtensions E xs)" "keeps files (RegisterExtensions E xs)"
  by (induction xs) (auto intro!: keeps_intros)

lemma mgr_step_inv: "mgr_step env x y \<Longrightarrow> mgr_inv env x \<Longrightarrow> mgr_inv env y"
proof (induction rule: mgr_step.induct)
  case (create_begin m m' ops h)
  then show ?case by (auto simp: beginLocked_run mgr_inv_def running_def ctl_def split: if_splits)
next
  case (create_end h ops m r m')
  then have "ops = [Long_create h]" by (auto simp: mgr_inv_def running_def split: operation.splits)
  then show ?case using create_end mgr_inv_ended by simp
next
  case (prune_height h m r m' ops)
  then show ?case by (meson mgr_inv_kept keepsD keeps_on_multistore)
next
  case (prune_begin m m' ops k)
  then show ?case by (auto simp: beginLocked_run mgr_inv_def running_def ctl_def split: if_splits)
next
  case (prune_end k ops m r m')
  then have "ops = [Long_prune k]" by (auto simp: mgr_inv_def running_def split: operation.splits)
  then show ?case using prune_end mgr_inv_ended by simp
next
  case (restore sn m r m' ops)
  then show ?case using Restore_inv by blast
next
  case (restore_chunk ready chunk m r m' ops)
  then show ?case using RestoreChunk_inv [of env m ops ready chunk] unfolding always_def by blast
next
  case (local_load h f m loaded m' ops)
  then show ?case by (intro mgr_inv_kept [OF local_load(2)] keepsD [OF keeps_on_snaps] keepsD [OF files_on_snaps [OF files_Load]])
next
  case (local_restore loaded' m e m' ops)
  then show ?case using restore_loaded_inv [of env m ops loaded'] unfolding always_def by blast
next
  case (register xs m r m' ops)
  then show ?case by (meson mgr_inv_kept keepsD keeps_RegisterExtensions)
qed

lemma mgr_reach_inv: "(mgr_step env)\<^sup>*\<^sup>* x y \<Longrightarrow> mgr_inv env x \<Longrightarrow> mgr_inv env y"
  by (induction rule: rtranclp_induct) (auto intro: mgr_step_inv)

section \<open>A blocked manager\<close>

text \<open>A manager in a restoration without a snapshot: no method gets it out of there.\<close>

definition stuck :: "('d, 'm, 'x) SnapManager \<times> long_op list \<Rightarrow> bool" where
  "stuck = (\<lambda>(m, ops). ops = [] \<and> sm_operation m = opRestore \<and> sm_restoreSnapshot m = None)"

lemma stuck_kept: "stuck (m, ops) \<Longrightarrow> ctl m' = ctl m \<Longrightarrow> stuck (m', ops)"
  by (auto simp: stuck_def ctl_def)

lemma Restore_busy: "sm_operation m \<noteq> opNone \<Longrightarrow> mgr_Restore env sn m = Some (r, m') \<Longrightarrow> m' = m"
  by (auto simp: mgr_Restore_def go_bind_apply beginLocked_run ret_def split: if_splits)

lemma restore_loaded_busy:
  assumes "sm_operation m \<noteq> opNone" "restore_loaded env loaded m = Some (r, m')"
  shows "ctl m' = ctl m"
  using assms by (auto simp: restore_loaded_def go_bind_apply beginLocked_run ret_apply split: sum.splits option.splits if_splits)

lemma stuck_step: "mgr_step env x y \<Longrightarrow> stuck x \<Longrightarrow> stuck y"
proof (induction rule: mgr_step.induct)
  case (prune_height h m r m' ops)
  then show ?case by (meson stuck_kept keepsD keeps_on_multistore(1))
next
  case (restore sn m r m' ops)
  then show ?case using Restore_busy [of m env sn r m'] by (auto simp: stuck_def)
next
  case (restore_chunk ready chunk m r m' ops)
  then show ?case by (auto simp: stuck_def mgr_RestoreChunk_def go_bind_apply go_read_def go_panic_def)
next
  case (local_load h f m loaded m' ops)
  then show ?case using keepsD [OF keeps_on_snaps local_load(1)] stuck_kept [of m ops m'] by (auto simp: stuck_def)
next
  case (local_restore loaded' m e m' ops)
  then show ?case using restore_loaded_busy [of m env loaded' e m'] stuck_kept [of m ops m'] by (auto simp: stuck_def)
next
  case (register xs m r m' ops)
  then show ?case by (meson stuck_kept keepsD keeps_RegisterExtensions(1))
qed (auto simp: stuck_def beginLocked_run)

lemma stuck_reach: "(mgr_step env)\<^sup>*\<^sup>* x y \<Longrightarrow> stuck x \<Longrightarrow> stuck y"
  by (induction rule: rtranclp_induct) (auto intro: stuck_step)

end
