(* ===== verification/Snapshot_Restore.thy ===== *)
theory Snapshot_Restore
  imports Snapshot_MgrLaws
begin

text \<open>
  A snapshot that the manager creates restores what was written: through the chunk writer, the files and metadata of the store, and the readers. What the
  multistore, the extensions and the codec promise is stated as predicates.
\<close>

section \<open>Writing\<close>

text \<open>The writes of the coder for some messages, when it accepts them.\<close>

primrec zp_writes :: "'z codec \<Rightarrow> SnapshotItem list \<Rightarrow> 'z \<Rightarrow> (bytes list \<times> 'z) option" where
  "zp_writes Z [] z = Some ([], z)"
| "zp_writes Z (x # xs) z =
     (case zp_msg Z x z of ((ws, None), z') \<Rightarrow> map_option (\<lambda>(ws', z'). (ws @ ws', z')) (zp_writes Z xs z') | _ \<Rightarrow> None)"

text \<open>
  The wire does not tell a nil slice from an empty one: both come back as nil. And a reader takes the messages up to the first that is larger than its limit, where
  it returns \<open>io.ErrShortBuffer\<close>.
\<close>

definition wire_slice :: "slice \<Rightarrow> slice" where
  "wire_slice s = (if bs s = [] then None else s)"

definition wire_item :: "SnapshotItem \<Rightarrow> SnapshotItem" where
  "wire_item item = (case item of SnapshotItem_IAVL k v version height \<Rightarrow> SnapshotItem_IAVL (wire_slice k) (wire_slice v) version height | _ \<Rightarrow> item)"

definition delivered :: "nat \<Rightarrow> SnapshotItem list \<Rightarrow> SnapshotItem list \<times> io_error option" where
  "delivered limit items =
     (map wire_item (takeWhile (\<lambda>x. SnapshotItem_Size x \<le> limit) items),
      Some (if list_all (\<lambda>x. SnapshotItem_Size x \<le> limit) items then IO_EOF else IO_err ''short buffer''))"

text \<open>What the coder promises: it accepts all messages, and what it has written when it is closed is read as said above.\<close>

definition codec_ok :: "'z codec \<Rightarrow> bool" where
  "codec_ok Z \<longleftrightarrow> (\<exists>z0. zp_new Z = Inr z0 \<and> (\<forall>items. \<exists>ws z ws'. zp_writes Z items z0 = Some (ws, z) \<and> zp_close Z z = (ws', None) \<and>
     (\<forall>limit. zp_read Z limit (concat (ws @ ws')) (Some IO_EOF) = Some (Inr (delivered limit items)))))"

lemma write_items_run:
  assumes "buf_inv (sw_buf sw) c" "zp_writes Z items (sw_z sw) = Some (ws, z)"
  shows "\<exists>b. write_items Z (\<lambda>_. None) items err sw = (err, \<lparr>sw_buf = b, sw_z = z\<rparr>) \<and> buf_inv b (c @ concat ws)"
  using assms
proof (induction items arbitrary: sw c ws)
  case Nil
  then show ?case by (cases sw) simp
next
  case (Cons x xs)
  obtain ws1 z1 ws2 where 1: "zp_msg Z x (sw_z sw) = ((ws1, None), z1)" "zp_writes Z xs z1 = Some (ws2, z)" "ws = ws1 @ ws2"
    using Cons.prems(2) by (auto split: prod.splits option.splits)
  obtain b1 where b1: "buf_writes (\<lambda>_. None) ws1 (sw_buf sw) = (None, b1)" "buf_inv b1 (c @ concat ws1)"
    using buf_writes_run [OF Cons.prems(1)] by blast
  have "sw_WriteMsg Z (\<lambda>_. None) x sw = (None, \<lparr>sw_buf = b1, sw_z = z1\<rparr>)"
    using 1(1) b1(1) by (simp add: sw_WriteMsg_def)
  then show ?case using Cons.IH [of "\<lparr>sw_buf = b1, sw_z = z1\<rparr>" "c @ concat ws1" ws2] 1(2,3) b1(2) by simp
qed

text \<open>Writing more items, payloads or extensions is writing one longer list.\<close>

lemma write_items_append:
  "write_items Z takes (xs @ ys) err sw = (case write_items Z takes xs None sw of (Some e, sw') \<Rightarrow> (Some e, sw') | (None, sw') \<Rightarrow> write_items Z takes ys err sw')"
  by (induction xs arbitrary: sw) (auto split: prod.splits option.splits)

lemma write_payloads_items: "write_payloads Z takes ps err sw = write_items Z takes (map SnapshotItem_ExtensionPayload ps) err sw"
  by (induction ps arbitrary: sw) (auto simp: WriteExtensionPayload_def split: prod.splits option.splits)

definition extension_items :: "'x ExtensionSnapshotter \<Rightarrow> 64 word \<Rightarrow> (string \<times> 'x) list \<Rightarrow> string \<Rightarrow> SnapshotItem list" where
  "extension_items E height es name = SnapshotItem_Extension name (ext_SnapshotFormat E (the (map_of es name))) #
     map SnapshotItem_ExtensionPayload (fst (ext_SnapshotExtension E height (the (map_of es name))))"

lemma write_extensions_items:
  assumes "\<forall>name \<in> set names. snd (ext_SnapshotExtension (en_ext env) h (the (map_of es name))) = None"
  shows "write_extensions env takes h es names sw =
    write_items (en_codec env) takes (concat (map (extension_items (en_ext env) h es) names)) None sw"
  using assms
proof (induction names arbitrary: sw)
  case (Cons name names)
  then show ?case
    by (auto simp: extension_items_def write_items_append write_payloads_items Let_def split: prod.splits option.splits)
qed simp

text \<open>All that a snapshot consists of, and the chunks that carry it.\<close>

definition snapshot_items :: "('d, 'j, 'm, 'x, 'z) snap_env \<Rightarrow> 64 word \<Rightarrow> 'm \<Rightarrow> (string \<times> 'x) list \<Rightarrow> SnapshotItem list" where
  "snapshot_items env h multistore es = fst (snp_Snapshot (en_multistore env) h multistore) @
     concat (map (extension_items (en_ext env) h es) (sortedExtensionNames es))"

lemma createSnapshot_chunks:
  assumes "snd (snp_Snapshot (en_multistore env) h multistore) = None"
    and "\<forall>name \<in> fst ` set es. snd (ext_SnapshotExtension (en_ext env) h (the (map_of es name))) = None"
    and z: "zp_new (en_codec env) = Inr z0" "zp_writes (en_codec env) (snapshot_items env h multistore es) z0 = Some (ws, z)"
      "zp_close (en_codec env) z = (ws', None)"
  shows "map pipe_bytes (createSnapshot env (\<lambda>_. None) h multistore es) = chunks_of snapshotChunkSize (concat (ws @ ws'))"
    and "\<forall>p \<in> set (createSnapshot env (\<lambda>_. None) h multistore es). pipe_done p"
proof -
  obtain items where items: "snp_Snapshot (en_multistore env) h multistore = (items, None)"
    using assms(1) by (cases "snp_Snapshot (en_multistore env) h multistore") simp
  let ?all = "snapshot_items env h multistore es"
  define sw0 where "sw0 = \<lparr>sw_buf = bufio_NewWriter (NewChunkWriter snapshotChunkSize), sw_z = z0\<rparr>"
  have new: "NewStreamWriter (en_codec env) (\<lambda>_. None) = Inr sw0"
    using z(1) by (simp add: NewStreamWriter_def sw0_def)
  have "buf_inv (sw_buf sw0) []" using cw_inv_new by (auto simp: buf_inv_def sw0_def bufio_NewWriter_def)
  then obtain b where b: "write_items (en_codec env) (\<lambda>_. None) ?all None sw0 = (None, \<lparr>sw_buf = b, sw_z = z\<rparr>)" "buf_inv b (concat ws)"
    using write_items_run [of sw0 "[]" "en_codec env" ?all ws z None] z(2) by (auto simp: sw0_def)
  have written: "(case write_items (en_codec env) (\<lambda>_. None) items None sw0 of (Some err, sw1) \<Rightarrow> (Some err, sw1)
      | (None, sw1) \<Rightarrow> write_extensions env (\<lambda>_. None) h es (sortedExtensionNames es) sw1) = (None, \<lparr>sw_buf = b, sw_z = z\<rparr>)"
    using b(1) write_extensions_items [of "sortedExtensionNames es" env h es "\<lambda>_. None"] assms(2) items
    by (auto simp: snapshot_items_def write_items_append sortedExtensionNames_def split: prod.splits option.splits)
  obtain b1 where b1: "buf_writes (\<lambda>_. None) ws' b = (None, b1)" "buf_inv b1 (concat ws @ concat ws')"
    using buf_writes_run [OF b(2)] by blast
  obtain b2 where b2: "bufio_Flush (\<lambda>_. None) b1 = (None, b2)" "buf_inv b2 (concat ws @ concat ws')" "bw_buf b2 = []"
    using bufio_Flush_run [OF b1(2)] by blast
  have cw: "cw_inv snapshotChunkSize (bw_wr b2) (concat (ws @ ws'))" using b2(2,3) by (auto simp: buf_inv_def)
  have "fst (cw_Close (bw_wr b2)) = None" by (simp add: cw_Close_def)
  then have "sw_Close (en_codec env) (\<lambda>_. None) \<lparr>sw_buf = b, sw_z = z\<rparr> =
      (None, \<lparr>sw_buf = b2\<lparr>bw_wr := snd (cw_Close (bw_wr b2))\<rparr>, sw_z = z\<rparr>)"
    using z(3) b1(1) b2(1) by (auto simp: sw_Close_def Let_def split: prod.splits)
  then have "createSnapshot env (\<lambda>_. None) h multistore es = cw_sent (snd (cw_Close (bw_wr b2)))"
    using new items written by (simp add: createSnapshot_def Let_def)
  then show "map pipe_bytes (createSnapshot env (\<lambda>_. None) h multistore es) = chunks_of snapshotChunkSize (concat (ws @ ws'))"
      "\<forall>p \<in> set (createSnapshot env (\<lambda>_. None) h multistore es). pipe_done p"
    using cw_Close_run [OF cw] by simp_all
qed

lemma createSnapshot_run:
  assumes "codec_ok (en_codec env)" "snd (snp_Snapshot (en_multistore env) h multistore) = None"
    and "\<forall>name \<in> fst ` set es. snd (ext_SnapshotExtension (en_ext env) h (the (map_of es name))) = None"
  shows "\<exists>data. (\<forall>limit. zp_read (en_codec env) limit data (Some IO_EOF) = Some (Inr (delivered limit (snapshot_items env h multistore es)))) \<and>
    map pipe_bytes (createSnapshot env (\<lambda>_. None) h multistore es) = chunks_of snapshotChunkSize data \<and>
    (\<forall>p \<in> set (createSnapshot env (\<lambda>_. None) h multistore es). pipe_done p)"
  using assms(1) createSnapshot_chunks [OF assms(2,3)] unfolding codec_ok_def by metis

section \<open>Reading\<close>

text \<open>
  What the multistore promises: \<open>Snapshot\<close> succeeds on \<open>s\<close>, and \<open>Restore\<close> of its items, as they come from the wire, on \<open>s0\<close> gives \<open>s'\<close>, and stops at the first item of an extension
  or at the end of the stream.
\<close>

abbreviation stream :: "SnapshotItem list \<Rightarrow> StreamReader" where
  "stream items \<equiv> \<lparr>sr_items = items, sr_end = Some IO_EOF\<rparr>"

definition first_item :: "SnapshotItem list \<Rightarrow> SnapshotItem option" where
  "first_item items = (case items of [] \<Rightarrow> None | x # _ \<Rightarrow> Some x)"

definition restores_multistore :: "'m Snapshotter \<Rightarrow> 64 word \<Rightarrow> 'm \<Rightarrow> 'm \<Rightarrow> 'm \<Rightarrow> bool" where
  "restores_multistore S h s s0 s' \<longleftrightarrow> snd (snp_Snapshot S h s) = None \<and>
     (\<forall>rest. rest = [] \<or> extension_of (Some (hd rest)) \<noteq> None \<longrightarrow>
       snp_Restore S h CurrentFormat (s0, stream (map wire_item (fst (snp_Snapshot S h s)) @ rest)) = Some (Inr (Inr (first_item rest)), (s', stream (tl rest))))"

text \<open>
  What an extension promises: it supports its own format, \<open>SnapshotExtension\<close> succeeds on \<open>x\<close>, and \<open>RestoreExtension\<close> reads the payloads to their end and
  turns \<open>x0\<close> into \<open>x'\<close>.
\<close>

definition restores_extension :: "'x ExtensionSnapshotter \<Rightarrow> 64 word \<Rightarrow> 'x \<Rightarrow> 'x \<Rightarrow> 'x \<Rightarrow> bool" where
  "restores_extension E h x x0 x' \<longleftrightarrow> IsFormatSupported E x0 (ext_SnapshotFormat E x) \<and> snd (ext_SnapshotExtension E h x) = None \<and>
     (\<forall>item rest. rest = [] \<or> extension_of (Some (hd rest)) \<noteq> None \<longrightarrow>
       ext_RestoreExtension E h (ext_SnapshotFormat E x) payloadReader
         (x0, item, stream (map SnapshotItem_ExtensionPayload (fst (ext_SnapshotExtension E h x)) @ rest)) =
       Some (Inr None, (x', first_item rest, stream (tl rest))))"

lemma is_payload_first:
  "rest = [] \<or> extension_of (Some (hd rest)) \<noteq> None \<Longrightarrow> \<not> is_payload (first_item rest)"
  by (cases rest) (auto simp: is_payload_def first_item_def extension_of_def split: SnapshotItem.splits)

lemma restore_loop_run:
  assumes "distinct names" "\<forall>name \<in> set names. \<exists>x0. map_of es0 name = Some x0 \<and> restores_extension E h (the (map_of es name)) x0 (X name)"
    and "items = concat (map (extension_items E h es) names)"
  shows "\<exists>es1 st. restore_loop E h (es0, first_item items, stream (tl items)) = Some (Inr None, (es1, st)) \<and>
    (\<forall>name. map_of es1 name = (if name \<in> set names then Some (X name) else map_of es0 name))"
  using assms
proof (induction names arbitrary: es0 items)
  case Nil
  then show ?case
    by (subst restore_loop.simps) (simp add: first_item_def go_bind_apply go_read_def ret_def)
next
  case (Cons name names)
  obtain x0 where x0: "map_of es0 name = Some x0" "restores_extension E h (the (map_of es name)) x0 (X name)"
    using Cons.prems(2) by auto
  define rest where "rest = concat (map (extension_items E h es) names)"
  define f where "f = ext_SnapshotFormat E (the (map_of es name))"
  have rest_ok: "rest = [] \<or> extension_of (Some (hd rest)) \<noteq> None"
    by (cases names) (auto simp: rest_def extension_items_def extension_of_def)
  have items: "first_item items = Some (SnapshotItem_Extension name f)"
      "tl items = map SnapshotItem_ExtensionPayload (fst (ext_SnapshotExtension E h (the (map_of es name)))) @ rest"
    by (simp_all add: Cons.prems(3) rest_def extension_items_def [of E h es name] f_def first_item_def)
  have step: "ext_RestoreExtension E h f payloadReader (x0, first_item items, stream (tl items)) = Some (Inr None, (X name, first_item rest, stream (tl rest)))"
    and fmt: "IsFormatSupported E x0 f"
    using x0(2) rest_ok unfolding restores_extension_def items(2) f_def by blast+
  let ?es = "AList.update name (X name) es0"
  have "restore_loop E h (es0, first_item items, stream (tl items)) = restore_loop E h (?es, first_item rest, stream (tl rest))"
    using step fmt items x0(1) is_payload_first [OF rest_ok]
    by (subst restore_loop.simps) (simp add: go_bind_apply go_read_def go_zoom_def extension_of_def)
  moreover have "\<forall>n \<in> set names. \<exists>x0. map_of ?es n = Some x0 \<and> restores_extension E h (the (map_of es n)) x0 (X n)"
    using Cons.prems(1,2) by (auto simp: update_conv')
  ultimately show ?case
    using Cons.IH [of ?es rest] Cons.prems(1) by (auto simp: rest_def update_conv')
qed

text \<open>The stream of the files of a snapshot.\<close>

lemma file_stream: "stream_bytes (map file_reader ds) True = Some (concat ds, Some IO_EOF)"
proof -
  let ?r = "NewChunkReader (map file_reader ds)"
  have "cr_ok ?r" by (auto simp: cr_ok_def NewChunkReader_def list_all_iff rc_ok_def file_reader_def)
  moreover have "cr_rest ?r = concat ds" by (simp add: cr_rest_def NewChunkReader_def comp_def)
  ultimately obtain r' where "cr_ReadAll (\<lambda>_. 4096) 0 [] ?r = Some ((concat ds, None), r')"
    using cr_ReadAll_run [of ?r "\<lambda>_. 4096" 0 "[]"] by auto
  then show ?thesis by (simp add: stream_bytes_def)
qed

section \<open>Creating and restoring\<close>

text \<open>The snapshots in the database decode and are below a height.\<close>

definition all_below :: "(bytes \<Rightarrow> string + Snapshot) \<Rightarrow> 64 word \<Rightarrow> (bytes \<rightharpoonup> bytes) \<Rightarrow> bool" where
  "all_below unmarshal h contents \<longleftrightarrow> (\<forall>k bz. contents k = Some bz \<longrightarrow> in_domain (Some (encodeKey 0 0)) (Some (encodeKey (- 1) (- 1))) k \<longrightarrow>
     (\<exists>sn. unmarshal bz = Inr sn \<and> sn_Height sn < h))"

context snapshot_db
begin

lemma GetLatest_below:
  assumes "d_inv (ss_db s)" "all_below unmarshal h (d_contents (ss_db s))"
  shows "\<exists>latest d'. snap_GetLatest db unmarshal s = Some (Inr (latest, None), s\<lparr>ss_db := d'\<rparr>) \<and> d_inv d' \<and>
    d_contents d' = d_contents (ss_db s) \<and> (\<forall>sn. latest = Some sn \<longrightarrow> sn_Height sn < h)"
proof -
  let ?Q = "\<lambda>r s'. \<exists>latest d'. r = (latest, None) \<and> s' = s\<lparr>ss_db := d'\<rparr> \<and> d_inv d' \<and> d_contents d' = d_contents (ss_db s) \<and>
    (\<forall>sn. latest = Some sn \<longrightarrow> sn_Height sn < h)"
  have "wp (snap_GetLatest db unmarshal) ?Q s"
    unfolding snap_GetLatest_def
  proof (rule with_snapshots_wp [OF assms(1)])
    fix d i
    assume d: "d_inv d" "d_contents d = d_contents (ss_db s)" "di_inv (d, i)"
      and cov: "covers (d_contents (ss_db s)) (Some (encodeKey 0 0)) (Some (encodeKey (- 1) (- 1))) False (di_items (d, i))"
    define same where "same = (\<lambda>x :: 'd SnapStore \<times> 'j. snap_ok x \<and> di_items (ss_db (fst x), snd x) = di_items (d, i) \<and>
      d_contents (ss_db (fst x)) = d_contents (ss_db s) \<and> ss_fs (fst x) = ss_fs s \<and> ss_saving (fst x) = ss_saving s)"
    have start: "same (s\<lparr>ss_db := d\<rparr>, i)" using d by (simp add: same_def)
    have Valid: "wp (it_Valid (snap_iter db)) (\<lambda>b x'. b = (di_items (d, i) \<noteq> []) \<and> same x') x" if "same x" for x
      using iterator.Valid [OF snap_iterator, of x] that by (auto simp: same_def elim!: wp_mono)
    have Value: "wp (it_Value (snap_iter db)) (\<lambda>v x'. v = snd (hd (di_items (d, i))) \<and> same x') x" if "same x" "di_items (d, i) \<noteq> []" for x
      using iterator.Value [OF snap_iterator, of x] that by (cases "di_items (d, i)") (auto simp: same_def elim!: wp_mono)
    have Err: "wp (it_Error (snap_iter db)) (\<lambda>e x'. e = None \<and> snap_ok x' \<and> d_contents (ss_db (fst x')) = d_contents (ss_db s) \<and>
        ss_fs (fst x') = ss_fs s \<and> ss_saving (fst x') = ss_saving s) x" if "same x" for x
      using Error [of "ss_db (fst x)" "snd x"] that by (cases x) (auto simp: same_def snap_iter_def wp_simps elim!: wp_mono)
    have found: "\<exists>sn. unmarshal (bs (snd (hd (di_items (d, i))))) = Inr sn \<and> sn_Height sn < h" if ne: "di_items (d, i) \<noteq> []"
    proof -
      obtain k v where kv: "hd (di_items (d, i)) = (k, v)" "(k, v) \<in> set (di_items (d, i))" using ne by (cases "di_items (d, i)") auto
      obtain b where "v = Some b" "d_contents (ss_db s) k = Some b" using covers_Some [OF cov kv(2)] by blast
      moreover have "in_domain (Some (encodeKey 0 0)) (Some (encodeKey (- 1) (- 1))) k" using covers_keys [OF cov] kv(2) by force
      ultimately show ?thesis using assms(2) kv(1) by (auto simp: all_below_def)
    qed
    have fin: "snap_ok y \<and> (\<forall>d'. d_inv d' \<longrightarrow> d_contents d' = d_contents (ss_db (fst y)) \<longrightarrow> ?Q (latest, None) ((fst y)\<lparr>ss_db := d'\<rparr>))"
      if "snap_ok y" "d_contents (ss_db (fst y)) = d_contents (ss_db s)" "ss_fs (fst y) = ss_fs s" "ss_saving (fst y) = ss_saving s"
        "\<forall>sn. latest = Some sn \<longrightarrow> sn_Height sn < h" for y latest
      using that by (auto intro!: SnapStore.equality)
    show "wp (go_bind (it_Valid (snap_iter db)) (\<lambda>valid.
        go_bind (if valid then go_bind (it_Value (snap_iter db)) (\<lambda>v. ret (map_sum id Some (unmarshal (bs v)))) else ret (Inr None)) (\<lambda>r.
        case r of Inl e \<Rightarrow> ret (None, Some (Err_proto e))
        | Inr snapshot \<Rightarrow> go_bind (it_Error (snap_iter db)) (\<lambda>err. ret (snapshot, map_option Err_db err)))))
      (\<lambda>x y. d_inv (ss_db (fst y)) \<and> di_inv (ss_db (fst y), snd y) \<and>
        (\<forall>d'. d_inv d' \<longrightarrow> d_contents d' = d_contents (ss_db (fst y)) \<longrightarrow> ?Q x ((fst y)\<lparr>ss_db := d'\<rparr>))) (s\<lparr>ss_db := d\<rparr>, i)"
    proof (cases "di_items (d, i) = []")
      case True
      have "wp (it_Error (snap_iter db)) (\<lambda>e y. snap_ok y \<and> (\<forall>d'. d_inv d' \<longrightarrow> d_contents d' = d_contents (ss_db (fst y)) \<longrightarrow>
          ?Q (None, map_option Err_db e) ((fst y)\<lparr>ss_db := d'\<rparr>))) x" if "same x" for x
        by (rule wp_mono [OF Err [OF that]]) (use fin [of _ None] in auto)
      then show ?thesis
        unfolding wp_bind by (intro wp_mono [OF Valid [OF start]]) (simp add: True wp_simps)
    next
      case False
      obtain sn where sn: "unmarshal (bs (snd (hd (di_items (d, i))))) = Inr sn" "sn_Height sn < h" using found False by blast
      have "wp (it_Error (snap_iter db)) (\<lambda>e y. snap_ok y \<and> (\<forall>d'. d_inv d' \<longrightarrow> d_contents d' = d_contents (ss_db (fst y)) \<longrightarrow>
          ?Q (Some sn, map_option Err_db e) ((fst y)\<lparr>ss_db := d'\<rparr>))) x" if "same x" for x
        by (rule wp_mono [OF Err [OF that]]) (use fin [of _ "Some sn"] sn in auto)
      note err = this
      have "wp (it_Value (snap_iter db)) (\<lambda>v x. wp (case map_sum id Some (unmarshal (bs v)) of Inl e \<Rightarrow> ret (None, Some (Err_proto e))
          | Inr snapshot \<Rightarrow> go_bind (it_Error (snap_iter db)) (\<lambda>err. ret (snapshot, map_option Err_db err))) (\<lambda>r y. snap_ok y \<and>
            (\<forall>d'. d_inv d' \<longrightarrow> d_contents d' = d_contents (ss_db (fst y)) \<longrightarrow> ?Q r ((fst y)\<lparr>ss_db := d'\<rparr>))) x) x" if "same x" for x
        by (rule wp_mono [OF Value [OF that False]]) (use sn err in \<open>simp add: wp_simps\<close>)
      then show ?thesis
        unfolding wp_bind by (intro wp_mono [OF Valid [OF start]]) (simp add: False wp_simps)
    qed
  qed
  then show ?thesis by (fastforce elim!: wpE)
qed

end

lemma create_run_saves:
  assumes db: "snapshot_db (en_db env) d_inv d_contents di_inv di_items (en_setSync env) (en_deleteSync env) (en_marshal env) (en_unmarshal env)"
    and codec: "codec_ok (en_codec env)" and m: "sm_operation m = opNone" "h \<noteq> 0"
    and st: "d_inv (ss_db (sm_store m))" "snap_free (en_dir env) h CurrentFormat (ss_fs (sm_store m))" "h \<notin> set (ss_saving (sm_store m))"
      "d_contents (ss_db (sm_store m)) (encodeKey h CurrentFormat) = None"
    and below: "all_below (en_unmarshal env) h (d_contents (ss_db (sm_store m)))"
    and len: "length (createSnapshot env (\<lambda>_. None) h (sm_multistore m) (sm_extensions m)) < 2 ^ 32"
    and pruned: "wp (snp_PruneSnapshotHeight (en_multistore env) h) (\<lambda>_ _. True) (sm_multistore m)"
    and no_err: "snd (snp_Snapshot (en_multistore env) h (sm_multistore m)) = None"
      "\<forall>name \<in> fst ` set (sm_extensions m). snd (ext_SnapshotExtension (en_ext env) h (the (map_of (sm_extensions m) name))) = None"
  shows "\<exists>data sn m'. create_run env h m = Some (Inr (Some sn, None), m') \<and> sm_operation m' = opNone \<and> d_inv (ss_db (sm_store m')) \<and>
    sn_Height sn = h \<and> sn_Format sn = CurrentFormat \<and>
    saved_as (en_dir env) d_contents (en_unmarshal env) sn (chunks_of snapshotChunkSize data) (sm_store m') \<and>
    (\<forall>limit. zp_read (en_codec env) limit data (Some IO_EOF) = Some (Inr (delivered limit (snapshot_items env h (sm_multistore m) (sm_extensions m)))))"
proof -
  let ?ch = "createSnapshot env (\<lambda>_. None) h (sm_multistore m) (sm_extensions m)"
  let ?cs = "map pipe_reader ?ch"
  obtain data where data: "(\<forall>limit. zp_read (en_codec env) limit data (Some IO_EOF) = Some (Inr (delivered limit (snapshot_items env h (sm_multistore m) (sm_extensions m)))))"
      "map pipe_bytes ?ch = chunks_of snapshotChunkSize data" "\<forall>p \<in> set ?ch. pipe_done p"
    using createSnapshot_run [OF codec no_err] by blast
  have cs: "\<forall>c \<in> set ?cs. rc_end c = IO_EOF \<and> rc_close c = None" "length ?cs < 2 ^ 32" "map chunk_data ?cs = chunks_of snapshotChunkSize data"
    using data(2,3) len by (auto simp: pipe_done_def pipe_reader_def comp_def)
  define m1 where "m1 = m\<lparr>sm_operation := opSnapshot\<rparr>"
  obtain latest d1 where latest: "snap_GetLatest (en_db env) (en_unmarshal env) (sm_store m) = Some (Inr (latest, None), (sm_store m)\<lparr>ss_db := d1\<rparr>)"
      "d_inv d1" "d_contents d1 = d_contents (ss_db (sm_store m))" "\<forall>sn. latest = Some sn \<longrightarrow> sn_Height sn < h"
    using snapshot_db.GetLatest_below [OF db st(1) below] by blast
  define st1 where "st1 = (sm_store m)\<lparr>ss_db := d1\<rparr>"
  have st1: "d_inv (ss_db st1)" "snap_free (en_dir env) h CurrentFormat (ss_fs st1)" "h \<notin> set (ss_saving st1)"
      "d_contents (ss_db st1) (encodeKey h CurrentFormat) = None"
    using st latest by (simp_all add: st1_def)
  obtain sn st2 where save: "snap_Save (en_dir env) (en_db env) (en_setSync env) (en_marshal env) h CurrentFormat ?cs st1 = Some (Inr (Some sn, None), st2)"
      "d_inv (ss_db st2)" "sn_Height sn = h" "sn_Format sn = CurrentFormat" "saved_as (en_dir env) d_contents (en_unmarshal env) sn (map chunk_data ?cs) st2"
    using snapshot_db.Save_run [OF db st1 m(2) cs(1,2)] by blast
  obtain s1 where prune: "snp_PruneSnapshotHeight (en_multistore env) h (sm_multistore m) = Some (Inr (), s1)"
    using pruned by (auto simp: wp_def)
  have "\<not> (latest \<noteq> None \<and> h \<le> sn_Height (the latest))" using latest(4) by auto
  then have "create_body env h m1 = Some (Inr (Some sn, None), m1\<lparr>sm_store := st2\<rparr>)"
    using latest(1) save(1) by (auto simp: create_body_def go_bind_apply on_snaps_def go_zoom_def go_read_def m1_def st1_def)
  then have "create_run env h m = Some (Inr (Some sn, None), m1\<lparr>sm_store := st2, sm_operation := opNone, sm_chRestore := False,
      sm_chRestoreDone := None, sm_restoreSnapshot := None, sm_restoreChunkIndex := 0, sm_multistore := s1\<rparr>)"
    using m(1) prune
    by (simp add: create_run_def go_defer_def go_bind_apply beginLocked_run endLocked_def go_modify_def on_multistore_def go_zoom_def m1_def)
  then show ?thesis using save(2-5) cs(3) data(1) by (intro exI [of _ data] exI [of _ sn]) simp
qed

lemma restore_saved:
  assumes db: "snapshot_db (en_db env) d_inv d_contents di_inv di_items (en_setSync env) (en_deleteSync env) (en_marshal env) (en_unmarshal env)"
    and m: "sm_operation m = opNone" "d_inv (ss_db (sm_store m))"
    and saved: "saved_as (en_dir env) d_contents (en_unmarshal env) sn ds (sm_store m)" "sn_Height sn = h" "sn_Format sn = CurrentFormat"
    and read: "zp_read (en_codec env) snapshotMaxItemSize (concat ds) (Some IO_EOF) = Some (Inr (delivered snapshotMaxItemSize (snapshot_items env h s es)))"
    and sizes: "\<forall>x \<in> set (snapshot_items env h s es). SnapshotItem_Size x \<le> snapshotMaxItemSize"
    and rs: "restores_multistore (en_multistore env) h s (sm_multistore m) s'" and es: "distinct (map fst es)"
    and rx: "\<forall>name \<in> fst ` set es. \<exists>x0. map_of (sm_extensions m) name = Some x0 \<and> restores_extension (en_ext env) h (the (map_of es name)) x0 (X name)"
  shows "\<exists>m'. RestoreLocalSnapshot env h CurrentFormat m = Some (Inr None, m') \<and> sm_operation m' = opNone \<and> sm_multistore m' = s' \<and>
    (\<forall>name. map_of (sm_extensions m') name = (if name \<in> fst ` set es then Some (X name) else map_of (sm_extensions m) name))"
proof -
  define sn1 where "sn1 = sn\<lparr>sn_ChunkHashes := Some (map sha256 ds)\<rparr>"
  obtain d1 where load: "snap_Load (en_dir env) (en_db env) (en_unmarshal env) h CurrentFormat (sm_store m) =
      Some (Inr (Inr (Some (sn1, map file_reader ds))), (sm_store m)\<lparr>ss_db := d1\<rparr>)"
    using snapshot_db.Load_run [OF db m(2) saved] by (auto simp: sn1_def)
  obtain fs1 where mk: "os_MkdirAll (pathSnapshot (en_dir env) h CurrentFormat) (ss_fs (sm_store m)) = Some (Inr None, fs1)"
    using os_MkdirAll_run [of "en_dir env" h CurrentFormat "ss_fs (sm_store m)"] saved by (auto simp: saved_as_def)
  define rest where "rest = concat (map (extension_items (en_ext env) h es) (sortedExtensionNames es))"
  have wired: "map wire_item rest = rest"
    by (auto simp: rest_def extension_items_def wire_item_def intro!: map_idI)
  have reader: "NewStreamReader (en_codec env) (map file_reader ds) True = Some (Inr (stream (map wire_item (fst (snp_Snapshot (en_multistore env) h s)) @ rest)))"
    using read sizes wired by (simp add: NewStreamReader_def file_stream snapshot_items_def rest_def delivered_def list_all_iff takeWhile_eq_all_conv [THEN iffD2])
  have "rest = [] \<or> extension_of (Some (hd rest)) \<noteq> None"
    by (cases "sortedExtensionNames es") (auto simp: rest_def extension_items_def extension_of_def)
  then have multi: "snp_Restore (en_multistore env) h CurrentFormat (sm_multistore m, stream (map wire_item (fst (snp_Snapshot (en_multistore env) h s)) @ rest)) =
      Some (Inr (Inr (first_item rest)), (s', stream (tl rest)))"
    using rs unfolding restores_multistore_def by blast
  obtain es1 st where loop: "restore_loop (en_ext env) h (sm_extensions m, first_item rest, stream (tl rest)) = Some (Inr None, (es1, st))"
      "\<forall>name. map_of es1 name = (if name \<in> set (sortedExtensionNames es) then Some (X name) else map_of (sm_extensions m) name)"
    using restore_loop_run [of "sortedExtensionNames es" "sm_extensions m" "en_ext env" h es X rest] rx es
    by (auto simp: sortedExtensionNames_def rest_def)
  define m1 where "m1 = m\<lparr>sm_store := (sm_store m)\<lparr>ss_db := d1\<rparr>, sm_operation := opRestore\<rparr>"
  define m2 where "m2 = m1\<lparr>sm_store := (sm_store m1)\<lparr>ss_fs := fs1\<rparr>, sm_multistore := s', sm_extensions := es1\<rparr>"
  have "sn_Height sn1 = h" "sn_Format sn1 = CurrentFormat" using saved by (simp_all add: sn1_def)
  then have "doRestoreSnapshot env sn1 (map file_reader ds) True m1 = Some (Inr None, m2)"
    using mk reader multi loop(1)
    by (simp add: doRestoreSnapshot_def go_bind_apply on_snaps_def on_fs_def go_zoom_def go_defer_def go_local_def sr_Close_def ret_def m1_def m2_def)
  then show ?thesis
    using load m(1) loop(2)
    by (simp add: RestoreLocalSnapshot_def restore_loaded_def go_bind_apply on_snaps_def go_zoom_def beginLocked_run go_defer_def endLocked_def go_modify_def
      m1_def m2_def sortedExtensionNames_def)
qed

text \<open>C11. A snapshot restores what it was taken from. When the codec decodes what it encodes up to the difference of nil and empty slices, the multistore and the
  extensions restore their own items as they come from the wire, and no item is larger than the limit of the reader,
  \<open>Create\<close> at a height above all snapshots stores a snapshot from which \<open>RestoreLocalSnapshot\<close> brings the multistore and every extension from any other state to
  the restored one: the items pass complete and in order through the buffer, the chunks, the files and the readers.\<close>

theorem snapshot_create_restore:
  assumes "snapshot_db (en_db env) d_inv d_contents di_inv di_items (en_setSync env) (en_deleteSync env) (en_marshal env) (en_unmarshal env)"
    and "codec_ok (en_codec env)" and "\<forall>x \<in> set (snapshot_items env h (sm_multistore m) (sm_extensions m)). SnapshotItem_Size x \<le> snapshotMaxItemSize"
    and "sm_operation m = opNone" "h \<noteq> 0" "d_inv (ss_db (sm_store m))" "snap_free (en_dir env) h CurrentFormat (ss_fs (sm_store m))"
    and "h \<notin> set (ss_saving (sm_store m))" "d_contents (ss_db (sm_store m)) (encodeKey h CurrentFormat) = None"
    and "all_below (en_unmarshal env) h (d_contents (ss_db (sm_store m)))"
    and "length (createSnapshot env (\<lambda>_. None) h (sm_multistore m) (sm_extensions m)) < 2 ^ 32"
    and "wp (snp_PruneSnapshotHeight (en_multistore env) h) (\<lambda>_ _. True) (sm_multistore m)" "distinct (map fst (sm_extensions m))"
    and "restores_multistore (en_multistore env) h (sm_multistore m) s0 s'"
    and "\<forall>name \<in> fst ` set (sm_extensions m). \<exists>x0. map_of es0 name = Some x0 \<and>
      restores_extension (en_ext env) h (the (map_of (sm_extensions m) name)) x0 (X name)"
  shows "wp (create_run env h) (\<lambda>r m1. \<exists>sn. r = (Some sn, None) \<and>
    wp (RestoreLocalSnapshot env h CurrentFormat) (\<lambda>r m2. r = None \<and> sm_operation m2 = opNone \<and> sm_multistore m2 = s' \<and>
      (\<forall>name. map_of (sm_extensions m2) name = (if name \<in> fst ` set (sm_extensions m) then Some (X name) else map_of es0 name)))
      (m1\<lparr>sm_multistore := s0, sm_extensions := es0\<rparr>)) m"
proof -
  have no_err: "snd (snp_Snapshot (en_multistore env) h (sm_multistore m)) = None"
      "\<forall>name \<in> fst ` set (sm_extensions m). snd (ext_SnapshotExtension (en_ext env) h (the (map_of (sm_extensions m) name))) = None"
    using assms(14,15) by (auto simp: restores_multistore_def restores_extension_def)
  obtain data sn m1 where create: "create_run env h m = Some (Inr (Some sn, None), m1)" "sm_operation m1 = opNone" "d_inv (ss_db (sm_store m1))"
      "sn_Height sn = h" "sn_Format sn = CurrentFormat" "saved_as (en_dir env) d_contents (en_unmarshal env) sn (chunks_of snapshotChunkSize data) (sm_store m1)"
      "(\<forall>limit. zp_read (en_codec env) limit data (Some IO_EOF) = Some (Inr (delivered limit (snapshot_items env h (sm_multistore m) (sm_extensions m)))))"
    using create_run_saves [OF assms(1,2,4-12) no_err] by blast
  let ?m = "m1\<lparr>sm_multistore := s0, sm_extensions := es0\<rparr>"
  have "\<exists>m'. RestoreLocalSnapshot env h CurrentFormat ?m = Some (Inr None, m') \<and> sm_operation m' = opNone \<and> sm_multistore m' = s' \<and>
      (\<forall>name. map_of (sm_extensions m') name = (if name \<in> fst ` set (sm_extensions m) then Some (X name) else map_of (sm_extensions ?m) name))"
    by (rule restore_saved [OF assms(1), where sn = sn and ds = "chunks_of snapshotChunkSize data" and s = "sm_multistore m"])
      (use create assms(3,13-15) in \<open>simp_all add: concat_chunks_of\<close>)
  then show ?thesis using create(1) by (auto simp: wp_def)
qed

section \<open>A reference environment\<close>

text \<open>
  A codec that writes each message as a mark and its fields, and a terminator at the end; a multistore that holds the names of stores; and an
  extension that holds a name and payloads. They make the predicates above true.
\<close>

definition ref_string :: "string \<Rightarrow> bytes" where
  "ref_string s = map (\<lambda>c. word_of_nat (of_char c)) s"

definition ref_fields :: "SnapshotItem \<Rightarrow> bytes list" where
  "ref_fields item = (case item of
     SnapshotItem_Store name \<Rightarrow> [[0], ref_string name, [], [], []]
   | SnapshotItem_IAVL k v ver h \<Rightarrow> [[1], case k of None \<Rightarrow> [] | Some b \<Rightarrow> 1 # b, case v of None \<Rightarrow> [] | Some b \<Rightarrow> 1 # b, be_put 8 (unat ver), be_put 4 (unat h)]
   | SnapshotItem_Extension name f \<Rightarrow> [[2], ref_string name, be_put 4 (unat f), [], []]
   | SnapshotItem_ExtensionPayload p \<Rightarrow> [[3], p, [], [], []])"

definition ref_item :: "bytes list \<Rightarrow> SnapshotItem" where
  "ref_item fs = (let str = (\<lambda>b. map (\<lambda>x. char_of (unat x)) b); opt = (\<lambda>b. if b = [] then None else Some (tl b)) in
     if fs ! 0 = [0] then SnapshotItem_Store (str (fs ! 1))
     else if fs ! 0 = [1] then SnapshotItem_IAVL (opt (fs ! 1)) (opt (fs ! 2)) (word_of_nat (be_value (fs ! 3))) (word_of_nat (be_value (fs ! 4)))
     else if fs ! 0 = [2] then SnapshotItem_Extension (str (fs ! 1)) (word_of_nat (be_value (fs ! 2)))
     else SnapshotItem_ExtensionPayload (fs ! 1))"

lemma ref_string_back: "map (\<lambda>x. char_of (unat x)) (ref_string s) = s"
proof -
  have "char_of (unat (word_of_nat (of_char c) :: byte)) = c" for c :: char
    by (simp add: unat_of_nat take_bit_nat_eq_self)
  then show ?thesis by (simp add: ref_string_def map_idI comp_def)
qed

lemma ref_item_fields: "ref_item (ref_fields x) = x"
  by (cases x) (auto simp: ref_item_def ref_fields_def Let_def ref_string_back be_value_put_word split: option.splits)

lemma length_ref_fields: "length (ref_fields x) = 5"
  by (simp add: ref_fields_def split: SnapshotItem.splits)

definition ref_encode :: "SnapshotItem \<Rightarrow> bytes" where
  "ref_encode x = 1 # concat (map ref_bytes (ref_fields x))"

fun ref_skip :: "nat \<Rightarrow> bytes \<Rightarrow> bytes" where
  "ref_skip 0 bz = bz"
| "ref_skip (Suc n) bz = ref_skip n (snd (ref_parse bz))"

lemma ref_skip_bytes: "ref_skip (length fs) (concat (map ref_bytes fs) @ bz) = bz"
  by (induction fs) (simp_all add: ref_parse_bytes)

text \<open>The first argument bounds the number of messages.\<close>

fun ref_decode :: "nat \<Rightarrow> bytes \<Rightarrow> SnapshotItem list" where
  "ref_decode 0 bz = []"
| "ref_decode (Suc n) [] = []"
| "ref_decode (Suc n) (y # bz) = (if y = 0 then [] else ref_item (ref_parse_list 5 bz) # ref_decode n (ref_skip 5 bz))"

lemma ref_decode_encode:
  assumes "length items < n"
  shows "ref_decode n (concat (map ref_encode items) @ [0]) = items"
  using assms
proof (induction items arbitrary: n)
  case Nil
  then show ?case by (cases n) simp_all
next
  case (Cons x xs)
  then obtain k where k: "n = Suc k" "length xs < k" by (cases n) auto
  show ?case
    using Cons.IH [OF k(2)] ref_parse_list_bytes [of "ref_fields x"] ref_skip_bytes [of "ref_fields x"]
    by (simp add: k(1) ref_encode_def length_ref_fields ref_item_fields del: ref_parse_list.simps ref_skip.simps)
qed

definition ref_codec :: "unit codec" where
  "ref_codec = \<lparr>zp_new = Inr (), zp_msg = (\<lambda>x z. (([ref_encode x], None), ())), zp_close = (\<lambda>z. ([[0]], None)),
     zp_read = (\<lambda>limit bz e. if e = None then None else Some (Inr (delivered limit (ref_decode (length bz) bz))))\<rparr>"

lemma ref_codec_writes: "zp_writes ref_codec items z = Some (map ref_encode items, ())"
  by (induction items) (simp_all add: ref_codec_def)

lemma ref_codec_ok: "codec_ok ref_codec"
proof -
  have "length items < length (concat (map ref_encode items) @ [0])" for items
    by (induction items) (simp_all add: ref_encode_def)
  then show ?thesis
    by (simp add: codec_ok_def ref_codec_writes) (simp add: ref_codec_def ref_decode_encode)
qed

definition ref_multistore :: "string list Snapshotter" where
  "ref_multistore = \<lparr>snp_Snapshot = (\<lambda>h names. (map SnapshotItem_Store names, None)), snp_PruneSnapshotHeight = (\<lambda>h. ret ()),
     snp_Restore = (\<lambda>h f (_, sr).
       let stores = takeWhile (\<lambda>x. extension_of (Some x) = None) (sr_items sr); rest = drop (length stores) (sr_items sr) in
       Some (Inr (Inr (first_item rest)), (map (\<lambda>x. case x of SnapshotItem_Store n \<Rightarrow> n | _ \<Rightarrow> []) stores, sr\<lparr>sr_items := tl rest\<rparr>)))\<rparr>"

lemma ref_multistore_restores: "restores_multistore ref_multistore h s s0 s"
proof -
  have tw: "takeWhile (\<lambda>x. extension_of (Some x) = None) (map (\<lambda>n. wire_item (SnapshotItem_Store n)) s @ rest) = map SnapshotItem_Store s"
    if "rest = [] \<or> extension_of (Some (hd rest)) \<noteq> None" for rest
    using that by (induction s) (cases rest; auto simp: extension_of_def wire_item_def)+
  show ?thesis by (auto simp: restores_multistore_def ref_multistore_def Let_def tw comp_def)
qed

text \<open>The extension reads payloads until the reader returns an error; at most as many as the stream has items.\<close>

primrec ref_read_payloads :: "nat \<Rightarrow> payload_reader \<Rightarrow> bytes list \<Rightarrow> (SnapshotItem option \<times> StreamReader, bytes list) go" where
  "ref_read_payloads 0 rd acc = ret acc"
| "ref_read_payloads (Suc n) rd acc = go_bind rd (\<lambda>r. case r of Inl _ \<Rightarrow> ret acc | Inr p \<Rightarrow> ref_read_payloads n rd (acc @ [p]))"

definition ref_extension :: "(string \<times> bytes list) ExtensionSnapshotter" where
  "ref_extension = \<lparr>ext_SnapshotName = fst, ext_SnapshotFormat = (\<lambda>_. 1), ext_SupportedFormats = (\<lambda>_. [1]),
     ext_SnapshotExtension = (\<lambda>h x. (snd x, None)),
     ext_RestoreExtension = (\<lambda>h f rd (x, st). case ref_read_payloads (Suc (length (sr_items (snd st)))) rd [] st of
        None \<Rightarrow> None | Some (Inl p, st') \<Rightarrow> Some (Inl p, (x, st')) | Some (Inr ps, st') \<Rightarrow> Some (Inr None, ((fst x, ps), st')))\<rparr>"

lemma ref_read_payloads_run:
  assumes "rest = [] \<or> extension_of (Some (hd rest)) \<noteq> None" "length ps < n"
  shows "ref_read_payloads n payloadReader acc (item, stream (map SnapshotItem_ExtensionPayload ps @ rest)) =
    Some (Inr (acc @ ps), (first_item rest, stream (tl rest)))"
  using assms(2)
proof (induction ps arbitrary: n acc item)
  case Nil
  then obtain k where "n = Suc k" by (cases n) auto
  then show ?case
    using assms(1) by (cases rest) (auto simp: payloadReader_def sr_ReadMsg_def first_item_def extension_of_def go_bind_apply go_modify_def go_zoom_def ret_def
      split: SnapshotItem.splits)
next
  case (Cons p ps)
  then obtain k where k: "n = Suc k" "length ps < k" by (cases n) auto
  have "payloadReader (item, stream (map SnapshotItem_ExtensionPayload (p # ps) @ rest)) =
      Some (Inr (Inr p), (Some (SnapshotItem_ExtensionPayload p), stream (map SnapshotItem_ExtensionPayload ps @ rest)))"
    by (simp add: payloadReader_def sr_ReadMsg_def go_bind_apply go_modify_def go_zoom_def ret_def)
  then show ?case using Cons.IH [OF k(2)] by (simp add: k(1) go_bind_apply)
qed

lemma ref_extension_restores: "fst x0 = fst x \<Longrightarrow> restores_extension ref_extension h x x0 x"
  using ref_read_payloads_run [where acc = "[]"]
  by (auto simp: restores_extension_def ref_extension_def IsFormatSupported_def simp del: ref_read_payloads.simps)

definition ref_env :: "(ref_db_state, ref_db_iter, string list, string \<times> bytes list, unit) snap_env" where
  "ref_env = \<lparr>en_dir = [''snapshots''], en_db = ref_db, en_setSync = db_Set ref_db, en_deleteSync = db_Delete ref_db, en_Close = ret None,
     en_marshal = ref_marshal, en_unmarshal = ref_unmarshal, en_multistore = ref_multistore, en_ext = ref_extension, en_codec = ref_codec\<rparr>"

lemma ref_env_db: "snapshot_db (en_db ref_env) ref_d_inv map_of (\<lambda>_. True) ref_di_items (en_setSync ref_env) (en_deleteSync ref_env)
    (en_marshal ref_env) (en_unmarshal ref_env)"
  using ref_snapshots.snapshot_db_axioms by (simp add: ref_env_def)

definition demo_manager :: "(ref_db_state, string list, string \<times> bytes list) SnapManager" where
  "demo_manager = snap_NewManager \<lparr>ss_db = [], ss_fs = \<lparr>fs_dirs = [], fs_files = [], fs_fault = (\<lambda>_ _. None)\<rparr>, ss_saving = []\<rparr>
     (NewSnapshotOptions 10 2) [''bank'', ''staking''] (Some [(''wasm'', (''wasm'', [[1, 2], [3]]))])"

theorem snapshot_create_restore_witness:
  "wp (create_run ref_env 20) (\<lambda>r m1. \<exists>sn. r = (Some sn, None) \<and>
    wp (RestoreLocalSnapshot ref_env 20 CurrentFormat) (\<lambda>r m2. r = None \<and> sm_operation m2 = opNone \<and> sm_multistore m2 = [''bank'', ''staking''] \<and>
      (\<forall>name. map_of (sm_extensions m2) name = (if name \<in> fst ` set (sm_extensions demo_manager) then Some (''wasm'', [[1, 2], [3]])
        else map_of [(''wasm'', (''wasm'', []))] name)))
      (m1\<lparr>sm_multistore := [], sm_extensions := [(''wasm'', (''wasm'', []))]\<rparr>)) demo_manager"
proof (rule snapshot_create_restore [OF ref_env_db])
  have "map pipe_bytes (createSnapshot ref_env (\<lambda>_. None) 20 (sm_multistore demo_manager) (sm_extensions demo_manager)) =
      chunks_of snapshotChunkSize (concat (map ref_encode (snapshot_items ref_env 20 (sm_multistore demo_manager) (sm_extensions demo_manager)) @ [[0]]))"
    by (rule createSnapshot_chunks(1) [where z0 = "()" and z = "()"])
      (simp_all add: ref_env_def ref_multistore_def ref_extension_def ref_codec_writes, simp_all add: ref_codec_def)
  then have "length (createSnapshot ref_env (\<lambda>_. None) 20 (sm_multistore demo_manager) (sm_extensions demo_manager)) =
      length (chunks_of snapshotChunkSize (concat (map ref_encode (snapshot_items ref_env 20 (sm_multistore demo_manager) (sm_extensions demo_manager)) @ [[0]])))"
    by (metis length_map)
  also have "\<dots> \<le> length (concat (map ref_encode (snapshot_items ref_env 20 (sm_multistore demo_manager) (sm_extensions demo_manager)) @ [[0]]))"
    by (rule length_chunks_of)
  also have "\<dots> < 2 ^ 32"
    by (simp add: snapshot_items_def demo_manager_def snap_NewManager_def ref_env_def ref_multistore_def sortedExtensionNames_def extension_items_def
      ref_extension_def ref_encode_def ref_fields_def ref_bytes_def ref_string_def length_concat comp_def sum_list_triv)
  finally show "length (createSnapshot ref_env (\<lambda>_. None) 20 (sm_multistore demo_manager) (sm_extensions demo_manager)) < 2 ^ 32" .
  have "SnapshotItem_Size x \<le> 1000" if "x \<in> set (snapshot_items ref_env 20 (sm_multistore demo_manager) (sm_extensions demo_manager))" for x
  proof -
    have "x \<in> {SnapshotItem_Store ''bank'', SnapshotItem_Store ''staking'', SnapshotItem_Extension ''wasm'' 1, SnapshotItem_ExtensionPayload [1, 2],
        SnapshotItem_ExtensionPayload [3]}"
      using that by (auto simp: snapshot_items_def demo_manager_def snap_NewManager_def ref_env_def ref_multistore_def sortedExtensionNames_def extension_items_def
        ref_extension_def)
    then show ?thesis by (auto intro!: order_trans [OF SnapshotItem_Size_le] simp: item_length_def)
  qed
  then show "\<forall>x \<in> set (snapshot_items ref_env 20 (sm_multistore demo_manager) (sm_extensions demo_manager)). SnapshotItem_Size x \<le> snapshotMaxItemSize"
    by (fastforce simp: snapshotMaxItemSize_def)
  show "codec_ok (en_codec ref_env)" using ref_codec_ok by (simp add: ref_env_def)
  show "restores_multistore (en_multistore ref_env) 20 (sm_multistore demo_manager) [] [''bank'', ''staking'']"
    using ref_multistore_restores by (simp add: ref_env_def demo_manager_def snap_NewManager_def)
  show "\<forall>name \<in> fst ` set (sm_extensions demo_manager). \<exists>x0. map_of [(''wasm'', (''wasm'', []))] name = Some x0 \<and>
      restores_extension (en_ext ref_env) 20 (the (map_of (sm_extensions demo_manager) name)) x0 (''wasm'', [[1, 2], [3]])"
    using ref_extension_restores by (simp add: ref_env_def demo_manager_def snap_NewManager_def)
qed (simp_all add: demo_manager_def snap_NewManager_def ref_env_def ref_d_inv_def snap_free_def all_below_def ref_multistore_def wp_simps)

section \<open>The manager as a state machine\<close>

text \<open>C12. Interleaving of the manager's methods. From a new manager, whatever methods are called in whatever order and with whatever databases, stores and
  extensions, at most one long operation runs at any time, none during a restoration, and every chunk that a restoration has accepted is in the file of
  its index and has the hash that the snapshot gives for it.\<close>

theorem snapshot_manager_invariant:
  assumes "(mgr_step env)\<^sup>*\<^sup>* (snap_NewManager store opts multistore extensions, []) (m, ops)"
  shows "length ops \<le> 1 \<and> (ops = [] \<longleftrightarrow> sm_operation m \<in> {opNone, opRestore}) \<and>
    (\<forall>sn. sm_restoreSnapshot m = Some sn \<longrightarrow> sm_operation m = opRestore \<and>
      unat (sm_restoreChunkIndex m) \<le> length (chunk_hashes sn) \<and>
      (\<forall>i < unat (sm_restoreChunkIndex m). \<exists>d. map_of (fs_files (ss_fs (sm_store m)))
         (PathChunk (en_dir env) (sn_Height sn) (sn_Format sn) (word_of_nat i)) = Some d \<and> sha256 d = chunk_hashes sn ! i))"
proof -
  have "mgr_inv env (snap_NewManager store opts multistore extensions, [])"
    by (simp add: mgr_inv_def running_def ctl_def snap_NewManager_def)
  then have "mgr_inv env (m, ops)" using mgr_reach_inv [OF assms] by blast
  then show ?thesis
    by (auto simp: mgr_inv_def running_def ctl_def accepted_def files_def snap_files_def split: operation.splits)
qed

definition demo_offer :: Snapshot where
  "demo_offer = \<lparr>sn_Height = 20, sn_Format = CurrentFormat, sn_Chunks = 2, sn_Hash = [], sn_ChunkHashes = Some [sha256 [1, 2], sha256 [3]]\<rparr>"

lemma demo_restoring:
  "\<exists>m. (mgr_step ref_env)\<^sup>*\<^sup>* (demo_manager, []) (m, []) \<and> sm_restoreSnapshot m = Some demo_offer \<and> sm_restoreChunkIndex m = 1"
proof -
  obtain fs where fs: "os_MkdirAll (pathSnapshot [''snapshots''] 20 CurrentFormat) (ss_fs (sm_store demo_manager)) = Some (Inr None, fs)"
      "snap_free [''snapshots''] 20 CurrentFormat fs" "is_dir fs (pathSnapshot [''snapshots''] 20 CurrentFormat)"
    using os_MkdirAll_run [of "[''snapshots'']" 20 CurrentFormat "ss_fs (sm_store demo_manager)"]
    by (auto simp: snap_free_def demo_manager_def snap_NewManager_def)
  define m1 where "m1 = demo_manager\<lparr>sm_operation := opRestore, sm_store := (sm_store demo_manager)\<lparr>ss_fs := fs\<rparr>, sm_chRestore := True,
    sm_chRestoreDone := Some \<lparr>rr_snapshot = demo_offer, rr_ids = [], rr_closed = False\<rparr>, sm_restoreSnapshot := Some demo_offer, sm_restoreChunkIndex := 0\<rparr>"
  have 1: "mgr_Restore ref_env demo_offer demo_manager = Some (Inr None, m1)"
    using fs(1) by (simp add: mgr_Restore_def demo_offer_def chunk_hashes_def go_bind_apply beginLocked_run on_snaps_def on_fs_def go_zoom_def go_modify_def
      ret_def m1_def ref_env_def) (simp add: demo_manager_def snap_NewManager_def)
  let ?p = "PathChunk [''snapshots''] 20 CurrentFormat 0"
  have "butlast ?p = pathSnapshot [''snapshots''] 20 CurrentFormat" "?p \<noteq> []" by (simp_all add: PathChunk_def)
  then have "saveChunkContent [''snapshots''] [1, 2] 0 demo_offer (sm_store m1) =
      Some (Inr None, (sm_store m1)\<lparr>ss_fs := fs\<lparr>fs_files := AList.update ?p [1, 2] (fs_files fs)\<rparr>\<rparr>)"
    using fs(2,3) by (simp add: saveChunkContent_def on_fs_def go_zoom_def os_WriteFile_def sys_def put_file_def go_bind_apply go_read_def go_modify_def ret_def
      demo_offer_def snap_free_def m1_def is_dir_def)
  then obtain m2 where 2: "mgr_RestoreChunk ref_env False [1, 2] m1 = Some (Inr (False, None), m2)" "sm_restoreSnapshot m2 = Some demo_offer"
      "sm_restoreChunkIndex m2 = 1"
    by (simp add: mgr_RestoreChunk_def accept_chunk_def go_bind_apply go_read_def poll_def on_snaps_def go_zoom_def send_index_def go_modify_def ret_def
      ref_env_def m1_def Let_def chunk_hashes_def demo_offer_def)
  show ?thesis
    using rtranclp.rtrancl_into_rtrancl [OF r_into_rtranclp [of "mgr_step ref_env", OF mgr_step.restore [OF 1]] mgr_step.restore_chunk [OF 2(1), of "[]"]] 2(2,3)
    by blast
qed

theorem snapshot_manager_invariant_witness:
  "\<exists>m :: (ref_db_state, string list, string \<times> bytes list) SnapManager. sm_restoreSnapshot m = Some demo_offer \<and> sm_restoreChunkIndex m = 1 \<and>
    length ([] :: long_op list) \<le> 1 \<and> ([] = ([] :: long_op list) \<longleftrightarrow> sm_operation m \<in> {opNone, opRestore}) \<and>
    (\<forall>sn. sm_restoreSnapshot m = Some sn \<longrightarrow> sm_operation m = opRestore \<and>
      unat (sm_restoreChunkIndex m) \<le> length (chunk_hashes sn) \<and>
      (\<forall>i < unat (sm_restoreChunkIndex m). \<exists>d. map_of (fs_files (ss_fs (sm_store m)))
         (PathChunk (en_dir ref_env) (sn_Height sn) (sn_Format sn) (word_of_nat i)) = Some d \<and> sha256 d = chunk_hashes sn ! i))"
proof -
  obtain m where m: "(mgr_step ref_env)\<^sup>*\<^sup>* (demo_manager, []) (m, [])" "sm_restoreSnapshot m = Some demo_offer" "sm_restoreChunkIndex m = 1"
    using demo_restoring by blast
  show ?thesis
    by (rule exI [of _ m], rule conjI, rule m(2), rule conjI, rule m(3), rule snapshot_manager_invariant [OF m(1) [unfolded demo_manager_def]])
qed

text \<open>C33. A restoration that cannot create its directory blocks the manager. \<open>Restore\<close> has begun the operation when it creates the directory and does not end
  it when that fails: after the error, and after any further calls, \<open>Prune\<close>, \<open>Restore\<close> and the start of \<open>Create\<close> report a conflict, and \<open>RestoreChunk\<close> dereferences
  a nil pointer.\<close>

theorem restore_without_directory_blocks:
  assumes "sm_operation m = opNone" "sm_restoreSnapshot m = None"
    and "sn_Chunks sn \<noteq> 0" "word_of_nat (length (chunk_hashes sn)) = sn_Chunks sn" "sn_Format sn = CurrentFormat" "sn_Height sn \<noteq> 0"
    and "unat (sn_Height sn) \<le> 2 ^ 63 - 1"
    and "fs_fault (ss_fs (sm_store m)) Sys_mkdir (pathSnapshot (en_dir env) (sn_Height sn) (sn_Format sn)) = Some e"
  shows "wp (mgr_Restore env sn) (\<lambda>r m1. r = Some (Err_os (ErrOS e) ''failed to create snapshot directory'') \<and>
    (\<forall>m2 ops. (mgr_step env)\<^sup>*\<^sup>* (m1, []) (m2, ops) \<longrightarrow>
      wp (mgr_Prune env retain) (\<lambda>r _. r = (0, Some (ErrConflict ''an operation is in progress''))) m2 \<and>
      wp (mgr_Restore env sn) (\<lambda>r _. r = Some (ErrConflict ''an operation is in progress'')) m2 \<and>
      wp (beginLocked opSnapshot) (\<lambda>r _. r = Some (ErrConflict ''an operation is in progress'')) m2 \<and>
      panics (mgr_RestoreChunk env ready chunk) (\<lambda>p _. p = nil_deref) m2)) m"
proof -
  let ?m = "m\<lparr>sm_operation := opRestore\<rparr>"
  have run: "mgr_Restore env sn m = Some (Inr (Some (Err_os (ErrOS e) ''failed to create snapshot directory'')), ?m)"
    using assms by (simp add: mgr_Restore_def go_bind_apply beginLocked_run on_snaps_def on_fs_def go_zoom_def os_MkdirAll_def sys_def go_read_def ret_def)
  have stuck: "stuck (m2, ops)" if "(mgr_step env)\<^sup>*\<^sup>* (?m, []) (m2, ops)" for m2 ops
    by (rule stuck_reach [OF that]) (use assms(2) in \<open>simp add: stuck_def\<close>)
  have busy: "wp (mgr_Prune env retain) (\<lambda>r _. r = (0, Some (ErrConflict ''an operation is in progress''))) m2 \<and>
      wp (mgr_Restore env sn) (\<lambda>r _. r = Some (ErrConflict ''an operation is in progress'')) m2 \<and>
      wp (beginLocked opSnapshot) (\<lambda>r _. r = Some (ErrConflict ''an operation is in progress'')) m2 \<and>
      panics (mgr_RestoreChunk env ready chunk) (\<lambda>p _. p = nil_deref) m2" if "stuck (m2, ops)" for m2 ops
    using that assms(3-7)
    by (auto simp: stuck_def wp_def panics_def mgr_Prune_def mgr_Restore_def mgr_RestoreChunk_def go_bind_apply beginLocked_run go_read_def ret_def go_panic_def)
  show ?thesis by (rule wp_SomeI, rule run) (use stuck busy in blast)
qed

definition demo_readonly :: "(ref_db_state, string list, string \<times> bytes list) SnapManager" where
  "demo_readonly = demo_manager\<lparr>sm_store := (sm_store demo_manager)\<lparr>ss_fs := \<lparr>fs_dirs = [], fs_files = [],
     fs_fault = (\<lambda>call _. if call = Sys_mkdir then Some ''read-only file system'' else None)\<rparr>\<rparr>\<rparr>"

theorem restore_without_directory_blocks_witness:
  "wp (mgr_Restore ref_env demo_offer) (\<lambda>r m1. r = Some (Err_os (ErrOS ''read-only file system'') ''failed to create snapshot directory'') \<and>
    (\<forall>m2 ops. (mgr_step ref_env)\<^sup>*\<^sup>* (m1, []) (m2, ops) \<longrightarrow>
      wp (mgr_Prune ref_env 1) (\<lambda>r _. r = (0, Some (ErrConflict ''an operation is in progress''))) m2 \<and>
      wp (mgr_Restore ref_env demo_offer) (\<lambda>r _. r = Some (ErrConflict ''an operation is in progress'')) m2 \<and>
      wp (beginLocked opSnapshot) (\<lambda>r _. r = Some (ErrConflict ''an operation is in progress'')) m2 \<and>
      panics (mgr_RestoreChunk ref_env True [1]) (\<lambda>p _. p = nil_deref) m2)) demo_readonly"
  by (rule restore_without_directory_blocks)
    (simp_all add: demo_readonly_def demo_manager_def snap_NewManager_def demo_offer_def chunk_hashes_def)

end
