(* ===== verification/Merkle.thy ===== *)
theory Merkle
  imports Sha256 "HOL-Library.Product_Lexorder" "HOL-Library.Multiset"
begin

text \<open>
  internal/tree/hash.go, internal/kv/kv.go and internal/maps/maps.go: Merkle trees over sorted maps. The packages tmhash and merkle of CometBFT are a parameter.
\<close>

section \<open>Trees\<close>

definition split_point :: "nat \<Rightarrow> nat" where
  "split_point n = (let k = 2 ^ (bits_Len n - 1) in if k = n then k div 2 else k)"

text \<open>Both packages tree and proofs have this function.\<close>

definition getSplitPoint :: "int \<Rightarrow> panic + int" where
  "getSplitPoint n = (if n < 1 then Inl (Panic_str ''Trying to split a tree with size < 1'') else Inr (int (split_point (nat n))))"

lemma split_point_bounds: "2 \<le> n \<Longrightarrow> 0 < split_point n \<and> split_point n < n"
proof -
  assume n: "2 \<le> n"
  define k where "k = (2::nat) ^ (bits_Len n - 1)"
  have k: "k \<le> n" "0 < k" using bits_Len_bounds [of n] n by (auto simp: k_def)
  have "k = n \<Longrightarrow> 0 < k div 2 \<and> k div 2 < n" using n by simp
  moreover have "split_point n = (if k = n then k div 2 else k)" by (simp only: split_point_def Let_def k_def)
  ultimately show "0 < split_point n \<and> split_point n < n" using k by auto
qed

lemma split_length:
  assumes "length items \<noteq> 0" "length items \<noteq> 1"
  shows "0 < split_point (length items)" "split_point (length items) < length items"
proof -
  have "2 \<le> length items" using assms by linarith
  then show "0 < split_point (length items)" "split_point (length items) < length items" using split_point_bounds by blast+
qed

definition leafPrefix :: bytes where
  "leafPrefix = [0]"

definition innerPrefix :: bytes where
  "innerPrefix = [1]"

definition leafHashOpt :: "bytes \<Rightarrow> bytes" where
  "leafHashOpt leaf = sha256 (leafPrefix @ leaf)"

definition innerHashOpt :: "bytes \<Rightarrow> bytes \<Rightarrow> bytes" where
  "innerHashOpt left right = sha256 (innerPrefix @ left @ right)"

definition emptyHash :: bytes where
  "emptyHash = sha256 []"

function hashFromByteSlices :: "bytes list \<Rightarrow> bytes" where
  "hashFromByteSlices items =
     (if length items = 0 then emptyHash
      else if length items = 1 then leafHashOpt (items ! 0)
      else let k = split_point (length items) in
        innerHashOpt (hashFromByteSlices (take k items)) (hashFromByteSlices (drop k items)))"
  by auto
termination
proof (relation "measure length", goal_cases)
  case (2 items k)
  then show ?case using split_length [of items] by simp
next
  case (3 items k)
  then show ?case using split_length [of items] by simp
qed simp

declare hashFromByteSlices.simps [simp del]

definition HashFromByteSlices :: "bytes list \<Rightarrow> bytes" where
  "HashFromByteSlices items = hashFromByteSlices items"

lemma length_hash [simp]: "length (hashFromByteSlices items) = 32"
  by (subst hashFromByteSlices.simps) (simp add: emptyHash_def leafHashOpt_def innerHashOpt_def Let_def)

subsection \<open>The trees of RFC 6962\<close>

text \<open>
  The standard takes for the left part of a tree of \<open>n\<close> leaves the largest power of two below \<open>n\<close>, and hashes leaves and inner nodes with different prefixes. This
  is what the package merkle of CometBFT implements, and what \<open>hashFromByteSlices\<close> is proved to compute.
\<close>

function rfc_split :: "nat \<Rightarrow> nat" where
  "rfc_split n = (if n \<le> 2 then 1 else 2 * rfc_split ((n + 1) div 2))"
  by auto
termination by (relation "measure id") auto

declare rfc_split.simps [simp del]

lemma rfc_split_largest: "2 \<le> n \<Longrightarrow> \<exists>e. rfc_split n = 2 ^ e \<and> 2 ^ e < n \<and> n \<le> 2 ^ Suc e"
proof (induction n rule: rfc_split.induct)
  case (1 n)
  show ?case
  proof (cases "n \<le> 2")
    case True
    then show ?thesis using 1(2) by (intro exI [of _ 0]) (simp add: rfc_split.simps)
  next
    case False
    have "2 \<le> (n + 1) div 2" using False by presburger
    then obtain e where e: "rfc_split ((n + 1) div 2) = 2 ^ e" "2 ^ e < (n + 1) div 2" "(n + 1) div 2 \<le> 2 ^ Suc e"
      using 1(1) [OF False] by blast
    have "2 * 2 ^ e < n" "n \<le> 2 * 2 ^ Suc e" using e(2,3) by linarith+
    then show ?thesis using False e(1) by (intro exI [of _ "Suc e"]) (simp add: rfc_split.simps [of n])
  qed
qed

lemma rfc_split_bounds: "2 \<le> n \<Longrightarrow> 0 < rfc_split n \<and> rfc_split n < n"
  using rfc_split_largest [of n] by auto

lemma power_bracket_unique:
  assumes "2 ^ a < (n :: nat)" "n \<le> 2 ^ Suc a" "2 ^ b < n" "n \<le> 2 ^ Suc b"
  shows "a = b"
proof -
  have "(2 :: nat) ^ a < 2 ^ Suc b" "(2 :: nat) ^ b < 2 ^ Suc a" using assms by linarith+
  then have "a < Suc b" "b < Suc a" by (simp_all only: power_strict_increasing_iff one_less_numeral_iff semiring_norm)
  then show ?thesis by simp
qed

lemma split_point_largest: "2 \<le> n \<Longrightarrow> \<exists>e. split_point n = 2 ^ e \<and> 2 ^ e < n \<and> n \<le> 2 ^ Suc e"
proof -
  assume n: "2 \<le> n"
  obtain b where b: "bits_Len n = Suc b" "2 ^ b \<le> n" "n < 2 ^ Suc b" using bits_Len_bounds [of n] n by (cases "bits_Len n") auto
  show ?thesis
  proof (cases "2 ^ b = n")
    case True
    then obtain c where c: "b = Suc c" using n by (cases b) auto
    then show ?thesis using True b by (intro exI [of _ c]) (auto simp: split_point_def Let_def)
  next
    case False
    then show ?thesis using b by (intro exI [of _ b]) (simp add: split_point_def Let_def)
  qed
qed

lemma split_point_rfc: "2 \<le> n \<Longrightarrow> split_point n = rfc_split n"
  using split_point_largest [of n] rfc_split_largest [of n] power_bracket_unique by metis

definition rfc_leaf :: "bytes \<Rightarrow> bytes" where
  "rfc_leaf d = sha256 (0 # d)"

definition rfc_node :: "bytes \<Rightarrow> bytes \<Rightarrow> bytes" where
  "rfc_node l r = sha256 (1 # l @ r)"

function rfc_root :: "bytes list \<Rightarrow> bytes" where
  "rfc_root items =
     (if items = [] then sha256 []
      else if length items = 1 then rfc_leaf (hd items)
      else rfc_node (rfc_root (take (rfc_split (length items)) items)) (rfc_root (drop (rfc_split (length items)) items)))"
  by auto
termination
proof (relation "measure length", goal_cases)
  case (2 items)
  then show ?case using rfc_split_bounds [of "length items"] by (cases items; cases "tl items") auto
next
  case (3 items)
  then show ?case using rfc_split_bounds [of "length items"] by (cases items; cases "tl items") auto
qed simp

declare rfc_root.simps [simp del]

lemma length_rfc_root [simp]: "length (rfc_root items) = 32"
  by (subst rfc_root.simps) (simp add: rfc_leaf_def rfc_node_def)

lemma hashFromByteSlices_rfc: "hashFromByteSlices items = rfc_root items"
proof (induction items rule: hashFromByteSlices.induct)
  case (1 items)
  show ?case
  proof (cases "length items < 2")
    case True
    then consider "items = []" | "length items = 1" by (cases items; cases "tl items") auto
    then show ?thesis
    proof cases
      case 1
      then show ?thesis by (simp add: hashFromByteSlices.simps rfc_root.simps emptyHash_def)
    next
      case 2
      then obtain d where "items = [d]" by (cases items) auto
      then show ?thesis by (simp add: hashFromByteSlices.simps rfc_root.simps leafHashOpt_def leafPrefix_def rfc_leaf_def)
    qed
  next
    case False
    then have "2 \<le> length items" by simp
    then have "length items \<noteq> 0" "length items \<noteq> 1" "items \<noteq> []" "split_point (length items) = rfc_split (length items)"
      using split_point_rfc by auto
    then show ?thesis
      using 1 by (simp add: hashFromByteSlices.simps [of items] rfc_root.simps [of items] Let_def innerHashOpt_def innerPrefix_def rfc_node_def)
  qed
qed

section \<open>Pairs\<close>

text \<open>The order of \<open>Less\<close> is that of keys and, for equal keys, of values.\<close>

type_synonym kv_pair = "bytes \<times> bytes"

definition Pairs_Less :: "kv_pair \<Rightarrow> kv_pair \<Rightarrow> panic + bool" where
  "Pairs_Less a b =
     (let c = bytes_Compare (fst a) (fst b) in
      if c = -1 then Inr True
      else if c = 0 then Inr (bytes_Compare (snd a) (snd b) < 0)
      else if c = 1 then Inr False
      else Inl (Panic_str ''invalid comparison result''))"

definition Pairs_Sort :: "kv_pair list \<Rightarrow> kv_pair list" where
  "Pairs_Sort kvs = sort kvs"

lemma Pairs_Less_iff: "Pairs_Less a b = Inr (a < b)"
  by (cases a; cases b) (auto simp: Pairs_Less_def Let_def bytes_Compare_def)

text \<open>\<open>binary.PutUvarint\<close> of the standard library.\<close>

function PutUvarint :: "nat \<Rightarrow> bytes" where
  "PutUvarint n = (if n < 128 then [word_of_nat n] else word_of_nat (n mod 128 + 128) # PutUvarint (n div 128))"
  by auto
termination by (relation "measure id") auto

declare PutUvarint.simps [simp del]

definition KVPair_Bytes :: "kv_pair \<Rightarrow> bytes" where
  "KVPair_Bytes kv = PutUvarint (length (fst kv)) @ fst kv @ PutUvarint (length (snd kv)) @ snd kv"

section \<open>Maps\<close>

text \<open>
  A proof of CometBFT's package merkle: the number of leaves, the index of one, its hash, and the hashes from its sibling to a child of the root. \<open>cm_Proofs\<close> is
  \<open>merkle.ProofsFromByteSlices\<close> followed by \<open>ToProto\<close>, \<open>cm_tmhash\<close> is \<open>tmhash.Sum\<close>.
\<close>

record MerkleProof =
  mp_Total :: int
  mp_Index :: int
  mp_LeafHash :: bytes
  mp_Aunts :: "bytes list"

record cmt_merkle =
  cm_tmhash :: "bytes \<Rightarrow> bytes"
  cm_Proofs :: "bytes list \<Rightarrow> bytes \<times> MerkleProof list"

record merkleMap =
  mm_kvs :: "kv_pair list"
  mm_sorted :: bool

definition newMerkleMap :: merkleMap where
  "newMerkleMap = \<lparr>mm_kvs = [], mm_sorted = False\<rparr>"

definition merkle_assertValidKey :: "bytes \<Rightarrow> (merkleMap, unit) go" where
  "merkle_assertValidKey key = (if length key = 0 then go_panic (Panic_str ''key is nil'') else ret ())"

text \<open>The types \<open>merkleMap\<close> and \<open>simpleMap\<close> of the package have the same fields and the same code for setting and sorting.\<close>

definition mm_set :: "cmt_merkle \<Rightarrow> bytes \<Rightarrow> slice \<Rightarrow> (merkleMap, unit) go" where
  "mm_set M key value =
     go_bind (merkle_assertValidKey key) (\<lambda>_.
     go_modify (\<lambda>sm. sm\<lparr>mm_sorted := False, mm_kvs := mm_kvs sm @ [(key, cm_tmhash M (bs value))]\<rparr>))"

definition mm_sort :: "(merkleMap, unit) go" where
  "mm_sort = go_modify (\<lambda>sm. if mm_sorted sm then sm else sm\<lparr>mm_kvs := Pairs_Sort (mm_kvs sm), mm_sorted := True\<rparr>)"

definition hashKVPairs :: "kv_pair list \<Rightarrow> bytes" where
  "hashKVPairs kvs = HashFromByteSlices (map KVPair_Bytes kvs)"

definition mm_hash :: "(merkleMap, bytes) go" where
  "mm_hash = go_bind mm_sort (\<lambda>_. go_read (\<lambda>sm. hashKVPairs (mm_kvs sm)))"

definition KVPairs :: "(merkleMap, kv_pair list) go" where
  "KVPairs = go_bind mm_sort (\<lambda>_. go_read mm_kvs)"

text \<open>
  A Go map is the list of its entries in the order of an iteration over it. A function that works on a map of its own returns its result or panics.
\<close>

definition on_map :: "(merkleMap, 'a) go \<Rightarrow> panic + 'a" where
  "on_map m = fst (the (m newMerkleMap))"

definition HashFromMap :: "cmt_merkle \<Rightarrow> (bytes \<times> slice) list \<Rightarrow> panic + bytes" where
  "HashFromMap M m = on_map (go_bind (go_for m (\<lambda>(k, v). mm_set M k v)) (\<lambda>_. mm_hash))"

definition ProofsFromMap :: "cmt_merkle \<Rightarrow> (bytes \<times> slice) list \<Rightarrow> panic + (bytes \<times> (bytes \<times> MerkleProof) list \<times> bytes list)" where
  "ProofsFromMap M m = on_map
     (go_bind (go_for m (\<lambda>(k, v). mm_set M k v)) (\<lambda>_.
      go_bind mm_sort (\<lambda>_.
      go_bind (go_read mm_kvs) (\<lambda>kvs.
      let r = cm_Proofs M (map KVPair_Bytes kvs); proofList = snd r in
      if length proofList < length kvs then go_panic (Panic_runtime ''index out of range'')
      else ret (fst r, zip (map fst kvs) proofList, map fst kvs @ replicate (length proofList - length kvs) [])))))"

section \<open>The leaves of a map\<close>

definition leaves :: "cmt_merkle \<Rightarrow> (bytes \<times> slice) list \<Rightarrow> kv_pair list" where
  "leaves M m = sort (map (\<lambda>(k, v). (k, cm_tmhash M (bs v))) m)"

lemma mm_sets_run:
  assumes "[] \<notin> fst ` set m"
  shows "go_for m (\<lambda>(k, v). mm_set M k v) sm = Some (Inr (), sm\<lparr>mm_kvs := mm_kvs sm @ map (\<lambda>(k, v). (k, cm_tmhash M (bs v))) m,
    mm_sorted := mm_sorted sm \<and> m = []\<rparr>)"
  using assms
proof (induction m arbitrary: sm)
  case Nil
  then show ?case by (simp add: ret_def)
next
  case (Cons e m)
  obtain k v where e: "e = (k, v)" by fastforce
  define sm1 where "sm1 = sm\<lparr>mm_sorted := False, mm_kvs := mm_kvs sm @ [(k, cm_tmhash M (bs v))]\<rparr>"
  have "mm_set M k v sm = Some (Inr (), sm1)"
    using Cons.prems e by (auto simp: mm_set_def merkle_assertValidKey_def go_modify_def sm1_def)
  then show ?case using Cons.IH [of sm1] Cons.prems e by (simp add: go_bind_apply sm1_def)
qed

lemma sorted_leaves_run:
  assumes "[] \<notin> fst ` set m"
  shows "go_bind (go_for m (\<lambda>(k, v). mm_set M k v)) (\<lambda>_. go_bind mm_sort f) newMerkleMap = f () \<lparr>mm_kvs = leaves M m, mm_sorted = True\<rparr>"
  using mm_sets_run [OF assms, of M newMerkleMap]
  by (simp add: go_bind_apply mm_sort_def go_modify_def newMerkleMap_def leaves_def Pairs_Sort_def)

lemma HashFromMap_run: "[] \<notin> fst ` set m \<Longrightarrow> HashFromMap M m = Inr (hashFromByteSlices (map KVPair_Bytes (leaves M m)))"
  by (simp add: HashFromMap_def on_map_def mm_hash_def sorted_leaves_run go_read_def hashKVPairs_def HashFromByteSlices_def)

text \<open>The order of the iteration does not matter.\<close>

lemma leaves_perm: "mset m = mset m' \<Longrightarrow> leaves M m = leaves M m'"
  unfolding leaves_def sorted_list_of_multiset_mset [symmetric] mset_map by simp

end
