(* ===== verification/Merkle_Proofs.thy ===== *)
theory Merkle_Proofs
  imports Merkle Ref_Libs
begin

text \<open>
  internal/proofs/convert.go and create.go, types/proof.go, types/commit_info.go and rootmulti/proof.go: existence and non-existence proofs in the form of ICS-23, and the
  proof that a store is part of a commit. The data of ICS-23 are declared as far as the code builds them; its verification is a parameter.
\<close>

section \<open>Proofs of ICS-23\<close>

datatype HashOp = NO_HASH | HashOp_SHA256

datatype LengthOp = NO_PREFIX | VAR_PROTO

record LeafOp =
  lo_Hash :: HashOp
  lo_PrehashKey :: HashOp
  lo_PrehashValue :: HashOp
  lo_Length :: LengthOp
  lo_Prefix :: bytes

record InnerOp =
  io_Hash :: HashOp
  io_Prefix :: bytes
  io_Suffix :: bytes

record ExistenceProof =
  ep_Key :: bytes
  ep_Value :: slice
  ep_Leaf :: LeafOp
  ep_Path :: "InnerOp list"

datatype CommitmentProof =
    CommitmentProof_Exist ExistenceProof
  | CommitmentProof_Nonexist bytes "ExistenceProof option" "ExistenceProof option"

text \<open>
  What a proof of existence proves, by the specification of ICS-23: the leaf is the hash of the prefix, the key and the value, hashed first and
  preceded by their lengths as the leaf operation says, and each inner operation hashes its prefix, the hash so far and its suffix. Keys and values are not empty.
\<close>

definition do_hash :: "HashOp \<Rightarrow> bytes \<Rightarrow> bytes" where
  "do_hash h data = (case h of NO_HASH \<Rightarrow> data | HashOp_SHA256 \<Rightarrow> sha256 data)"

definition do_length :: "LengthOp \<Rightarrow> bytes \<Rightarrow> bytes" where
  "do_length l data = (case l of NO_PREFIX \<Rightarrow> data | VAR_PROTO \<Rightarrow> PutUvarint (length data) @ data)"

definition apply_leaf :: "LeafOp \<Rightarrow> bytes \<Rightarrow> bytes \<Rightarrow> bytes" where
  "apply_leaf leaf k v = do_hash (lo_Hash leaf) (lo_Prefix leaf @
     do_length (lo_Length leaf) (do_hash (lo_PrehashKey leaf) k) @ do_length (lo_Length leaf) (do_hash (lo_PrehashValue leaf) v))"

definition apply_inner :: "InnerOp \<Rightarrow> bytes \<Rightarrow> bytes" where
  "apply_inner inner child = do_hash (io_Hash inner) (io_Prefix inner @ child @ io_Suffix inner)"

definition proof_root :: "ExistenceProof \<Rightarrow> bytes option" where
  "proof_root p = (if ep_Key p = [] \<or> bs (ep_Value p) = [] then None
     else Some (fold apply_inner (ep_Path p) (apply_leaf (ep_Leaf p) (ep_Key p) (bs (ep_Value p)))))"

section \<open>Conversion\<close>

text \<open>The split point is taken of a n of at least 2, where it does not panic.\<close>

function buildPath :: "int \<Rightarrow> int \<Rightarrow> bool list" where
  "buildPath idx n =
     (if n < 2 then []
      else let numLeft = int (split_point (nat n)); goLeft = idx < numLeft in
        if goLeft then buildPath idx numLeft @ [goLeft]
        else buildPath (idx - numLeft) (n - numLeft) @ [goLeft])"
  by auto
termination
proof (relation "measure (nat \<circ> snd)", goal_cases)
  case (2 idx n numLeft goLeft)
  then show ?case using split_point_bounds [of "nat n"] by simp
next
  case (3 idx n numLeft goLeft)
  then show ?case using split_point_bounds [of "nat n"] by simp
qed simp

declare buildPath.simps [simp del]

definition convertLeafOp :: LeafOp where
  "convertLeafOp = \<lparr>lo_Hash = HashOp_SHA256, lo_PrehashKey = NO_HASH, lo_PrehashValue = HashOp_SHA256, lo_Length = VAR_PROTO, lo_Prefix = [0]\<rparr>"

definition inner_op :: "bytes \<Rightarrow> bool \<Rightarrow> InnerOp" where
  "inner_op aunt auntRight =
     (if auntRight then \<lparr>io_Hash = HashOp_SHA256, io_Prefix = [1], io_Suffix = aunt\<rparr>
      else \<lparr>io_Hash = HashOp_SHA256, io_Prefix = [1] @ aunt, io_Suffix = []\<rparr>)"

definition convertInnerOps :: "MerkleProof \<Rightarrow> string + InnerOp list" where
  "convertInnerOps p =
     (let path = buildPath (mp_Index p) (mp_Total p) in
      if length (mp_Aunts p) \<noteq> length path then Inl ''calculated a path different length than provided by SimpleProof''
      else Inr (map2 inner_op (mp_Aunts p) path))"

definition ConvertExistenceProof :: "MerkleProof \<Rightarrow> bytes \<Rightarrow> slice \<Rightarrow> string + ExistenceProof" where
  "ConvertExistenceProof p k v =
     (case convertInnerOps p of Inl err \<Rightarrow> Inl err
      | Inr path \<Rightarrow> Inr \<lparr>ep_Key = k, ep_Value = v, ep_Leaf = convertLeafOp, ep_Path = path\<rparr>)"

section \<open>The proofs of a tree\<close>

text \<open>The hashes from the sibling of a leaf to a child of the root, which is what a proof of package merkle holds.\<close>

function aunts_of :: "nat \<Rightarrow> bytes list \<Rightarrow> bytes list" where
  "aunts_of i items =
     (if length items < 2 then []
      else let k = rfc_split (length items) in
        if i < k then aunts_of i (take k items) @ [rfc_root (drop k items)]
        else aunts_of (i - k) (drop k items) @ [rfc_root (take k items)])"
  by auto
termination
proof (relation "measure (length \<circ> snd)", goal_cases)
  case (2 i items k)
  then show ?case using rfc_split_bounds [of "length items"] by simp
next
  case (3 i items k)
  then show ?case using rfc_split_bounds [of "length items"] by (simp, linarith)
qed simp

declare aunts_of.simps [simp del]

text \<open>
  What the packages of CometBFT promise, in terms of RFC 6962 and not of this repository's code: \<open>tmhash\<close> is SHA-256, the root is that of the standard, and the proofs
  have the siblings.
\<close>

definition merkle_ok :: "cmt_merkle \<Rightarrow> bool" where
  "merkle_ok M \<longleftrightarrow> cm_tmhash M = sha256 \<and> (\<forall>items. cm_Proofs M items = (rfc_root items,
     map (\<lambda>i. \<lparr>mp_Total = int (length items), mp_Index = int i, mp_LeafHash = rfc_leaf (items ! i), mp_Aunts = aunts_of i items\<rparr>) [0..<length items]))"

lemma apply_inner_op: "apply_inner (inner_op aunt True) c = rfc_node c aunt" "apply_inner (inner_op aunt False) c = rfc_node aunt c"
  by (simp_all add: inner_op_def apply_inner_def do_hash_def rfc_node_def)

text \<open>The path that the conversion computes has the aunts of the proof on the right sides.\<close>

lemma converted_path:
  assumes "i < length items"
  shows "length (buildPath (int i) (int (length items))) = length (aunts_of i items) \<and>
    fold apply_inner (map2 inner_op (aunts_of i items) (buildPath (int i) (int (length items)))) (rfc_leaf (items ! i)) = rfc_root items"
  using assms
proof (induction i items rule: aunts_of.induct)
  case (1 i items)
  show ?case
  proof (cases "length items < 2")
    case True
    then obtain d where "items = [d]" "i = 0" using 1(3) by (cases items; cases "tl items") auto
    then show ?thesis by (simp add: aunts_of.simps buildPath.simps rfc_root.simps)
  next
    case False
    define k where "k = rfc_split (length items)"
    have split: "split_point (length items) = k" using split_point_rfc False by (simp add: k_def)
    have k: "0 < k" "k < length items" using rfc_split_bounds [of "length items"] False by (simp_all add: k_def)
    have hash: "rfc_root items = rfc_node (rfc_root (take k items)) (rfc_root (drop k items))"
      using False by (subst rfc_root.simps) (auto simp: k_def Let_def)
    show ?thesis
    proof (cases "i < k")
      case True
      have ih: "length (buildPath (int i) (int k)) = length (aunts_of i (take k items))"
          "fold apply_inner (map2 inner_op (aunts_of i (take k items)) (buildPath (int i) (int k))) (rfc_leaf (items ! i)) = rfc_root (take k items)"
        using 1(1) [OF False k_def True] True k by (simp_all add: min_def)
      have "buildPath (int i) (int (length items)) = buildPath (int i) (int k) @ [True]"
        using False True by (subst buildPath.simps) (simp add: split Let_def)
      moreover have "aunts_of i items = aunts_of i (take k items) @ [rfc_root (drop k items)]"
        using False True by (subst aunts_of.simps) (simp add: k_def Let_def)
      ultimately show ?thesis
        using ih hash by (simp add: apply_inner_op)
    next
      case right: False
      have ih: "length (buildPath (int (i - k)) (int (length items - k))) = length (aunts_of (i - k) (drop k items))"
          "fold apply_inner (map2 inner_op (aunts_of (i - k) (drop k items)) (buildPath (int (i - k)) (int (length items - k)))) (rfc_leaf (items ! i)) =
            rfc_root (drop k items)"
        using 1(2) [OF False k_def right] right k 1(3) by simp_all
      have "buildPath (int i) (int (length items)) = buildPath (int (i - k)) (int (length items - k)) @ [False]"
        using False right k by (subst buildPath.simps) (simp add: split Let_def of_nat_diff)
      moreover have "aunts_of i items = aunts_of (i - k) (drop k items) @ [rfc_root (take k items)]"
        using False right by (subst aunts_of.simps) (simp add: k_def Let_def)
      ultimately show ?thesis
        using ih hash by (simp add: apply_inner_op)
    qed
  qed
qed

section \<open>Creating proofs\<close>

definition has_key :: "(bytes \<times> slice) list \<Rightarrow> bytes \<Rightarrow> bool" where
  "has_key data k \<longleftrightarrow> map_of data k \<noteq> None"

definition createExistenceProof :: "cmt_merkle \<Rightarrow> (bytes \<times> slice) list \<Rightarrow> bytes \<Rightarrow> panic + (string + ExistenceProof)" where
  "createExistenceProof M data k =
     (if [] \<in> fst ` set data then Inr (Inl ''data contains empty key'')
      else case map_of data k of None \<Rightarrow> Inr (Inl ''cannot make existence proof if key is not in map'')
      | Some v \<Rightarrow> (case ProofsFromMap M data of Inl p \<Rightarrow> Inl p
        | Inr (_, proofs, _) \<Rightarrow> (case map_of proofs k of None \<Rightarrow> Inr (Inl ''returned no proof for key'')
            | Some pf \<Rightarrow> Inr (ConvertExistenceProof pf k v))))"

definition CreateMembershipProof :: "cmt_merkle \<Rightarrow> (bytes \<times> slice) list \<Rightarrow> bytes \<Rightarrow> panic + (string + CommitmentProof)" where
  "CreateMembershipProof M data k =
     (if k = [] then Inr (Inl ''key is empty'')
      else map_sum id (map_sum id CommitmentProof_Exist) (createExistenceProof M data k))"

definition SortedKeys :: "(bytes \<times> slice) list \<Rightarrow> bytes list" where
  "SortedKeys data = sort (map fst data)"

text \<open>\<open>sort.SearchStrings\<close> of the standard library: the first index whose string is not below the given one.\<close>

definition SearchStrings :: "bytes list \<Rightarrow> bytes \<Rightarrow> nat" where
  "SearchStrings xs x = length (takeWhile (\<lambda>y. y < x) xs)"

text \<open>An existence proof for a neighbour, when there is one.\<close>

definition neighbour_proof :: "cmt_merkle \<Rightarrow> (bytes \<times> slice) list \<Rightarrow> bool \<Rightarrow> bytes \<Rightarrow> panic + (string + ExistenceProof option)" where
  "neighbour_proof M data present k = (if present then map_sum id (map_sum id Some) (createExistenceProof M data k) else Inr (Inr None))"

definition CreateNonMembershipProof :: "cmt_merkle \<Rightarrow> (bytes \<times> slice) list \<Rightarrow> bytes \<Rightarrow> panic + (string + CommitmentProof)" where
  "CreateNonMembershipProof M data k =
     (if k = [] then Inr (Inl ''key is empty'')
      else if has_key data k then Inr (Inl ''cannot create non-membership proof if key is in map'')
      else let keys = SortedKeys data; rightidx = SearchStrings keys k in
        case neighbour_proof M data (rightidx \<ge> 1) (keys ! (rightidx - 1)) of
          Inl p \<Rightarrow> Inl p | Inr (Inl err) \<Rightarrow> Inr (Inl err)
        | Inr (Inr left) \<Rightarrow> (case neighbour_proof M data (rightidx < length keys) (keys ! rightidx) of
            Inl p \<Rightarrow> Inl p | Inr (Inl err) \<Rightarrow> Inr (Inl err)
          | Inr (Inr right) \<Rightarrow> Inr (Inr (CommitmentProof_Nonexist k left right))))"

definition CalcRoot :: "cmt_merkle \<Rightarrow> (bytes \<times> slice) list \<Rightarrow> panic + bytes" where
  "CalcRoot M data = map_sum id fst (ProofsFromMap M data)"

section \<open>Commit information\<close>

record StoreInfo =
  si_Name :: bytes
  si_CommitId :: CommitID

text \<open>The time stamp is that of the block header, in nanoseconds.\<close>

record CommitInfo =
  cinfo_Version :: "64 word"
  cinfo_StoreInfos :: "StoreInfo list"
  cinfo_Timestamp :: int

definition StoreInfo_GetHash :: "StoreInfo \<Rightarrow> slice" where
  "StoreInfo_GetHash si = ci_Hash (si_CommitId si)"

definition toMap :: "CommitInfo \<Rightarrow> (bytes \<times> slice) list" where
  "toMap ci = fold (\<lambda>storeInfo m. AList.update (si_Name storeInfo) (StoreInfo_GetHash storeInfo) m) (cinfo_StoreInfos ci) []"

definition CommitInfo_Hash :: "cmt_merkle \<Rightarrow> CommitInfo \<Rightarrow> panic + bytes" where
  "CommitInfo_Hash M ci =
     (if cinfo_StoreInfos ci = [] then Inr (sha256 [])
      else case ProofsFromMap M (toMap ci) of Inl p \<Rightarrow> Inl p
        | Inr (rootHash, _, _) \<Rightarrow> Inr (if length rootHash = 0 then sha256 [] else rootHash))"

definition CommitInfo_CommitID :: "cmt_merkle \<Rightarrow> CommitInfo \<Rightarrow> panic + CommitID" where
  "CommitInfo_CommitID M ci = map_sum id (\<lambda>h. \<lparr>ci_Version = cinfo_Version ci, ci_Hash = Some h\<rparr>) (CommitInfo_Hash M ci)"

section \<open>Proof operators\<close>

definition ProofOpIAVLCommitment :: string where
  "ProofOpIAVLCommitment = ''ics23:iavl''"

definition ProofOpSimpleMerkleCommitment :: string where
  "ProofOpSimpleMerkleCommitment = ''ics23:simple''"

definition ProofOpSMTCommitment :: string where
  "ProofOpSMTCommitment = ''ics23:smt''"

text \<open>The specifications that ICS-23 defines, and its functions.\<close>

datatype ProofSpec = IavlSpec | TendermintSpec | SmtSpec

record ics23_lib =
  ic_Marshal :: "CommitmentProof \<Rightarrow> string + bytes"
  ic_Unmarshal :: "bytes \<Rightarrow> string + CommitmentProof"
  ic_Calculate :: "CommitmentProof \<Rightarrow> string + bytes"
  ic_VerifyMembership :: "ProofSpec \<Rightarrow> bytes \<Rightarrow> CommitmentProof \<Rightarrow> bytes \<Rightarrow> slice \<Rightarrow> bool"
  ic_VerifyNonMembership :: "ProofSpec \<Rightarrow> bytes \<Rightarrow> CommitmentProof \<Rightarrow> bytes \<Rightarrow> bool"

record ProofOp =
  po_Type :: string
  po_Key :: bytes
  po_Data :: bytes

record CommitmentOp =
  co_Type :: string
  co_Spec :: ProofSpec
  co_Key :: bytes
  co_Proof :: CommitmentProof

definition NewIavlCommitmentOp :: "bytes \<Rightarrow> CommitmentProof \<Rightarrow> CommitmentOp" where
  "NewIavlCommitmentOp k pf = \<lparr>co_Type = ProofOpIAVLCommitment, co_Spec = IavlSpec, co_Key = k, co_Proof = pf\<rparr>"

definition NewSimpleMerkleCommitmentOp :: "bytes \<Rightarrow> CommitmentProof \<Rightarrow> CommitmentOp" where
  "NewSimpleMerkleCommitmentOp k pf = \<lparr>co_Type = ProofOpSimpleMerkleCommitment, co_Spec = TendermintSpec, co_Key = k, co_Proof = pf\<rparr>"

definition NewSmtCommitmentOp :: "bytes \<Rightarrow> CommitmentProof \<Rightarrow> CommitmentOp" where
  "NewSmtCommitmentOp k pf = \<lparr>co_Type = ProofOpSMTCommitment, co_Spec = SmtSpec, co_Key = k, co_Proof = pf\<rparr>"

definition CommitmentOpDecoder :: "ics23_lib \<Rightarrow> ProofOp \<Rightarrow> string + CommitmentOp" where
  "CommitmentOpDecoder L pop =
     (let spec = (if po_Type pop = ProofOpIAVLCommitment then Some IavlSpec
                  else if po_Type pop = ProofOpSimpleMerkleCommitment then Some TendermintSpec
                  else if po_Type pop = ProofOpSMTCommitment then Some SmtSpec else None) in
      case spec of None \<Rightarrow> Inl ''unexpected ProofOp.Type''
      | Some sp \<Rightarrow> (case ic_Unmarshal L (po_Data pop) of Inl err \<Rightarrow> Inl err
          | Inr pf \<Rightarrow> Inr \<lparr>co_Type = po_Type pop, co_Spec = sp, co_Key = po_Key pop, co_Proof = pf\<rparr>))"

definition CommitmentOp_Run :: "ics23_lib \<Rightarrow> CommitmentOp \<Rightarrow> slice list \<Rightarrow> string + bytes list" where
  "CommitmentOp_Run L op args =
     (case ic_Calculate L (co_Proof op) of Inl err \<Rightarrow> Inl ''could not calculate root for proof''
      | Inr root \<Rightarrow>
          if length args = 0 then
            (if \<not> ic_VerifyNonMembership L (co_Spec op) root (co_Proof op) (co_Key op) then Inl ''proof did not verify absence of key'' else Inr [root])
          else if length args = 1 then
            (if \<not> ic_VerifyMembership L (co_Spec op) root (co_Proof op) (co_Key op) (args ! 0) then Inl ''proof did not verify existence of key'' else Inr [root])
          else Inl ''args must be length 0 or 1'')"

definition CommitmentOp_ProofOp :: "ics23_lib \<Rightarrow> CommitmentOp \<Rightarrow> panic + ProofOp" where
  "CommitmentOp_ProofOp L op =
     (case ic_Marshal L (co_Proof op) of Inl err \<Rightarrow> Inl (Panic_str err)
      | Inr bz \<Rightarrow> Inr \<lparr>po_Type = co_Type op, po_Key = co_Key op, po_Data = bz\<rparr>)"

definition ProofOpFromMap :: "cmt_merkle \<Rightarrow> ics23_lib \<Rightarrow> (bytes \<times> slice) list \<Rightarrow> bytes \<Rightarrow> panic + (string + ProofOp)" where
  "ProofOpFromMap M L cmap storeName =
     (case ProofsFromMap M cmap of Inl p \<Rightarrow> Inl p
      | Inr (_, proofs, _) \<Rightarrow> (case map_of proofs storeName of None \<Rightarrow> Inr (Inl ''ProofOp for a store name that is not registered'')
          | Some pf \<Rightarrow> (case ConvertExistenceProof pf storeName (case map_of cmap storeName of None \<Rightarrow> None | Some v \<Rightarrow> v) of
              Inl err \<Rightarrow> Inr (Inl ''could not convert simple proof to existence proof'')
            | Inr existProof \<Rightarrow>
                map_sum id Inr (CommitmentOp_ProofOp L (NewSimpleMerkleCommitmentOp storeName (CommitmentProof_Exist existProof))))))"

definition CommitInfo_ProofOp :: "cmt_merkle \<Rightarrow> ics23_lib \<Rightarrow> CommitInfo \<Rightarrow> bytes \<Rightarrow> panic + ProofOp" where
  "CommitInfo_ProofOp M L ci storeName =
     (case ProofOpFromMap M L (toMap ci) storeName of Inl p \<Rightarrow> Inl p | Inr (Inl err) \<Rightarrow> Inl (Panic_err err) | Inr (Inr r) \<Rightarrow> Inr r)"

definition RequireProof :: "string \<Rightarrow> bool" where
  "RequireProof subpath \<longleftrightarrow> subpath = ''/key''"

text \<open>The decoders that the proof runtime of CometBFT is given, by type.\<close>

definition DefaultProofRuntime :: "ics23_lib \<Rightarrow> (string \<times> (ProofOp \<Rightarrow> string + CommitmentOp)) list" where
  "DefaultProofRuntime L = [(ProofOpIAVLCommitment, CommitmentOpDecoder L), (ProofOpSimpleMerkleCommitment, CommitmentOpDecoder L)]"

section \<open>Existence proofs prove\<close>

lemma ProofsFromMap_run:
  assumes "merkle_ok M" "[] \<notin> fst ` set m"
  defines "items \<equiv> map KVPair_Bytes (leaves M m)"
  shows "ProofsFromMap M m = Inr (rfc_root items, zip (map fst (leaves M m)) (map (\<lambda>i. \<lparr>mp_Total = int (length items), mp_Index = int i,
    mp_LeafHash = rfc_leaf (items ! i), mp_Aunts = aunts_of i items\<rparr>) [0..<length items]), map fst (leaves M m))"
  using assms(1)
  by (simp add: ProofsFromMap_def on_map_def sorted_leaves_run [OF assms(2)] go_bind_read Let_def merkle_ok_def items_def ret_def)

lemma keys_leaves: "map fst (leaves M m) = sort (map fst m)"
proof (rule sym, rule properties_for_sort)
  show "sorted (map fst (leaves M m))"
  proof -
    have "sorted (leaves M m)" by (simp add: leaves_def)
    then have "sorted_wrt (\<lambda>x y. fst x \<le> fst y) (leaves M m)"
      by (rule sorted_wrt_mono_rel [rotated]) (auto simp: less_eq_prod_def)
    then show ?thesis by (simp add: sorted_wrt_map)
  qed
  show "mset (map fst (leaves M m)) = mset (map fst m)" by (simp add: leaves_def image_mset.compositionality comp_def case_prod_beta)
qed

lemma leaf_of_key:
  assumes "merkle_ok M" "distinct (map fst m)" "(k, v) \<in> set m"
  obtains i where "i < length (leaves M m)" "leaves M m ! i = (k, sha256 (bs v))"
proof -
  have "(k, sha256 (bs v)) \<in> set (leaves M m)" using assms(1,3) by (force simp: leaves_def merkle_ok_def)
  then show ?thesis using that by (metis in_set_conv_nth)
qed

text \<open>The conditions that the Tendermint specification of ICS-23 puts on the operations of a proof.\<close>

definition conforms :: "ExistenceProof \<Rightarrow> bool" where
  "conforms p \<longleftrightarrow> ep_Leaf p = convertLeafOp \<and> (\<forall>inner \<in> set (ep_Path p). io_Hash inner = HashOp_SHA256 \<and> take 1 (io_Prefix inner) \<noteq> [0] \<and>
     1 \<le> length (io_Prefix inner) \<and> length (io_Prefix inner) \<le> 33 \<and> length (io_Suffix inner) mod 32 = 0)"

lemma length_aunts: "a \<in> set (aunts_of i items) \<Longrightarrow> length a = 32"
proof (induction i items rule: aunts_of.induct)
  case (1 i items)
  then show ?case by (subst (asm) (3) aunts_of.simps) (auto simp: Let_def split: if_splits)
qed

text \<open>An existence proof made from a map proves, for its key and value, the root of the map.\<close>

lemma existence_proof_run:
  assumes M: "merkle_ok M" and m: "[] \<notin> fst ` set m" "distinct (map fst m)" and kv: "(k, v) \<in> set m" and v: "bs v \<noteq> []"
  shows "\<exists>pf p keys root. ProofsFromMap M m = Inr (root, pf, keys) \<and> root = rfc_root (map KVPair_Bytes (leaves M m)) \<and>
    (\<exists>x. map_of pf k = Some x \<and> ConvertExistenceProof x k v = Inr p) \<and>
    ep_Key p = k \<and> ep_Value p = v \<and> proof_root p = Some root \<and> conforms p"
proof -
  define items where "items = map KVPair_Bytes (leaves M m)"
  obtain i where i: "i < length (leaves M m)" "leaves M m ! i = (k, sha256 (bs v))" using leaf_of_key [OF M m(2) kv] by blast
  define x where "x = \<lparr>mp_Total = int (length items), mp_Index = int i, mp_LeafHash = rfc_leaf (items ! i), mp_Aunts = aunts_of i items\<rparr>"
  define pf where "pf = zip (map fst (leaves M m)) (map (\<lambda>i. \<lparr>mp_Total = int (length items), mp_Index = int i,
    mp_LeafHash = rfc_leaf (items ! i), mp_Aunts = aunts_of i items\<rparr>) [0..<length items])"
  have run: "ProofsFromMap M m = Inr (rfc_root items, pf, map fst (leaves M m))"
    unfolding pf_def items_def by (rule ProofsFromMap_run [OF M m(1)])
  have len: "length items = length (leaves M m)" by (simp add: items_def)
  have "distinct (map fst (leaves M m))" using m(2) by (simp add: keys_leaves)
  moreover have "pf ! i = (k, x)" "i < length pf" using i len by (simp_all add: pf_def x_def)
  then have "(k, x) \<in> set pf" by (metis nth_mem)
  moreover have "map fst pf = map fst (leaves M m)" by (simp add: pf_def len)
  ultimately have found: "map_of pf k = Some x" by simp
  have path: "length (buildPath (int i) (int (length items))) = length (aunts_of i items)"
      "fold apply_inner (map2 inner_op (aunts_of i items) (buildPath (int i) (int (length items)))) (rfc_leaf (items ! i)) = rfc_root items"
    using converted_path [of i items] i(1) len by simp_all
  define p where "p = \<lparr>ep_Key = k, ep_Value = v, ep_Leaf = convertLeafOp, ep_Path = map2 inner_op (aunts_of i items) (buildPath (int i) (int (length items)))\<rparr>"
  have conv: "ConvertExistenceProof x k v = Inr p"
    using path(1) by (simp add: ConvertExistenceProof_def convertInnerOps_def x_def p_def Let_def)
  have "apply_leaf convertLeafOp k (bs v) = rfc_leaf (items ! i)"
    using i by (simp add: apply_leaf_def convertLeafOp_def do_hash_def do_length_def rfc_leaf_def items_def KVPair_Bytes_def)
  moreover have "k \<noteq> []" using m(1) kv by force
  ultimately have "proof_root p = Some (rfc_root items)" using path(2) v by (simp add: proof_root_def p_def)
  moreover have "conforms p"
    using length_aunts by (auto simp: conforms_def p_def inner_op_def dest!: set_zip_leftD split: if_splits)
  ultimately show ?thesis using run found conv by (auto simp: p_def items_def)
qed

lemma createExistenceProof_run:
  assumes "merkle_ok M" "[] \<notin> fst ` set m" "distinct (map fst m)" "(k, v) \<in> set m" "bs v \<noteq> []"
  shows "\<exists>p root. CalcRoot M m = Inr root \<and> createExistenceProof M m k = Inr (Inr p) \<and>
    ep_Key p = k \<and> ep_Value p = v \<and> proof_root p = Some root \<and> conforms p"
proof -
  have "map_of m k = Some v" using assms(3,4) by simp
  moreover obtain pf p keys root x where "ProofsFromMap M m = Inr (root, pf, keys)" "map_of pf k = Some x" "ConvertExistenceProof x k v = Inr p"
      "ep_Key p = k" "ep_Value p = v" "proof_root p = Some root" "conforms p"
    using existence_proof_run [OF assms] by blast
  ultimately show ?thesis
    using assms(2) by (intro exI [of _ p] exI [of _ root]) (simp add: CalcRoot_def createExistenceProof_def)
qed

text \<open>Both creators are used with maps whose keys and values are not empty.\<close>

definition provable :: "(bytes \<times> slice) list \<Rightarrow> bool" where
  "provable m \<longleftrightarrow> [] \<notin> fst ` set m \<and> distinct (map fst m) \<and> (\<forall>(k, v) \<in> set m. bs v \<noteq> [])"

lemma CalcRoot_run:
  assumes "merkle_ok M" "provable m"
  shows "CalcRoot M m = Inr (rfc_root (map KVPair_Bytes (leaves M m)))"
  using ProofsFromMap_run [OF assms(1), of m] assms(2) by (simp add: CalcRoot_def provable_def)

lemma neighbour_proof_run:
  assumes "merkle_ok M" "provable m" "present \<Longrightarrow> k \<in> fst ` set m" "CalcRoot M m = Inr root"
  shows "\<exists>r. neighbour_proof M m present k = Inr (Inr r) \<and> (r = None \<longleftrightarrow> \<not> present) \<and>
    (\<forall>p. r = Some p \<longrightarrow> ep_Key p = k \<and> (k, ep_Value p) \<in> set m \<and> proof_root p = Some root \<and> conforms p)"
proof (cases present)
  case True
  obtain v where v: "(k, v) \<in> set m" "bs v \<noteq> []" using assms(2,3) True by (fastforce simp: provable_def)
  then obtain p where "createExistenceProof M m k = Inr (Inr p)" "ep_Key p = k" "ep_Value p = v" "proof_root p = Some root" "conforms p"
    using createExistenceProof_run [of M m k v] assms(1,2,4) by (auto simp: provable_def)
  then show ?thesis using v True by (simp add: neighbour_proof_def)
next
  case False
  then show ?thesis by (simp add: neighbour_proof_def)
qed

lemma SearchStrings_neighbours:
  assumes "sorted xs" "k \<notin> set xs"
  defines "i \<equiv> SearchStrings xs k"
  shows "i \<ge> 1 \<Longrightarrow> xs ! (i - 1) < k \<and> xs ! (i - 1) \<in> set xs" "i < length xs \<Longrightarrow> k < xs ! i \<and> xs ! i \<in> set xs"
    and "x \<in> set xs \<Longrightarrow> x < k \<Longrightarrow> i \<ge> 1 \<and> x \<le> xs ! (i - 1)" "x \<in> set xs \<Longrightarrow> k < x \<Longrightarrow> i < length xs \<and> xs ! i \<le> x"
proof -
  have i: "i \<le> length xs" by (simp add: i_def SearchStrings_def length_takeWhile_le)
  have below: "xs ! j < k" if "j < i" for j
    using that nth_mem [of j "takeWhile (\<lambda>y. y < k) xs"] by (auto simp: i_def SearchStrings_def takeWhile_nth dest: set_takeWhileD)
  have above: "k < xs ! i" if "i < length xs"
  proof -
    have "k \<le> xs ! i" using nth_length_takeWhile [of "\<lambda>y. y < k" xs] that by (simp add: i_def SearchStrings_def not_less)
    moreover have "xs ! i \<noteq> k" using nth_mem [OF that] assms(2) by metis
    ultimately show ?thesis by simp
  qed
  show "i \<ge> 1 \<Longrightarrow> xs ! (i - 1) < k \<and> xs ! (i - 1) \<in> set xs" using below [of "i - 1"] i by simp
  show "i < length xs \<Longrightarrow> k < xs ! i \<and> xs ! i \<in> set xs" using above by simp
  {
    assume "x \<in> set xs"
    then obtain j where j: "j < length xs" "x = xs ! j" by (auto simp: in_set_conv_nth)
    have split: "j < i \<longleftrightarrow> x < k"
    proof
      assume "x < k"
      show "j < i"
      proof (rule ccontr)
        assume "\<not> j < i"
        then have "k < xs ! i" "xs ! i \<le> x" using above j assms(1) by (auto simp: sorted_nth_mono)
        then show False using \<open>x < k\<close> by simp
      qed
    qed (use below j in simp)
    show "x < k \<Longrightarrow> i \<ge> 1 \<and> x \<le> xs ! (i - 1)" using split j i assms(1) by (auto intro: sorted_nth_mono)
    show "k < x \<Longrightarrow> i < length xs \<and> xs ! i \<le> x" using split j assms(1) by (auto intro: sorted_nth_mono)
  }
qed

text \<open>C24. Proofs of absence. For a key that is not in the map, \<open>CreateNonMembershipProof\<close> returns existence proofs of its neighbours: both prove the root of the map, the left one
  has the greatest key below the given one and the right one the least key above it, and one is left out exactly when there is no such key.\<close>

theorem nonmembership_neighbours:
  assumes "merkle_ok M" "provable m" "k \<noteq> []" "k \<notin> fst ` set m"
  shows "\<exists>root l r. CalcRoot M m = Inr root \<and> CreateNonMembershipProof M m k = Inr (Inr (CommitmentProof_Nonexist k l r)) \<and>
    (\<forall>p. l = Some p \<or> r = Some p \<longrightarrow> (ep_Key p, ep_Value p) \<in> set m \<and> proof_root p = Some root \<and> conforms p) \<and>
    (\<forall>p. l = Some p \<longrightarrow> ep_Key p < k) \<and> (\<forall>p. r = Some p \<longrightarrow> k < ep_Key p) \<and>
    (\<forall>x \<in> fst ` set m. x < k \<longrightarrow> (\<exists>p. l = Some p \<and> x \<le> ep_Key p)) \<and> (\<forall>x \<in> fst ` set m. k < x \<longrightarrow> (\<exists>p. r = Some p \<and> ep_Key p \<le> x))"
proof -
  define keys where "keys = SortedKeys m"
  define i where "i = SearchStrings keys k"
  have keys: "sorted keys" "set keys = fst ` set m" by (simp_all add: keys_def SortedKeys_def)
  note near = SearchStrings_neighbours [of keys k, folded i_def, OF keys(1), unfolded keys(2), OF assms(4)]
  obtain root where root: "CalcRoot M m = Inr root" using CalcRoot_run [OF assms(1,2)] by blast
  obtain l where l: "neighbour_proof M m (i \<ge> 1) (keys ! (i - 1)) = Inr (Inr l)" "l = None \<longleftrightarrow> \<not> i \<ge> 1"
      "\<And>p. l = Some p \<Longrightarrow> ep_Key p = keys ! (i - 1) \<and> (keys ! (i - 1), ep_Value p) \<in> set m \<and> proof_root p = Some root \<and> conforms p"
    using neighbour_proof_run [OF assms(1,2) _ root, of "i \<ge> 1" "keys ! (i - 1)"] near(1) by blast
  obtain r where r: "neighbour_proof M m (i < length keys) (keys ! i) = Inr (Inr r)" "r = None \<longleftrightarrow> \<not> i < length keys"
      "\<And>p. r = Some p \<Longrightarrow> ep_Key p = keys ! i \<and> (keys ! i, ep_Value p) \<in> set m \<and> proof_root p = Some root \<and> conforms p"
    using neighbour_proof_run [OF assms(1,2) _ root, of "i < length keys" "keys ! i"] near(2) by blast
  have "map_of m k = None" using assms(4) by (simp add: map_of_eq_None_iff)
  then have made: "CreateNonMembershipProof M m k = Inr (Inr (CommitmentProof_Nonexist k l r))"
    using assms(3) l(1) r(1) unfolding CreateNonMembershipProof_def has_key_def Let_def keys_def [symmetric] i_def [symmetric] by simp
  have left: "\<exists>p. l = Some p \<and> x \<le> ep_Key p" if "x \<in> fst ` set m" "x < k" for x
    using near(3) [OF that] l(2) l(3) [of "the l"] by (cases l) simp_all
  have right: "\<exists>p. r = Some p \<and> ep_Key p \<le> x" if "x \<in> fst ` set m" "k < x" for x
    using near(4) [OF that] r(2) r(3) [of "the r"] by (cases r) simp_all
  have below: "ep_Key p < k" if "l = Some p" for p using near(1) l(2) l(3) [OF that] that by simp
  have above: "k < ep_Key p" if "r = Some p" for p using near(2) r(2) r(3) [OF that] that by simp
  have in_map: "(ep_Key p, ep_Value p) \<in> set m \<and> proof_root p = Some root \<and> conforms p" if "l = Some p \<or> r = Some p" for p
    using that l(3) [of p] r(3) [of p] by auto
  show ?thesis
    by (intro exI [of _ root] exI [of _ l] exI [of _ r] conjI allI ballI impI) (use root made left right below above in_map in simp_all)
qed

section \<open>Proofs of a commit\<close>

text \<open>
  What ICS-23 promises for an existence proof whose operations conform to the Tendermint specification and whose key and value are not empty: it survives its encoding, the
  root calculated from it is that of the specification, and it is accepted for its key, its value and that root.
\<close>

definition ics23_ok :: "ics23_lib \<Rightarrow> bool" where
  "ics23_ok L \<longleftrightarrow> (\<forall>p root. proof_root p = Some root \<and> conforms p \<longrightarrow>
     (\<exists>bz. ic_Marshal L (CommitmentProof_Exist p) = Inr bz \<and> ic_Unmarshal L bz = Inr (CommitmentProof_Exist p)) \<and>
     ic_Calculate L (CommitmentProof_Exist p) = Inr root \<and>
     ic_VerifyMembership L TendermintSpec root (CommitmentProof_Exist p) (ep_Key p) (ep_Value p))"

text \<open>Instances of the packages, with which the hypotheses on them hold.\<close>

definition ref_merkle :: cmt_merkle where
  "ref_merkle = \<lparr>cm_tmhash = sha256, cm_Proofs = (\<lambda>items. (rfc_root items,
     map (\<lambda>i. \<lparr>mp_Total = int (length items), mp_Index = int i, mp_LeafHash = rfc_leaf (items ! i), mp_Aunts = aunts_of i items\<rparr>) [0..<length items]))\<rparr>"

fun ref_inner_ops :: "bytes list \<Rightarrow> InnerOp list" where
  "ref_inner_ops (p # q # fs) = \<lparr>io_Hash = HashOp_SHA256, io_Prefix = p, io_Suffix = q\<rparr> # ref_inner_ops fs"
| "ref_inner_ops _ = []"

definition ref_ics23 :: ics23_lib where
  "ref_ics23 = \<lparr>ic_Marshal = (\<lambda>c. case c of
       CommitmentProof_Exist p \<Rightarrow> Inr (ref_pack (ep_Key p # bs (ep_Value p) # concat (map (\<lambda>i. [io_Prefix i, io_Suffix i]) (ep_Path p))))
     | CommitmentProof_Nonexist _ _ _ \<Rightarrow> Inl ''unsupported''),
     ic_Unmarshal = (\<lambda>bz. case ref_unpack bz of
       k # v # fs \<Rightarrow> Inr (CommitmentProof_Exist \<lparr>ep_Key = k, ep_Value = Some v, ep_Leaf = convertLeafOp, ep_Path = ref_inner_ops fs\<rparr>)
     | _ \<Rightarrow> Inl ''unexpected EOF''),
     ic_Calculate = (\<lambda>c. case c of
       CommitmentProof_Exist p \<Rightarrow> (case proof_root p of Some root \<Rightarrow> Inr root | None \<Rightarrow> Inl ''key and value needed'')
     | CommitmentProof_Nonexist _ _ _ \<Rightarrow> Inl ''unsupported''),
     ic_VerifyMembership = (\<lambda>spec root c k v. case c of
       CommitmentProof_Exist p \<Rightarrow> conforms p \<and> proof_root p = Some root \<and> ep_Key p = k \<and> bs (ep_Value p) = bs v
     | CommitmentProof_Nonexist _ _ _ \<Rightarrow> False),
     ic_VerifyNonMembership = (\<lambda>spec root c k. False)\<rparr>"

lemma ref_merkle_ok: "merkle_ok ref_merkle"
  by (simp add: merkle_ok_def ref_merkle_def)

lemma ref_inner_ops_inverse:
  "\<forall>i \<in> set path. io_Hash i = HashOp_SHA256 \<Longrightarrow> ref_inner_ops (concat (map (\<lambda>i. [io_Prefix i, io_Suffix i]) path)) = path"
  by (induction path) simp_all

lemma ref_ics23_ok: "ics23_ok ref_ics23"
proof -
  have "ic_Unmarshal ref_ics23 (ref_pack (ep_Key p # bs (ep_Value p) # concat (map (\<lambda>i. [io_Prefix i, io_Suffix i]) (ep_Path p)))) =
      Inr (CommitmentProof_Exist p)" if "proof_root p = Some root" "conforms p" for p root
    using that by (cases "ep_Value p") (auto simp: ref_ics23_def ref_unpack_pack ref_inner_ops_inverse conforms_def proof_root_def)
  then show ?thesis by (auto simp: ics23_ok_def ref_ics23_def)
qed

lemma toMap_keys: "fst ` set (toMap ci) = si_Name ` set (cinfo_StoreInfos ci)" "distinct (map fst (toMap ci))"
proof -
  have "fst ` set (fold (\<lambda>x m. AList.update (si_Name x) (StoreInfo_GetHash x) m) xs m) = fst ` set m \<union> si_Name ` set xs \<and>
      (distinct (map fst m) \<longrightarrow> distinct (map fst (fold (\<lambda>x m. AList.update (si_Name x) (StoreInfo_GetHash x) m) xs m)))" for xs m
    by (induction xs arbitrary: m) (auto simp: dom_update distinct_update)
  then show "fst ` set (toMap ci) = si_Name ` set (cinfo_StoreInfos ci)" "distinct (map fst (toMap ci))" by (simp_all add: toMap_def)
qed

text \<open>C15. The proof of a store verifies against the commit hash. For every store of a commit with a hash, and whatever the order in which the map of stores is iterated,
  \<open>ProofOpFromMap\<close> makes an operation that decodes again and that, run on the hash of the store, returns the hash of the commit.\<close>

theorem commit_proof_verifies:
  assumes "merkle_ok M" "ics23_ok L" "[] \<notin> si_Name ` set (cinfo_StoreInfos ci)"
    and "mset m = mset (toMap ci)" "(name, v) \<in> set m" "bs v \<noteq> []"
  shows "\<exists>root pop op. CommitInfo_Hash M ci = Inr root \<and> ProofOpFromMap M L m name = Inr (Inr pop) \<and>
    CommitmentOpDecoder L pop = Inr op \<and> co_Key op = name \<and> CommitmentOp_Run L op [v] = Inr [root]"
proof -
  have sets: "set m = set (toMap ci)" using assms(4) by (metis set_mset_mset)
  have m: "[] \<notin> fst ` set m" using assms(3) toMap_keys(1) sets by metis
  have "mset (map fst m) = mset (map fst (toMap ci))" using assms(4) by simp
  then have dist: "distinct (map fst m)" using toMap_keys(2) by (metis mset_eq_imp_distinct_iff)
  define root where "root = rfc_root (map KVPair_Bytes (leaves M m))"
  obtain pf p keys x where p: "ProofsFromMap M m = Inr (root, pf, keys)" "map_of pf name = Some x" "ConvertExistenceProof x name v = Inr p"
      "ep_Key p = name" "ep_Value p = v" "proof_root p = Some root" "conforms p"
    using existence_proof_run [OF assms(1) m dist assms(5,6)] by (auto simp: root_def)
  have "cinfo_StoreInfos ci \<noteq> []" using assms(5) sets by (auto simp: toMap_def)
  moreover obtain pf' keys' where "ProofsFromMap M (toMap ci) = Inr (root, pf', keys')"
    using ProofsFromMap_run [OF assms(1), of "toMap ci"] m sets leaves_perm [OF assms(4), of M] by (simp add: root_def)
  moreover have "root \<noteq> []" by (metis length_rfc_root list.size(3) root_def zero_neq_numeral)
  ultimately have hash: "CommitInfo_Hash M ci = Inr root" by (simp add: CommitInfo_Hash_def)
  obtain bz where bz: "ic_Marshal L (CommitmentProof_Exist p) = Inr bz" "ic_Unmarshal L bz = Inr (CommitmentProof_Exist p)"
    using assms(2) p(6,7) unfolding ics23_ok_def by blast
  have "ic_Calculate L (CommitmentProof_Exist p) = Inr root" "ic_VerifyMembership L TendermintSpec root (CommitmentProof_Exist p) name v"
    using assms(2) p(4-7) unfolding ics23_ok_def by auto
  moreover have "map_of m name = Some v" using dist assms(5) by simp
  ultimately show ?thesis
    using hash p(1-3) bz
    by (intro exI [of _ root] exI [of _ "\<lparr>po_Type = ProofOpSimpleMerkleCommitment, po_Key = name, po_Data = bz\<rparr>"]
        exI [of _ "NewSimpleMerkleCommitmentOp name (CommitmentProof_Exist p)"])
      (simp add: ProofOpFromMap_def CommitmentOp_ProofOp_def NewSimpleMerkleCommitmentOp_def CommitmentOpDecoder_def CommitmentOp_Run_def
        ProofOpSimpleMerkleCommitment_def ProofOpIAVLCommitment_def)
qed

theorem nonmembership_neighbours_witness:
  "\<exists>root l r. CalcRoot ref_merkle [([99], Some [5]), ([97], Some [6])] = Inr root \<and>
    CreateNonMembershipProof ref_merkle [([99], Some [5]), ([97], Some [6])] [98] = Inr (Inr (CommitmentProof_Nonexist [98] (Some l) (Some r))) \<and>
    ep_Key l = [97] \<and> ep_Key r = [99] \<and> proof_root l = Some root \<and> proof_root r = Some root"
proof -
  define m where "m = [([99 :: byte], Some [5 :: byte]), ([97], Some [6])]"
  have ok: "provable m" "[98] \<notin> fst ` set m" by (simp_all add: provable_def m_def)
  obtain root l r where made: "CalcRoot ref_merkle m = Inr root" "CreateNonMembershipProof ref_merkle m [98] = Inr (Inr (CommitmentProof_Nonexist [98] l r))"
    and in_map: "\<forall>p. l = Some p \<or> r = Some p \<longrightarrow> (ep_Key p, ep_Value p) \<in> set m \<and> proof_root p = Some root \<and> conforms p"
    and sides: "\<forall>p. l = Some p \<longrightarrow> ep_Key p < [98]" "\<forall>p. r = Some p \<longrightarrow> [98] < ep_Key p"
    and neighbours: "\<forall>x \<in> fst ` set m. x < [98] \<longrightarrow> (\<exists>p. l = Some p \<and> x \<le> ep_Key p)" "\<forall>x \<in> fst ` set m. [98] < x \<longrightarrow> (\<exists>p. r = Some p \<and> ep_Key p \<le> x)"
    using nonmembership_neighbours [OF ref_merkle_ok ok(1) list.distinct(2) ok(2)] by (elim exE conjE)
  obtain p q where pq: "l = Some p" "r = Some q" using neighbours by (auto simp: m_def)
  have "ep_Key p \<in> {[97], [99]}" "ep_Key q \<in> {[97], [99]}" using in_map pq by (auto simp: m_def)
  moreover have "ep_Key p < [98]" "[98] < ep_Key q" using sides pq by simp_all
  ultimately have "ep_Key p = [97]" "ep_Key q = [99]" by auto
  then show ?thesis using made in_map pq by (intro exI [of _ root] exI [of _ p] exI [of _ q]) (simp flip: m_def)
qed

theorem commit_proof_verifies_witness:
  "\<exists>root pop op. CommitInfo_Hash ref_merkle \<lparr>cinfo_Version = 7, cinfo_StoreInfos =
       [\<lparr>si_Name = [97], si_CommitId = \<lparr>ci_Version = 7, ci_Hash = Some [1, 2]\<rparr>\<rparr>, \<lparr>si_Name = [98], si_CommitId = \<lparr>ci_Version = 7, ci_Hash = Some [3]\<rparr>\<rparr>],
       cinfo_Timestamp = 0\<rparr> = Inr root \<and>
     ProofOpFromMap ref_merkle ref_ics23 [([98], Some [3]), ([97], Some [1, 2])] [97] = Inr (Inr pop) \<and>
     CommitmentOpDecoder ref_ics23 pop = Inr op \<and> co_Key op = [97] \<and> CommitmentOp_Run ref_ics23 op [Some [1, 2]] = Inr [root]"
  by (rule commit_proof_verifies [OF ref_merkle_ok ref_ics23_ok]) (simp_all add: toMap_def StoreInfo_GetHash_def)

end
