(* ===== verification/Spec2Isabelle.thy ===== *)
theory Spec2Isabelle
  imports Cache_Props Util_Props Gas_KV Observed_KV MV_KVProps MV_List Pruning Snapshot_Prune Snapshot_Restore Merkle_Proofs
begin

text \<open>
  A verification development of the store library under src/: the stack of key-value stores in which a Cosmos
  application keeps its state, the optimistic concurrency layer that runs the transactions of a block in parallel on
  it, and the services around it.

  \<^bold>\<open>The program.\<close> Every layer implements the interface \<open>KVStore\<close> of types/store.go and wraps another store. At the bottom
  are the database adapters (dbadapter, transient, mem, rootmulti/dbadapter.go) over a third-party database. cachekv buffers writes and
  overlays them on its parent; prefix shows the part of the parent under a prefix; gaskv charges a gas meter
  (types/gas.go) for each access; tracekv and listenkv report accesses to a writer and to a listener. multiversion
  keeps, per key, one version for each transaction of a block (store.go, list_store.go), gives each transaction a view of the
  versions before it (mvkv.go), records what it read and iterated over, and validates the records later. pruning decides which
  heights may be dropped. snapshots cuts an exported state into chunks and keeps them in files with metadata in a database; a manager creates, prunes and restores them.

  \<^bold>\<open>How it is modelled.\<close> \<open>Go_Prelude\<close> has the Go values (a slice is an optional byte list, nil being \<open>None\<close>) and the monad \<open>go\<close>
  in which stateful code is written: a function from a state to \<open>None\<close> when it does not return, or to a panic or a value
  with the new state. \<open>wp\<close> says that a run returns and what holds then, \<open>panics\<close> that it panics; both exclude divergence. An interface is a
  record of operations (\<open>kv_ops\<close>, \<open>iter_ops\<close>, \<open>db_ops\<close>, \<open>mvs_ops\<close>), so that a store that wraps another takes the operations
  of its parent as an argument, as the constructor in the code takes the parent; its state contains the parent's. What a
  wrapper relies on is a locale over the record: \<open>iterator\<close>, \<open>kvstore\<close> and \<open>kvstore_keys\<close> (\<open>KV_Interface\<close>), \<open>database\<close>
  (\<open>DB_Adapter\<close>), \<open>gas_meter\<close>, \<open>btree_lib\<close>, \<open>gbtree_lib\<close>. Each store is shown to satisfy the contract it relies on, so the
  results compose along the stack. Third-party code (the databases of cosmos-db, the trees of tidwall/btree and google/btree) is a
  parameter with its documented behaviour as the assumptions of a locale; \<open>Ref_Libs\<close> has executable reference libraries on which all locales
  are interpreted and the witnesses run.

  \<^bold>\<open>Theories.\<close>
  \<^item> \<open>Go_Bytes\<close>, \<open>Util_Props\<close>: types/validity.go, types/utils.go, types/iterator.go and the index searches of cachekv/store.go;
    prefix ranges are exact, big-endian keys keep the order, a page holds exactly its keys, the searches end with the right index.
  \<^item> \<open>DB_Adapter\<close>: dbadapter/store.go, transient/store.go, mem/store.go, rootmulti/dbadapter.go; the adapter keeps the contract \<open>kvstore\<close>.
  \<^item> \<open>Mem_Iterator\<close>, \<open>Merge_Iterator\<close>, \<open>Cache_KV\<close>, \<open>Cache_Props\<close>: cachekv/internal/btree.go, memiterator.go and mergeiterator.go, and
    cachekv/store.go; the cached store refines the overlaid map, its iterations end and are exact, \<open>Write\<close> flushes what the store showed, and two faults are
    proved (inverted ranges of a new store, ranges with a nil end).
  \<^item> \<open>Prefix_KV\<close>: prefix/store.go; the view refines the parent's contents at the prefixed keys and touches nothing else.
  \<^item> \<open>Gas_Meter\<close>, \<open>Gas_KV\<close>: types/gas.go and gaskv/store.go; charges, refunds, limits and overflow of 64-bit gas, the exact charge of each access and
    of an iteration, and no effect on the parent when a charge fails.
  \<^item> \<open>Observed_KV\<close>: tracekv/store.go, listenkv/store.go, types/listening.go; transparency, and replaying the recorded writes gives the parent's contents.
  \<^item> \<open>MV_Item\<close>, \<open>MV_Iter\<close>, \<open>MV_Store\<close>, \<open>MV_StoreLaws\<close>, \<open>MV_Props\<close>: multiversion/data_structures.go, data_list.go, mergeiterator.go, memiterator.go, store.go and
    types/occ/types.go; a block run with the multiversion store equals the serial run of the final write sets, a transaction reads the latest version below it,
    a read set is valid exactly when each read would give the same value now (nil and empty values apart, where the code confuses them).
  \<^item> \<open>MV_KV\<close>, \<open>MV_KVLaws\<close>, \<open>MV_Replay\<close>, \<open>MV_KVProps\<close>: multiversion/mvkv.go and trackediterator.go; what a transaction sees, repeatable reads, aborts on estimates,
    tracked iterations, and the exactness of their replay.
  \<^item> \<open>MV_List\<close>: multiversion/list_store.go with its sharded and concurrent maps, and \<open>crc32.ChecksumIEEE\<close> bit by bit.
  \<^item> \<open>Pruning\<close>: pruning/manager.go and pruning/types/options.go; snapshots that are still to be taken are never pruned, and the heights survive a restart.
  \<^item> \<open>Snapshot_Chunks\<close>, \<open>Snapshot_Store\<close>, \<open>Snapshot_Laws\<close>, \<open>Snapshot_Prune\<close>: snapshots/chunk.go and snapshots/store.go, with the file system of \<open>Go_Files\<close> and SHA-256
    (\<open>Sha256\<close>); chunks read back as written, a saved snapshot loads with its hashes, pruning keeps the newest heights whatever its
    iterator shows after a deletion, and deletes exactly the others when the iterators of the database are isolated from writes.
  \<^item> \<open>Snapshot_Stream\<close>, \<open>Snapshot_Manager\<close>, \<open>Snapshot_MgrLaws\<close>, \<open>Snapshot_Restore\<close>: snapshots/stream.go, manager.go and types; a created snapshot restores the multistore
    and the extensions when no item is above the limit of the reader, the manager as a state machine runs one operation at a time and accepts only chunks with the right hash, and one of its faults is proved.
  \<^item> \<open>Merkle\<close>, \<open>Merkle_Proofs\<close>: internal/tree, internal/kv/kv.go, internal/maps, internal/proofs, types/commit_info.go, types/proof.go and rootmulti/proof.go; the proof that a
    store is part of a commit verifies against the hash of the commit, and a proof of absence holds the neighbours of the key. The packages of CometBFT and ICS-23
    are parameters; \<open>merkle_ok\<close> and \<open>ics23_ok\<close> state what is relied on, the hash and the proofs of CometBFT by the definition of RFC 6962.

  \<^bold>\<open>Bounds.\<close> Loops over iterators and trees are partial functions of the option monad, and the theorems state that they return.
  Recursions on counters have termination proofs. Integers are 64-bit words where the code can overflow (gas, heights) and
  \<open>int\<close> for transaction indices. The pruning theorems assume heights below \<open>2^62\<close>, which keeps the sum of a height and an interval in \<open>int64\<close>.
  Methods that hold a lock for their whole body are one step; the goroutine of \<open>validateIterator\<close> and its channels are modelled
  by the sequence of aborts and the choice of the select.

  \<^bold>\<open>Not modelled.\<close> iavl and cache, which wrap the third-party IAVL tree, ARC and bigcache; cachemulti and rootmulti/store.go, which mount, load and commit
  stores over them by name (the cached stores, the adapters, the commit hash and the pruning that they use are modelled); the generators of random test
  data of internal/proofs/helpers.go; streaming (plugin processes over gRPC), metrics and logging (pure output), generated protobuf code (the size of a snapshot item apart) and mocks, and interface declarations.
\<close>

end
